(* ===== verification/Bh_Prelude.thy ===== *)
theory Bh_Prelude
  imports Main "HOL-Library.Word" "HOL-Library.Monad_Syntax" "HOL-Library.Signed_Division"
begin

text \<open>
  Shared vocabulary of the BlackHole OS development: the machine integers of
  \<^verbatim>\<open>include/stdint.h\<close>, C objects as byte lists with checked access (an access
  outside the object is undefined behaviour in C and is the value \<^const>\<open>None\<close> here),
  string literals, and the generic lemmas on lists and words the components share.
\<close>

unbundle bit_operations_syntax

section \<open>Machine integers\<close>

type_synonym u8 = "8 word"
type_synonym u16 = "16 word"
type_synonym u32 = "32 word"
type_synonym bytes = "8 word list"

named_theorems c_loop \<open>unfolding equations of the loops of the code\<close>
named_theorems c_obj \<open>checked access to C objects\<close>

text \<open>Two's complement truncation to the 32-bit C \<^verbatim>\<open>int\<close>.\<close>

definition c_int :: "int \<Rightarrow> int" where
  "c_int x = signed_take_bit 31 x"

lemma c_int_id: "- (2 ^ 31) \<le> x \<Longrightarrow> x < 2 ^ 31 \<Longrightarrow> c_int x = x"
  by (simp add: c_int_def signed_take_bit_int_eq_self)

section \<open>C objects with checked access\<close>

definition aget :: "'a list \<Rightarrow> nat \<Rightarrow> 'a option" where
  "aget xs i = (if i < length xs then Some (xs ! i) else None)"

definition aput :: "'a list \<Rightarrow> nat \<Rightarrow> 'a \<Rightarrow> 'a list option" where
  "aput xs i v = (if i < length xs then Some (xs[i := v]) else None)"

lemma aget_in [c_obj, simp]: "i < length xs \<Longrightarrow> aget xs i = Some (xs ! i)"
  by (simp add: aget_def)

lemma aget_out [c_obj]: "length xs \<le> i \<Longrightarrow> aget xs i = None"
  by (simp add: aget_def)

lemma aput_in [c_obj, simp]: "i < length xs \<Longrightarrow> aput xs i v = Some (xs[i := v])"
  by (simp add: aput_def)

lemma aput_out [c_obj]: "length xs \<le> i \<Longrightarrow> aput xs i v = None"
  by (simp add: aput_def)

lemma aget_Some_iff: "aget xs i = Some v \<longleftrightarrow> i < length xs \<and> v = xs ! i"
  by (auto simp: aget_def)

lemma aput_Some_iff: "aput xs i v = Some ys \<longleftrightarrow> i < length xs \<and> ys = xs[i := v]"
  by (auto simp: aput_def)

lemma aget_None_iff: "aget xs i = None \<longleftrightarrow> length xs \<le> i"
  by (auto simp: aget_def)

lemma aput_None_iff: "aput xs i v = None \<longleftrightarrow> length xs \<le> i"
  by (auto simp: aput_def)

section \<open>String literals and strings inside objects\<close>

definition ascii :: "string \<Rightarrow> bytes" where
  "ascii s = map of_char s"

text \<open>A string literal is its characters and the terminating NUL.\<close>

definition lit :: "string \<Rightarrow> bytes" where
  "lit s = ascii s @ [0]"

text \<open>
  The object \<open>b\<close> holds the C string \<open>s\<close> at offset \<open>p\<close>: the bytes of \<open>s\<close>,
  none of them NUL, and a NUL after them.
\<close>

definition str_at :: "bytes \<Rightarrow> nat \<Rightarrow> bytes \<Rightarrow> bool" where
  "str_at b p s \<longleftrightarrow> p + length s < length b \<and> take (length s) (drop p b) = s
     \<and> b ! (p + length s) = 0 \<and> 0 \<notin> set s"

lemma str_at_nth:
  assumes "str_at b p s" "i < length s"
  shows "p + i < length b" "b ! (p + i) = s ! i" "b ! (p + i) \<noteq> 0"
proof -
  from assms have *: "take (length s) (drop p b) = s" and l: "p + length s < length b"
    by (auto simp: str_at_def)
  from l assms(2) show "p + i < length b" by simp
  have "s ! i = take (length s) (drop p b) ! i" by (simp add: *)
  also have "\<dots> = b ! (p + i)" using assms(2) l by simp
  finally show "b ! (p + i) = s ! i" by simp
  with assms show "b ! (p + i) \<noteq> 0" unfolding str_at_def by (metis nth_mem)
qed

lemma str_at_end: "str_at b p s \<Longrightarrow> p + length s < length b \<and> b ! (p + length s) = 0"
  by (auto simp: str_at_def)

lemma str_at_append [intro]: "0 \<notin> set s \<Longrightarrow> str_at (xs @ s @ 0 # ys) (length xs) s"
  by (auto simp: str_at_def nth_append)

lemma str_at_0 [intro]: "0 \<notin> set s \<Longrightarrow> str_at (s @ 0 # ys) 0 s"
  using str_at_append [of s "[]" ys] by simp

lemma str_at_append2: "0 \<notin> set s \<Longrightarrow> p = length xs \<Longrightarrow> str_at (xs @ s @ 0 # ys) p s"
  by (simp add: str_at_append)

lemma str_at_Cons: "str_at b p (c # s) \<longleftrightarrow> p < length b \<and> b ! p = c \<and> c \<noteq> 0 \<and> str_at b (Suc p) s"
proof (cases "p < length b")
  case True
  then have "drop p b = b ! p # drop (Suc p) b" by (simp add: Cons_nth_drop_Suc)
  then show ?thesis by (auto simp: str_at_def)
qed (auto simp: str_at_def)

lemma str_at_Nil: "str_at b p [] \<longleftrightarrow> p < length b \<and> b ! p = 0"
  by (auto simp: str_at_def)

lemma str_at_unique: "str_at b p s \<Longrightarrow> str_at b p t \<Longrightarrow> s = t"
proof (induction s arbitrary: p t)
  case Nil
  then show ?case by (cases t) (auto simp: str_at_Nil str_at_Cons)
next
  case (Cons c s)
  then show ?case by (cases t) (auto simp: str_at_Nil str_at_Cons)
qed

section \<open>Counting loops\<close>

text \<open>
  \<^verbatim>\<open>for (i = lo; i < hi; i++) body\<close>, where the body does not assign
  \<^verbatim>\<open>i\<close>, and the invariant rule every such loop is proved with.
\<close>

definition for_loop :: "int \<Rightarrow> int \<Rightarrow> (int \<Rightarrow> 's \<Rightarrow> 's) \<Rightarrow> 's \<Rightarrow> 's" where
  "for_loop lo hi body s = fold body [lo..hi - 1] s"

lemma for_loop_empty [simp]: "hi \<le> lo \<Longrightarrow> for_loop lo hi body s = s"
  by (simp add: for_loop_def)

lemma for_loop_step: "lo < hi \<Longrightarrow> for_loop lo hi body s = for_loop (lo + 1) hi body (body lo s)"
  by (simp add: for_loop_def upto_rec1)

lemma for_loop_inv:
  assumes "lo \<le> hi" "I lo s"
    "\<And>i s. lo \<le> i \<Longrightarrow> i < hi \<Longrightarrow> I i s \<Longrightarrow> I (i + 1) (body i s)"
  shows "I hi (for_loop lo hi body s)"
  using assms
proof (induction "nat (hi - lo)" arbitrary: lo s)
  case 0
  then show ?case by simp
next
  case (Suc n)
  then have "lo < hi" by simp
  moreover from this Suc have "I hi (for_loop (lo + 1) hi body (body lo s))"
    by (intro Suc.hyps(1)) auto
  ultimately show ?case by (simp add: for_loop_step)
qed

section \<open>Words\<close>

lemma unat_inc: "a < (b :: 'a::len word) \<Longrightarrow> unat (a + 1) = unat a + 1"
proof -
  assume "a < b"
  then have "unat a + 1 \<le> unat b" by (simp add: word_less_nat_alt)
  also have "unat b < 2 ^ LENGTH('a)" by simp
  finally show ?thesis by (simp add: unat_word_ariths)
qed

lemma unat_dec: "a < (b :: 'a::len word) \<Longrightarrow> unat (b - 1) = unat b - 1"
  by (intro unat_minus_one) auto

lemma unat_lt2p_u32: "unat (w :: u32) < 2 ^ 32"
  using unsigned_less [of w] by simp

lemma unat_of_nat32: "n < 2 ^ 32 \<Longrightarrow> unat (of_nat n :: u32) = n"
  by (simp add: unat_of_nat take_bit_nat_eq_self)

section \<open>Lists\<close>

lemma take_drop_split: "i < length xs \<Longrightarrow> take i xs @ xs ! i # drop (Suc i) xs = xs"
  by (simp add: id_take_nth_drop [symmetric])

lemma list_update_take_drop: "i < length xs \<Longrightarrow> xs[i := v] = take i xs @ v # drop (Suc i) xs"
  by (simp add: upd_conv_take_nth_drop)

end
