(* ===== verification/Bh_String.thy ===== *)
theory Bh_String
  imports Bh_Prelude
begin

text \<open>
  The string library, \<^verbatim>\<open>libc/string.c\<close>. A pointer is an object (its bytes) and an
  offset into it; every read and write is checked against the object, so the value
  \<^const>\<open>None\<close> is undefined behaviour (an access outside the object, or a division by
  zero). The lemmas give each routine's result on every branch; the number printers are
  shown equal to a reference digit expansion and to be read back by \<open>parse_digits\<close>.
\<close>

section \<open>memset, memcpy\<close>

fun memset_loop :: "bytes \<Rightarrow> nat \<Rightarrow> u8 \<Rightarrow> nat \<Rightarrow> bytes option" where
  "memset_loop b p c 0 = Some b"
| "memset_loop b p c (Suc n) = do { b' \<leftarrow> aput b p c; memset_loop b' (Suc p) c n }"

definition memset :: "bytes \<Rightarrow> nat \<Rightarrow> u32 \<Rightarrow> nat \<Rightarrow> bytes option" where
  "memset dst p c n = memset_loop dst p (ucast c) n"

fun memcpy_loop :: "bytes \<Rightarrow> nat \<Rightarrow> bytes \<Rightarrow> nat \<Rightarrow> nat \<Rightarrow> bytes option" where
  "memcpy_loop d dp s sp 0 = Some d"
| "memcpy_loop d dp s sp (Suc n) = do {
     x \<leftarrow> aget s sp;
     d' \<leftarrow> aput d dp x;
     memcpy_loop d' (Suc dp) s (Suc sp) n }"

definition memcpy :: "bytes \<Rightarrow> nat \<Rightarrow> bytes \<Rightarrow> nat \<Rightarrow> nat \<Rightarrow> bytes option" where
  "memcpy dst dp src sp n = memcpy_loop dst dp src sp n"

section \<open>strlen, strcmp, strncmp, strcpy\<close>

function strlen_loop :: "bytes \<Rightarrow> nat \<Rightarrow> nat \<Rightarrow> nat option" where
  "strlen_loop b p len = (case aget b (p + len) of
     None \<Rightarrow> None
   | Some c \<Rightarrow> if c \<noteq> 0 then strlen_loop b p (Suc len) else Some len)"
  by pat_completeness auto
termination
  by (relation "measure (\<lambda>(b, p, len). length b - (p + len))") (auto simp: aget_Some_iff)

definition strlen :: "bytes \<Rightarrow> nat \<Rightarrow> nat option" where
  "strlen str p = strlen_loop str p 0"

function strcmp :: "bytes \<Rightarrow> nat \<Rightarrow> bytes \<Rightarrow> nat \<Rightarrow> int option" where
  "strcmp s1 p1 s2 p2 = (case aget s1 p1 of
     None \<Rightarrow> None
   | Some c1 \<Rightarrow> (case aget s2 p2 of
       None \<Rightarrow> None
     | Some c2 \<Rightarrow> if c1 \<noteq> 0 \<and> c1 = c2 then strcmp s1 (Suc p1) s2 (Suc p2)
                  else Some (uint c1 - uint c2)))"
  by pat_completeness auto
termination
  by (relation "measure (\<lambda>(s1, p1, s2, p2). length s1 - p1)") (auto simp: aget_Some_iff)

text \<open>
  \<^verbatim>\<open>strncmp\<close> tests \<^verbatim>\<open>n\<close> before it reads, so with \<^verbatim>\<open>n = 0\<close> nothing is read.
\<close>

fun strncmp :: "bytes \<Rightarrow> nat \<Rightarrow> bytes \<Rightarrow> nat \<Rightarrow> nat \<Rightarrow> int option" where
  "strncmp s1 p1 s2 p2 0 = Some 0"
| "strncmp s1 p1 s2 p2 (Suc n) = (case aget s1 p1 of
     None \<Rightarrow> None
   | Some c1 \<Rightarrow> (case aget s2 p2 of
       None \<Rightarrow> None
     | Some c2 \<Rightarrow> if c1 \<noteq> 0 \<and> c1 = c2 then strncmp s1 (Suc p1) s2 (Suc p2) n
                  else Some (uint c1 - uint c2)))"

function strcpy :: "bytes \<Rightarrow> nat \<Rightarrow> bytes \<Rightarrow> nat \<Rightarrow> bytes option" where
  "strcpy dest dp src sp = (case aget src sp of
     None \<Rightarrow> None
   | Some c \<Rightarrow> if c \<noteq> 0 then (case aput dest dp c of
         None \<Rightarrow> None
       | Some dest' \<Rightarrow> strcpy dest' (Suc dp) src (Suc sp))
     else aput dest dp 0)"
  by pat_completeness auto
termination
  by (relation "measure (\<lambda>(dest, dp, src, sp). length src - sp)") (auto simp: aget_Some_iff)

declare strlen_loop.simps [simp del] strcmp.simps [simp del] strcpy.simps [simp del]

section \<open>reverse, itoa, uitoa\<close>

text \<open>
  \<^verbatim>\<open>size_t\<close> is 32 bits wide: \<^verbatim>\<open>len - 1\<close> wraps for an empty string. The loop
  body swaps \<^verbatim>\<open>str[start]\<close> and \<^verbatim>\<open>str[end]\<close>.
\<close>

function reverse_loop :: "bytes \<Rightarrow> u32 \<Rightarrow> u32 \<Rightarrow> bytes option" where
  "reverse_loop str start en =
     (if start < en then
        (case aget str (unat start) of None \<Rightarrow> None
         | Some temp \<Rightarrow> (case aget str (unat en) of None \<Rightarrow> None
           | Some x \<Rightarrow> (case aput str (unat start) x of None \<Rightarrow> None
             | Some str1 \<Rightarrow> (case aput str1 (unat en) temp of None \<Rightarrow> None
               | Some str2 \<Rightarrow> reverse_loop str2 (start + 1) (en - 1)))))
      else Some str)"
  by pat_completeness auto
termination
proof (relation "measure (\<lambda>(str, start, en). unat en - unat start)", goal_cases)
  case 1
  show ?case by simp
next
  case (2 str start en x1 x2 x3 x4)
  then have "unat start < unat en" by (simp add: word_less_nat_alt)
  with 2 show ?case by (simp add: unat_inc unat_dec)
qed

declare reverse_loop.simps [simp del]

definition reverse :: "bytes \<Rightarrow> u32 \<Rightarrow> bytes option" where
  "reverse str len = reverse_loop str 0 (len - 1)"

text \<open>\<^verbatim>\<open>(rem > 9) ? (rem - 10) + 'a' : rem + '0'\<close>, converted to \<^verbatim>\<open>char\<close>.\<close>

definition digit_char :: "int \<Rightarrow> u8" where
  "digit_char r = (if r > 9 then word_of_int ((r - 10) + 97) else word_of_int (r + 48))"

text \<open>
  The digit loop of \<^verbatim>\<open>itoa\<close>: C's \<^verbatim>\<open>%\<close> and \<^verbatim>\<open>/\<close> truncate towards zero
  (\<open>smod\<close>, \<open>sdiv\<close>). The loop returns the buffer and the index \<^verbatim>\<open>i\<close>.
\<close>

function itoa_loop :: "int \<Rightarrow> bytes \<Rightarrow> nat \<Rightarrow> int \<Rightarrow> (bytes \<times> nat) option" where
  "itoa_loop value str i base =
     (if value \<noteq> 0 then
        (if base = 0 then None
         else (case aput str i (digit_char (value smod base)) of
             None \<Rightarrow> None
           | Some str' \<Rightarrow> itoa_loop (value sdiv base) str' (Suc i) base))
      else Some (str, i))"
  by pat_completeness auto
termination
  by (relation "measure (\<lambda>(value, str, i, base). length str - i)") (auto simp: aput_Some_iff)

function uitoa_loop :: "u32 \<Rightarrow> bytes \<Rightarrow> nat \<Rightarrow> u32 \<Rightarrow> (bytes \<times> nat) option" where
  "uitoa_loop value str i base =
     (if value \<noteq> 0 then
        (if base = 0 then None
         else (case aput str i (digit_char (uint (value mod base))) of
             None \<Rightarrow> None
           | Some str' \<Rightarrow> uitoa_loop (value div base) str' (Suc i) base))
      else Some (str, i))"
  by pat_completeness auto
termination
  by (relation "measure (\<lambda>(value, str, i, base). length str - i)") (auto simp: aput_Some_iff)

declare itoa_loop.simps [simp del] uitoa_loop.simps [simp del]

text \<open>
  \<^verbatim>\<open>value = -value\<close> is computed in 32 bits (\<^const>\<open>c_int\<close>): the most negative value
  stays negative.
\<close>

definition itoa :: "int \<Rightarrow> bytes \<Rightarrow> int \<Rightarrow> bytes option" where
  "itoa value str base =
     (if value = 0 then do { str1 \<leftarrow> aput str 0 48; aput str1 1 0 }
      else do {
        let is_negative = (value < 0 \<and> base = 10);
        let value' = (if is_negative then c_int (- value) else value);
        (str1, i) \<leftarrow> itoa_loop value' str 0 base;
        (str2, j) \<leftarrow> (if is_negative
                      then do { s \<leftarrow> aput str1 i 45; Some (s, Suc i) }
                      else Some (str1, i));
        str3 \<leftarrow> aput str2 j 0;
        reverse str3 (of_nat j) })"

definition uitoa :: "u32 \<Rightarrow> bytes \<Rightarrow> u32 \<Rightarrow> bytes option" where
  "uitoa value str base =
     (if value = 0 then do { str1 \<leftarrow> aput str 0 48; aput str1 1 0 }
      else do {
        (str1, i) \<leftarrow> uitoa_loop value str 0 base;
        str2 \<leftarrow> aput str1 i 0;
        reverse str2 (of_nat i) })"


section \<open>memset and memcpy: the resulting object\<close>

lemma memset_loop_ok:
  "p + n \<le> length b \<Longrightarrow>
   memset_loop b p c n = Some (take p b @ replicate n c @ drop (p + n) b)"
proof (induction n arbitrary: b p)
  case 0
  then show ?case by simp
next
  case (Suc n)
  then show ?case by (simp add: take_Suc_conv_app_nth list_update_take_drop add.commute)
qed

lemma memset_ok [c_obj]:
  "p + n \<le> length b \<Longrightarrow>
   memset b p c n = Some (take p b @ replicate n (ucast c) @ drop (p + n) b)"
  by (simp add: memset_def memset_loop_ok)

lemma memset_out: "length b < p + n \<Longrightarrow> n \<noteq> 0 \<Longrightarrow> memset b p c n = None"
proof -
  have "length b < p + n \<Longrightarrow> n \<noteq> 0 \<Longrightarrow> memset_loop b p c' n = None" for c'
  proof (induction n arbitrary: b p)
    case (Suc n)
    then show ?case
      using Suc.IH [of "b[p := c']" "Suc p"] by (cases "p < length b") (auto simp: aput_out)
  qed simp
  then show "length b < p + n \<Longrightarrow> n \<noteq> 0 \<Longrightarrow> memset b p c n = None"
    by (simp add: memset_def)
qed

lemma memcpy_loop_ok:
  "dp + n \<le> length d \<Longrightarrow> sp + n \<le> length s \<Longrightarrow>
   memcpy_loop d dp s sp n = Some (take dp d @ take n (drop sp s) @ drop (dp + n) d)"
proof (induction n arbitrary: d dp sp)
  case 0
  then show ?case by simp
next
  case (Suc n)
  then have "drop sp s = s ! sp # drop (Suc sp) s" by (simp add: Cons_nth_drop_Suc)
  with Suc show ?case
    by (simp add: take_Suc_conv_app_nth list_update_take_drop add.commute)
qed

lemma memcpy_ok [c_obj]:
  "dp + n \<le> length d \<Longrightarrow> sp + n \<le> length s \<Longrightarrow>
   memcpy d dp s sp n = Some (take dp d @ take n (drop sp s) @ drop (dp + n) d)"
  by (simp add: memcpy_def memcpy_loop_ok)

lemma memcpy_loop_Some_bounds:
  "memcpy_loop d dp s sp n = Some d' \<Longrightarrow> n \<noteq> 0 \<Longrightarrow> dp + n \<le> length d \<and> sp + n \<le> length s"
proof (induction n arbitrary: d dp sp)
  case (Suc n)
  then have b: "sp < length s" "dp < length d"
    and r: "memcpy_loop (d[dp := s ! sp]) (Suc dp) s (Suc sp) n = Some d'"
    by (auto simp: aput_Some_iff aget_Some_iff Option.bind_eq_Some_conv)
  show ?case
  proof (cases "n = 0")
    case False
    with Suc.IH [OF r] show ?thesis by simp
  qed (use b in simp)
qed simp

lemma memcpy_Some_bounds:
  "memcpy d dp s sp n = Some d' \<Longrightarrow> n = 0 \<or> (dp + n \<le> length d \<and> sp + n \<le> length s)"
  unfolding memcpy_def by (blast dest: memcpy_loop_Some_bounds)

section \<open>strlen, strcmp, strncmp, strcpy on strings\<close>

lemma strlen_loop_str_at:
  "str_at b (p + k) s \<Longrightarrow> strlen_loop b p k = Some (k + length s)"
proof (induction s arbitrary: k)
  case Nil
  then show ?case by (simp add: strlen_loop.simps [of b p k] str_at_Nil)
next
  case (Cons c s)
  then show ?case by (simp add: strlen_loop.simps [of b p k] str_at_Cons)
qed

lemma strlen_loop_Some:
  "strlen_loop b p k = Some n \<Longrightarrow> \<exists>s. str_at b (p + k) s \<and> n = k + length s"
proof (induction b p k rule: strlen_loop.induct)
  case (1 b p k)
  from "1.prems" obtain c where c: "aget b (p + k) = Some c"
    by (auto simp: strlen_loop.simps [of b p k] split: option.splits)
  show ?case
  proof (cases "c = 0")
    case True
    with "1.prems" c have "str_at b (p + k) [] \<and> n = k + length ([] :: bytes)"
      by (auto simp: strlen_loop.simps [of b p k] str_at_Nil aget_Some_iff)
    then show ?thesis by blast
  next
    case False
    with "1.prems" c have "strlen_loop b p (Suc k) = Some n"
      by (simp add: strlen_loop.simps [of b p k])
    with "1.IH" [OF c False] obtain s where "str_at b (p + Suc k) s" "n = Suc k + length s"
      by blast
    with c False have "str_at b (p + k) (c # s) \<and> n = k + length (c # s)"
      by (auto simp: str_at_Cons aget_Some_iff)
    then show ?thesis by blast
  qed
qed

lemma strlen_str_at [c_obj]: "str_at b p s \<Longrightarrow> strlen b p = Some (length s)"
  using strlen_loop_str_at [of b p 0 s] by (simp add: strlen_def)

lemma strlen_SomeD: "strlen b p = Some n \<Longrightarrow> \<exists>s. str_at b p s \<and> n = length s"
  using strlen_loop_Some [of b p 0 n] by (simp add: strlen_def)

text \<open>The byte order in which \<^verbatim>\<open>strcmp\<close> compares strings.\<close>

definition byte_less :: "(u8 \<times> u8) set" where
  "byte_less = {(a, b). uint a < uint b}"

lemma byte_nonneg: "0 \<le> uint (c :: u8) - uint (0 :: u8)" "c \<noteq> 0 \<Longrightarrow> 0 < uint (c :: u8)"
  by (auto simp: word_neq_0_conv [symmetric] unsigned_eq_0_iff less_le)

lemma strcmp_str_at:
  "str_at b1 p1 s \<Longrightarrow> str_at b2 p2 t \<Longrightarrow>
   \<exists>r. strcmp b1 p1 b2 p2 = Some r \<and> (r = 0 \<longleftrightarrow> s = t) \<and> (r < 0 \<longleftrightarrow> (s, t) \<in> lexord byte_less)"
proof (induction s arbitrary: p1 p2 t)
  case Nil
  then show ?case
    by (cases t) (auto simp: strcmp.simps [of b1 p1 b2 p2] str_at_Nil str_at_Cons
        dest: byte_nonneg(2))
next
  case (Cons c s)
  note IH = Cons.IH and prems = Cons.prems
  show ?case
  proof (cases t)
    case Nil
    with prems show ?thesis
      by (auto simp: strcmp.simps [of b1 p1 b2 p2] str_at_Nil str_at_Cons dest: byte_nonneg(2))
  next
    case t: (Cons d t')
    show ?thesis
    proof (cases "c = d")
      case True
      with IH [of "Suc p1" "Suc p2" t'] prems t have "\<exists>r. strcmp b1 (Suc p1) b2 (Suc p2) = Some r \<and> (r = 0 \<longleftrightarrow> s = t') \<and>
        (r < 0 \<longleftrightarrow> (s, t') \<in> lexord byte_less)"
        by (auto simp: str_at_Cons)
      with True t prems show ?thesis
        by (auto simp: strcmp.simps [of b1 p1 b2 p2] str_at_Cons byte_less_def)
    next
      case False
      with t prems show ?thesis
        by (auto simp: strcmp.simps [of b1 p1 b2 p2] str_at_Cons byte_less_def word_uint_eq_iff)
    qed
  qed
qed

lemma strcmp_eq_0: "str_at b1 p1 s \<Longrightarrow> str_at b2 p2 t \<Longrightarrow> strcmp b1 p1 b2 p2 = Some 0 \<longleftrightarrow> s = t"
  using strcmp_str_at by fastforce

lemma strncmp_str_at:
  "str_at b1 p1 s \<Longrightarrow> str_at b2 p2 t \<Longrightarrow>
   \<exists>r. strncmp b1 p1 b2 p2 n = Some r \<and> (r = 0 \<longleftrightarrow> take n s = take n t)"
proof (induction n arbitrary: p1 p2 s t)
  case 0
  then show ?case by simp
next
  case (Suc n)
  show ?case
  proof (cases s)
    case Nil
    with Suc.prems show ?thesis
      by (cases t) (auto simp: str_at_Nil str_at_Cons dest: byte_nonneg(2))
  next
    case s: (Cons c s')
    show ?thesis
    proof (cases t)
      case Nil
      with Suc.prems s show ?thesis
        by (auto simp: str_at_Nil str_at_Cons dest: byte_nonneg(2))
    next
      case (Cons d t')
      with Suc.IH [of "Suc p1" s' "Suc p2" t'] Suc.prems s show ?thesis
        by (cases "c = d") (auto simp: str_at_Cons word_uint_eq_iff)
    qed
  qed
qed

lemma strncmp_eq_0:
  "str_at b1 p1 s \<Longrightarrow> str_at b2 p2 t \<Longrightarrow> strncmp b1 p1 b2 p2 n = Some 0 \<longleftrightarrow> take n s = take n t"
  using strncmp_str_at by fastforce

lemma strcpy_str_at [c_obj]:
  "str_at src sp s \<Longrightarrow> dp + length s < length dest \<Longrightarrow>
   strcpy dest dp src sp = Some (take dp dest @ s @ 0 # drop (dp + length s + 1) dest)"
proof (induction s arbitrary: dest dp sp)
  case Nil
  then show ?case
    by (simp add: strcpy.simps [of dest dp src sp] str_at_Nil list_update_take_drop)
next
  case (Cons c s)
  then show ?case
    by (simp add: strcpy.simps [of dest dp src sp] str_at_Cons take_Suc_conv_app_nth
        list_update_take_drop add.commute)
qed

section \<open>reverse\<close>

lemma reverse_loop_step:
  "start < en \<Longrightarrow> unat en < length str \<Longrightarrow>
   reverse_loop str start en =
     reverse_loop (str[unat start := str ! unat en, unat en := str ! unat start]) (start + 1) (en - 1)"
  by (simp add: reverse_loop.simps [of str start en] word_less_nat_alt)

lemma reverse_loop_mid:
  assumes "m \<noteq> []" "length a + length m < 2 ^ 32"
  shows "reverse_loop (a @ m @ z) (of_nat (length a)) (of_nat (length a + length m - 1)) =
    Some (a @ rev m @ z)"
  using assms
proof (induction "length m" arbitrary: a m z rule: less_induct)
  case less
  define i j :: u32 where ij: "i = of_nat (length a)" "j = of_nat (length a + length m - 1)"
  have u: "unat i = length a" "unat j = length a + length m - 1"
    using less.prems by (auto simp: ij unat_of_nat32)
  have "reverse_loop (a @ m @ z) i j = Some (a @ rev m @ z)"
  proof (cases "length m = 1")
    case True
    with u have "\<not> i < j" by (simp add: word_less_nat_alt)
    moreover obtain x where "m = [x]" using True by (cases m) auto
    ultimately show ?thesis by (simp add: reverse_loop.simps [of _ i j])
  next
    case False
    with less.prems have len: "2 \<le> length m" by (cases m; cases "tl m") auto
    then obtain x y k where m: "m = x # k @ [y]"
      by (cases m; cases "tl m" rule: rev_cases) auto
    have lt: "i < j" using u len by (simp add: word_less_nat_alt)
    have swap: "(a @ m @ z)[length a := y, length a + length m - 1 := x] = (a @ [y]) @ k @ [x] @ z"
      by (simp add: m list_update_append)
    have ends: "(a @ m @ z) ! length a = x" "(a @ m @ z) ! (length a + length m - 1) = y"
      by (simp_all add: m nth_append)
    have "unat j < length (a @ m @ z)" using u len by simp
    from reverse_loop_step [OF lt this] swap ends
    have step: "reverse_loop (a @ m @ z) i j =
        reverse_loop ((a @ [y]) @ k @ [x] @ z) (i + 1) (j - 1)"
      by (simp only: u)
    show ?thesis
    proof (cases "k = []")
      case True
      have "\<not> i + 1 < j - 1"
        using unat_inc [OF lt] unat_dec [OF lt] u True by (simp add: m word_less_nat_alt)
      with True show ?thesis
        by (simp add: step reverse_loop.simps [of _ "i + 1" "j - 1"]) (simp add: m)
    next
      case False
      then have "i + 1 = of_nat (length (a @ [y]))"
          "j - 1 = of_nat (length (a @ [y]) + length k - 1)"
        by (cases k; simp add: ij m)+
      moreover have "reverse_loop ((a @ [y]) @ k @ [x] @ z) (of_nat (length (a @ [y])))
          (of_nat (length (a @ [y]) + length k - 1)) = Some ((a @ [y]) @ rev k @ [x] @ z)"
        by (rule less.hyps) (use less.prems False in \<open>simp_all add: m\<close>)
      ultimately have "reverse_loop (a @ m @ z) i j = Some ((a @ [y]) @ rev k @ [x] @ z)"
        by (simp only: step)
      also have "\<dots> = Some (a @ rev m @ z)" by (simp add: m)
      finally show ?thesis .
    qed
  qed
  then show ?case by (simp only: ij)
qed

lemma reverse_prefix:
  assumes "s \<noteq> []" "length s < 2 ^ 32"
  shows "reverse (s @ z) (of_nat (length s)) = Some (rev s @ z)"
proof -
  have "of_nat (length s) - 1 = (of_nat (length s - 1) :: u32)"
    using assms by (cases s) auto
  with reverse_loop_mid [OF assms(1), of "[]" z] assms(2) show ?thesis
    by (simp add: reverse_def)
qed

section \<open>Reference digit expansion\<close>

text \<open>Least significant digit first; \<open>digits\<close> is the usual reading order.\<close>

fun lsd_digits :: "nat \<Rightarrow> nat \<Rightarrow> nat list" where
  "lsd_digits b n = (if n = 0 \<or> b < 2 then [] else n mod b # lsd_digits b (n div b))"

declare lsd_digits.simps [simp del]

definition digits :: "nat \<Rightarrow> nat \<Rightarrow> nat list" where
  "digits b n = (if n = 0 then [0] else rev (lsd_digits b n))"

definition numeral_str :: "nat \<Rightarrow> nat \<Rightarrow> bytes" where
  "numeral_str b n = map (\<lambda>d. digit_char (int d)) (digits b n)"

text \<open>Reading a numeral back.\<close>

definition digit_val :: "u8 \<Rightarrow> nat" where
  "digit_val c = (if 97 \<le> c then unat c - 87 else unat c - 48)"

definition parse_digits :: "nat \<Rightarrow> bytes \<Rightarrow> nat" where
  "parse_digits b s = foldl (\<lambda>acc c. acc * b + digit_val c) 0 s"

lemma lsd_digits_0 [simp]: "lsd_digits b 0 = []"
  by (simp add: lsd_digits.simps)

lemma lsd_digits_eq: "0 < n \<Longrightarrow> 2 \<le> b \<Longrightarrow> lsd_digits b n = n mod b # lsd_digits b (n div b)"
  by (simp add: lsd_digits.simps [of b n])

lemma lsd_digits_Nil: "2 \<le> b \<Longrightarrow> lsd_digits b n = [] \<longleftrightarrow> n = 0"
  by (simp add: lsd_digits.simps [of b n])

lemma lsd_digits_less: "2 \<le> b \<Longrightarrow> d \<in> set (lsd_digits b n) \<Longrightarrow> d < b"
proof (induction b n rule: lsd_digits.induct)
  case (1 b n)
  then show ?case by (cases "n = 0") (auto simp: lsd_digits_eq)
qed

lemma lsd_digits_less16: "2 \<le> b \<Longrightarrow> b \<le> 16 \<Longrightarrow> d \<in> set (lsd_digits b n) \<Longrightarrow> d < 16"
  using lsd_digits_less less_le_trans by blast

lemma length_lsd_digits: "2 \<le> b \<Longrightarrow> n < b ^ k \<Longrightarrow> length (lsd_digits b n) \<le> k"
proof (induction k arbitrary: n)
  case 0
  then show ?case by simp
next
  case (Suc k)
  then have "n div b < b ^ k"
    by (simp add: less_mult_imp_div_less mult.commute)
  with Suc show ?case by (cases "n = 0") (auto simp: lsd_digits_eq)
qed

lemma lsd_digits_value:
  "2 \<le> b \<Longrightarrow> foldr (\<lambda>d acc. acc * b + d) (lsd_digits b n) 0 = n"
proof (induction b n rule: lsd_digits.induct)
  case (1 b n)
  then show ?case by (cases "n = 0") (simp_all add: lsd_digits_eq)
qed

lemma less_16_cases:
  "(d::nat) < 16 \<Longrightarrow> d = 0 \<or> d = 1 \<or> d = 2 \<or> d = 3 \<or> d = 4 \<or> d = 5 \<or> d = 6 \<or> d = 7 \<or>
     d = 8 \<or> d = 9 \<or> d = 10 \<or> d = 11 \<or> d = 12 \<or> d = 13 \<or> d = 14 \<or> d = 15"
  by arith

lemma digit_val_char: "d < 16 \<Longrightarrow> digit_val (digit_char (int d)) = d"
proof -
  assume "d < 16"
  from less_16_cases [OF this] show ?thesis by (auto simp: digit_val_def digit_char_def)
qed

lemma digit_char_nonzero: "d < 16 \<Longrightarrow> digit_char (int d) \<noteq> 0"
proof -
  assume "d < 16"
  from less_16_cases [OF this] show ?thesis by (auto simp: digit_char_def)
qed

lemma parse_numeral:
  assumes "2 \<le> b" "b \<le> 16"
  shows "parse_digits b (numeral_str b n) = n"
proof -
  have "foldr (\<lambda>c acc. acc * b + digit_val c) (map (\<lambda>d. digit_char (int d)) (lsd_digits b n)) 0 =
      foldr (\<lambda>d acc. acc * b + d) (lsd_digits b n) 0"
    unfolding foldr_map comp_def
    by (rule foldr_cong) (use assms lsd_digits_less in \<open>fastforce simp: digit_val_char\<close>)+
  then show ?thesis
    using assms lsd_digits_value
    by (simp add: parse_digits_def numeral_str_def digits_def foldl_conv_foldr rev_map
        digit_val_char [of 0, simplified])
qed

section \<open>uitoa and itoa print the digits\<close>

lemma uitoa_loop_digits:
  assumes "2 \<le> base" "i + length (lsd_digits (unat base) (unat v)) \<le> length str"
  shows "uitoa_loop v str i base =
    Some (take i str @ map (\<lambda>d. digit_char (int d)) (lsd_digits (unat base) (unat v)) @
          drop (i + length (lsd_digits (unat base) (unat v))) str,
          i + length (lsd_digits (unat base) (unat v)))"
  using assms(2)
proof (induction "unat v" arbitrary: v str i rule: less_induct)
  case less
  show ?case
  proof (cases "v = 0")
    case True
    then show ?thesis by (simp add: uitoa_loop.simps [of 0])
  next
    case False
    have b: "2 \<le> unat base" "base \<noteq> 0"
      using assms(1) by (auto simp: word_le_nat_alt)
    have vp: "0 < unat v" using False by (simp add: unat_gt_0)
    define q where "q = lsd_digits (unat base) (unat (v div base))"
    have eq: "lsd_digits (unat base) (unat v) = unat (v mod base) # q"
      using lsd_digits_eq [OF vp b(1)] by (simp add: q_def unat_div unat_mod)
    have "unat (v div base) < unat v"
      using vp b by (simp add: unat_div div_less_dividend)
    from less.hyps [OF this, of "Suc i" "str[i := digit_char (uint (v mod base))]"] less.prems
    have "uitoa_loop (v div base) (str[i := digit_char (uint (v mod base))]) (Suc i) base =
      Some (take (Suc i) (str[i := digit_char (uint (v mod base))]) @
            map (\<lambda>d. digit_char (int d)) q @ drop (Suc i + length q) str, Suc i + length q)"
      by (simp add: eq q_def)
    with less.prems b False show ?thesis
      by (simp add: eq uitoa_loop.simps [of v str i base] take_Suc_conv_app_nth
          add.commute)
  qed
qed

lemma itoa_loop_digits:
  assumes "2 \<le> base" "0 \<le> v" "i + length (lsd_digits (nat base) (nat v)) \<le> length str"
  shows "itoa_loop v str i base =
    Some (take i str @ map (\<lambda>d. digit_char (int d)) (lsd_digits (nat base) (nat v)) @
          drop (i + length (lsd_digits (nat base) (nat v))) str,
          i + length (lsd_digits (nat base) (nat v)))"
  using assms(2,3)
proof (induction "nat v" arbitrary: v str i rule: less_induct)
  case less
  show ?case
  proof (cases "v = 0")
    case True
    then show ?thesis by (simp add: itoa_loop.simps [of 0])
  next
    case False
    with less.prems have vp: "0 < v" by simp
    define q where "q = lsd_digits (nat base) (nat (v div base))"
    have b: "2 \<le> nat base" using assms(1) by simp
    have sd: "v sdiv base = v div base" "v smod base = v mod base"
      using vp assms(1) by (simp_all add: signed_divide_int_def signed_modulo_int_def minus_mult_div_eq_mod [symmetric] mult.commute)
    have eq: "lsd_digits (nat base) (nat v) = nat (v mod base) # q"
      using vp b assms(1) lsd_digits_eq [of "nat v" "nat base"]
      by (simp add: q_def nat_div_distrib nat_mod_distrib)
    have lt: "nat (v div base) < nat v"
      using vp assms(1) by (simp add: int_div_less_self)
    have ge: "0 \<le> v div base" using vp assms(1) by (simp add: pos_imp_zdiv_nonneg_iff)
    from less.hyps [OF lt ge, of "Suc i" "str[i := digit_char (v mod base)]"] less.prems
    have "itoa_loop (v div base) (str[i := digit_char (v mod base)]) (Suc i) base =
      Some (take (Suc i) (str[i := digit_char (v mod base)]) @
            map (\<lambda>d. digit_char (int d)) q @ drop (Suc i + length q) str, Suc i + length q)"
      by (simp add: eq q_def)
    with less.prems assms(1) False show ?thesis
      by (simp add: eq sd itoa_loop.simps [of v str i base] take_Suc_conv_app_nth add.commute)
  qed
qed

lemma numeral_str_pos:
  "0 < n \<Longrightarrow> numeral_str b n = rev (map (\<lambda>d. digit_char (int d)) (lsd_digits b n))"
  by (simp add: numeral_str_def digits_def rev_map)

lemma numeral_str_0: "numeral_str b 0 = [48]"
  by (simp add: numeral_str_def digits_def digit_char_def)

lemma length_numeral_str:
  "2 \<le> b \<Longrightarrow> n < b ^ k \<Longrightarrow> 0 < k \<Longrightarrow> length (numeral_str b n) \<le> k"
  using length_lsd_digits [of b n k] by (cases "n = 0") (simp_all add: numeral_str_pos numeral_str_0)

lemma numeral_str_nonzero: "2 \<le> b \<Longrightarrow> b \<le> 16 \<Longrightarrow> 0 \<notin> set (numeral_str b n)"
proof -
  assume b: "2 \<le> b" "b \<le> 16"
  have "digit_char (int d) \<noteq> 0" if "d \<in> set (lsd_digits b n)" for d
    by (rule digit_char_nonzero [OF lsd_digits_less16 [OF b that]])
  then show ?thesis
    by (cases "n = 0") (auto simp: numeral_str_pos numeral_str_0)
qed

lemma uitoa_numeral:
  assumes "2 \<le> base" "length (numeral_str (unat base) (unat v)) < length str" "length str < 2 ^ 32"
  shows "uitoa v str base = Some (numeral_str (unat base) (unat v) @ 0 #
    drop (length (numeral_str (unat base) (unat v)) + 1) str)"
proof (cases "v = 0")
  case True
  with assms(2) obtain x y zs where "str = x # y # zs"
    by (cases str; cases "tl str") (auto simp: numeral_str_0)
  with True show ?thesis by (simp add: uitoa_def numeral_str_0)
next
  case False
  then have vp: "0 < unat v" by (simp add: unat_gt_0)
  let ?l = "lsd_digits (unat base) (unat v)"
  let ?d = "map (\<lambda>d. digit_char (int d)) ?l"
  have b: "2 \<le> unat base" using assms(1) by (simp add: word_le_nat_alt)
  have ne: "?d \<noteq> []" using vp b by (simp add: lsd_digits_Nil)
  have len: "length ?l < length str" using assms(2) vp by (simp add: numeral_str_pos)
  have "reverse (?d @ 0 # drop (Suc (length ?l)) str) (of_nat (length ?d)) =
      Some (rev ?d @ 0 # drop (Suc (length ?l)) str)"
    by (rule reverse_prefix [OF ne]) (use len assms(3) in simp)
  moreover have "drop (length ?l) str = str ! length ?l # drop (Suc (length ?l)) str"
    using len by (simp add: Cons_nth_drop_Suc)
  ultimately show ?thesis
    using False len uitoa_loop_digits [OF assms(1), of 0 v str] vp
    by (simp add: uitoa_def numeral_str_pos list_update_append)
qed

lemma uitoa_str_at:
  assumes "2 \<le> base" "base \<le> 16" "length (numeral_str (unat base) (unat v)) < length str"
    "length str < 2 ^ 32"
  shows "\<exists>b. uitoa v str base = Some b \<and> str_at b 0 (numeral_str (unat base) (unat v))
    \<and> length b = length str"
proof -
  have "2 \<le> unat base" "unat base \<le> 16" using assms(1,2) by (simp_all add: word_le_nat_alt)
  then have "0 \<notin> set (numeral_str (unat base) (unat v))" by (rule numeral_str_nonzero)
  then show ?thesis
    using uitoa_numeral [OF assms(1,3,4)] assms(3) by (auto intro: str_at_0)
qed

text \<open>The text \<^verbatim>\<open>itoa\<close> is meant to produce in base 10.\<close>

definition int_str :: "int \<Rightarrow> bytes" where
  "int_str v = (if v < 0 then [45] else []) @ numeral_str 10 (nat \<bar>v\<bar>)"

definition parse_int :: "bytes \<Rightarrow> int" where
  "parse_int s = (case s of [] \<Rightarrow> 0
     | c # cs \<Rightarrow> if c = 45 then - int (parse_digits 10 cs) else int (parse_digits 10 s))"

lemma numeral_str_hd: "2 \<le> b \<Longrightarrow> b \<le> 16 \<Longrightarrow> 45 \<notin> set (numeral_str b n)"
proof -
  assume b: "2 \<le> b" "b \<le> 16"
  have "digit_char (int d) \<noteq> 45" if "d \<in> set (lsd_digits b n)" for d
    using less_16_cases [OF lsd_digits_less16 [OF b that]] by (auto simp: digit_char_def)
  then show ?thesis by (cases "n = 0") (auto simp: numeral_str_pos numeral_str_0)
qed

lemma numeral_str_not_Nil: "2 \<le> b \<Longrightarrow> numeral_str b n \<noteq> []"
  by (cases "n = 0") (auto simp: numeral_str_pos numeral_str_0 lsd_digits_Nil)

lemma parse_int_str: "parse_int (int_str v) = v"
proof (cases "v < 0")
  case True
  then show ?thesis by (simp add: parse_int_def int_str_def parse_numeral)
next
  case False
  obtain c cs where s: "numeral_str 10 (nat v) = c # cs"
    using numeral_str_not_Nil [of 10 "nat v"] by (cases "numeral_str 10 (nat v)") auto
  with numeral_str_hd [of 10 "nat v"] have "c \<noteq> 45" by auto
  moreover have "parse_digits 10 (c # cs) = nat v" using parse_numeral [of 10 "nat v"] s by simp
  ultimately show ?thesis using False by (simp add: parse_int_def int_str_def s)
qed

lemma itoa_int_str:
  assumes "- (2 ^ 31) < v" "v < 2 ^ 31" "length (int_str v) < length str" "length str < 2 ^ 32"
  shows "itoa v str 10 = Some (int_str v @ 0 # drop (length (int_str v) + 1) str)"
proof (cases "v = 0")
  case True
  with assms(3) obtain x y zs where "str = x # y # zs"
    by (cases str; cases "tl str") (auto simp: int_str_def numeral_str_0)
  with True show ?thesis by (simp add: itoa_def int_str_def numeral_str_0)
next
  case False
  let ?n = "nat \<bar>v\<bar>"
  let ?l = "lsd_digits 10 ?n"
  let ?d = "map (\<lambda>d. digit_char (int d)) ?l"
  let ?e = "?d @ (if v < 0 then [45] else [])"
  have n: "0 < ?n" using False by simp
  have cv: "(if v < 0 then c_int (- v) else v) = \<bar>v\<bar>" using assms by (simp add: c_int_id)
  have len: "length ?e < length str"
    using assms(3) n by (auto simp: int_str_def numeral_str_pos)
  have ne: "?d \<noteq> []" using n by (simp add: lsd_digits_Nil)
  have lp: "itoa_loop \<bar>v\<bar> str 0 10 = Some (?d @ drop (length ?l) str, length ?l)"
    using itoa_loop_digits [of 10 "\<bar>v\<bar>" 0 str] len by simp
  have rv: "reverse (?e @ 0 # drop (Suc (length ?e)) str) (of_nat (length ?e)) =
      Some (rev ?e @ 0 # drop (Suc (length ?e)) str)"
    by (rule reverse_prefix) (use ne len assms(4) in auto)
  have dr: "drop (length ?l) str = str ! length ?l # drop (Suc (length ?l)) str"
    using len by (simp add: Cons_nth_drop_Suc)
  have dr2: "drop (Suc (length ?l)) str = str ! Suc (length ?l) # drop (Suc (Suc (length ?l))) str"
    if "v < 0"
    using len that by (simp add: Cons_nth_drop_Suc)
  have res: "int_str v = rev ?e" using n by (simp add: int_str_def numeral_str_pos)
  show ?thesis
  proof (cases "v < 0")
    case True
    with cv lp rv len dr dr2 [OF True] show ?thesis
      by (simp add: itoa_def res list_update_append)
  next
    case neg: False
    with False cv lp rv len dr show ?thesis
      by (simp add: itoa_def res list_update_append)
  qed
qed

lemma int_str_nonzero: "0 \<notin> set (int_str v)"
  by (simp add: int_str_def numeral_str_nonzero)

lemma length_int_str: "\<bar>v\<bar> < 10 ^ 10 \<Longrightarrow> length (int_str v) \<le> 11"
  using length_numeral_str [of 10 "nat \<bar>v\<bar>" 10] by (auto simp: int_str_def nat_less_iff)

section \<open>Properties\<close>

text \<open>
  strcmp orders strings as their unsigned bytes do: it returns 0 exactly when the two
  strings are equal and a negative number exactly when the first is lexicographically
  smaller, and it never reads past either terminator.
\<close>

theorem strcmp_order:
  assumes "str_at b1 p1 s" and "str_at b2 p2 t"
  shows "\<exists>r. strcmp b1 p1 b2 p2 = Some r \<and> (r = 0 \<longleftrightarrow> s = t) \<and> (r < 0 \<longleftrightarrow> (s, t) \<in> lexord byte_less)"
  using assms by (rule strcmp_str_at)

theorem strcmp_order_witness:
  "\<exists>r. strcmp [108, 115, 0] 0 [7, 108, 111, 0] 1 = Some r \<and> (r = 0 \<longleftrightarrow> [108, 115] = [108, 111 :: u8])
     \<and> (r < 0 \<longleftrightarrow> ([108, 115], [108, 111]) \<in> lexord byte_less)"
  by (rule strcmp_order) (simp_all add: str_at_def)

text \<open>
  strlen returns n exactly when the object holds a NUL-terminated string of length n at
  the pointer; when no NUL follows inside the object it runs out of it (undefined behaviour).
\<close>

theorem strlen_iff: "strlen b p = Some n \<longleftrightarrow> (\<exists>s. str_at b p s \<and> length s = n)"
  using strlen_str_at strlen_SomeD by fastforce

text \<open>
  uitoa is inverted by reading the digits: in base 10 and 16, into any buffer of at least
  11 bytes, it stays inside the buffer and leaves a NUL-terminated string there whose value in
  that base is the printed number.
\<close>

theorem uitoa_roundtrip:
  assumes "base = 10 \<or> base = 16" and "11 \<le> length str" and "length str < 2 ^ 32"
  shows "\<exists>b s. uitoa v str base = Some b \<and> str_at b 0 s \<and> length b = length str
    \<and> parse_digits (unat base) s = unat v"
proof -
  have "unat v < 2 ^ 32" using unat_lt2p_u32 by simp
  then have "unat v < 10 ^ 10" "unat v < 16 ^ 10" by simp_all
  then have "length (numeral_str (unat base) (unat v)) \<le> 10"
    using assms(1) length_numeral_str [of "unat base" "unat v" 10] by auto
  with assms show ?thesis
    using uitoa_str_at [of base v str] parse_numeral [of "unat base" "unat v"] by fastforce
qed

theorem uitoa_roundtrip_witness:
  "\<exists>b s. uitoa 4294967295 (replicate 32 0) 10 = Some b \<and> str_at b 0 s
    \<and> length b = length (replicate 32 (0 :: u8)) \<and> parse_digits (unat (10 :: u32)) s = unat (4294967295 :: u32)"
  by (rule uitoa_roundtrip) simp_all

text \<open>
  (C35) itoa in base 10 prints every int except the most negative one with an optional minus
  sign and its decimal digits, NUL-terminated and inside a buffer of 12 bytes, so that reading
  the text back gives the number.
\<close>

theorem itoa_roundtrip:
  assumes "- (2 ^ 31) < v" and "v < 2 ^ 31" and "12 \<le> length str" and "length str < 2 ^ 32"
  shows "\<exists>b s. itoa v str 10 = Some b \<and> str_at b 0 s \<and> length b = length str \<and> parse_int s = v"
proof -
  have "length (int_str v) \<le> 11" using assms(1,2) by (intro length_int_str) auto
  then have l: "length (int_str v) < length str" using assms(3) by simp
  from itoa_int_str [OF assms(1,2) l assms(4)] l show ?thesis
    using parse_int_str [of v] int_str_nonzero [of v] by (auto intro: str_at_0)
qed

theorem itoa_roundtrip_witness:
  "\<exists>b s. itoa (- 2026) (replicate 32 0) 10 = Some b \<and> str_at b 0 s
    \<and> length b = length (replicate 32 (0 :: u8)) \<and> parse_int s = - 2026"
  by (rule itoa_roundtrip) simp_all

text \<open>
  The most negative int is printed wrongly: its negation wraps to itself, the digit loop
  then sees negative remainders, and the text left is minus followed by characters below the
  digits (\<^verbatim>\<open>-./,),(-*,(\<close>).
\<close>

theorem itoa_min_garbage:
  "itoa (- 2147483648) (replicate 12 0) 10 = Some (ascii ''-./,),(-*,('' @ [0])"
  by code_simp

text \<open>
  memcpy succeeds exactly when both ranges lie inside their objects (or nothing is
  copied), and then it replaces exactly the n destination bytes by the n source bytes.
\<close>

theorem memcpy_exact:
  "memcpy d dp s sp n = Some d' \<longleftrightarrow>
     (if n = 0 then d' = d
      else dp + n \<le> length d \<and> sp + n \<le> length s
        \<and> d' = take dp d @ take n (drop sp s) @ drop (dp + n) d)"
proof (cases "n = 0")
  case True
  then show ?thesis by (auto simp: memcpy_def)
next
  case False
  then show ?thesis
    using memcpy_Some_bounds [of d dp s sp n d'] memcpy_ok [of dp n d sp s] by auto
qed

end
