(* ===== verification/Bh_Vga.thy ===== *)
theory Bh_Vga
  imports Bh_Prelude
begin

text \<open>
  The VGA text driver, \<^verbatim>\<open>drivers/vga.c\<close> and \<^verbatim>\<open>drivers/vga.h\<close>. The state
  is the memory at \<^verbatim>\<open>VGA_ADDRESS\<close>, read and written at byte offsets, the cursor and the
  current colour. The abstract specification is a terminal of 25 lines of 80 cells
  (\<open>term_putc\<close>); the driver is shown to refine it, to keep the cursor on the screen
  and never to write outside the 4000 bytes of the text buffer. The locale
  \<open>char_sink\<close> is the interface through which the printing clients see the driver.
\<close>

section \<open>Constants and state\<close>

definition VGA_WIDTH :: int where [simp]: "VGA_WIDTH = 80"
definition VGA_HEIGHT :: int where [simp]: "VGA_HEIGHT = 25"

text \<open>The colour codes of \<^verbatim>\<open>vga.h\<close>.\<close>

definition VGA_BLACK :: u8 where "VGA_BLACK = 0x0"
definition VGA_BLUE :: u8 where "VGA_BLUE = 0x1"
definition VGA_GREEN :: u8 where "VGA_GREEN = 0x2"
definition VGA_CYAN :: u8 where "VGA_CYAN = 0x3"
definition VGA_RED :: u8 where "VGA_RED = 0x4"
definition VGA_MAGENTA :: u8 where "VGA_MAGENTA = 0x5"
definition VGA_BROWN :: u8 where "VGA_BROWN = 0x6"
definition VGA_LIGHT_GREY :: u8 where "VGA_LIGHT_GREY = 0x7"
definition VGA_DARK_GREY :: u8 where "VGA_DARK_GREY = 0x8"
definition VGA_LIGHT_BLUE :: u8 where "VGA_LIGHT_BLUE = 0x9"
definition VGA_LIGHT_GREEN :: u8 where "VGA_LIGHT_GREEN = 0xA"
definition VGA_LIGHT_CYAN :: u8 where "VGA_LIGHT_CYAN = 0xB"
definition VGA_LIGHT_RED :: u8 where "VGA_LIGHT_RED = 0xC"
definition VGA_LIGHT_MAGENTA :: u8 where "VGA_LIGHT_MAGENTA = 0xD"
definition VGA_YELLOW :: u8 where "VGA_YELLOW = 0xE"
definition VGA_WHITE :: u8 where "VGA_WHITE = 0xF"

lemmas vga_color_defs =
  VGA_BLACK_def VGA_BLUE_def VGA_GREEN_def VGA_CYAN_def
  VGA_RED_def VGA_MAGENTA_def VGA_BROWN_def VGA_LIGHT_GREY_def
  VGA_DARK_GREY_def VGA_LIGHT_BLUE_def VGA_LIGHT_GREEN_def VGA_LIGHT_CYAN_def
  VGA_LIGHT_RED_def VGA_LIGHT_MAGENTA_def VGA_YELLOW_def VGA_WHITE_def

record vga =
  vmem :: "int \<Rightarrow> u8"
  cursor_row :: int
  cursor_col :: int
  current_color :: u8

section \<open>Operations\<close>

definition vga_offset :: "int \<Rightarrow> int \<Rightarrow> int" where
  "vga_offset row col = (row * VGA_WIDTH + col) * 2"

text \<open>The two stores of a cell: the character at \<^verbatim>\<open>off\<close>, the attribute after it.\<close>

definition vga_cell :: "int \<Rightarrow> u8 \<Rightarrow> u8 \<Rightarrow> vga \<Rightarrow> vga" where
  "vga_cell off ch at v = v\<lparr>vmem := (vmem v)(off := ch, off + 1 := at)\<rparr>"

definition vga_scroll :: "vga \<Rightarrow> vga" where
  "vga_scroll v =
     (let v1 = for_loop 1 VGA_HEIGHT (\<lambda>row. for_loop 0 VGA_WIDTH (\<lambda>col v.
            let src = vga_offset row col; dst = vga_offset (row - 1) col
            in vga_cell dst (vmem v src) (vmem v (src + 1)) v)) v
      in for_loop 0 VGA_WIDTH (\<lambda>col v.
            vga_cell (vga_offset (VGA_HEIGHT - 1) col) 32 (current_color v) v) v1)"

definition vga_clear :: "vga \<Rightarrow> vga" where
  "vga_clear v =
     (for_loop 0 (VGA_WIDTH * VGA_HEIGHT) (\<lambda>k v. vga_cell (2 * k) 32 (current_color v) v) v)
       \<lparr>cursor_row := 0, cursor_col := 0\<rparr>"

definition vga_init :: "vga \<Rightarrow> vga" where
  "vga_init v = vga_clear (v\<lparr>current_color := push_bit 4 VGA_BLACK OR VGA_LIGHT_GREEN,
     cursor_row := 0, cursor_col := 0\<rparr>)"

definition vga_set_color :: "u8 \<Rightarrow> u8 \<Rightarrow> vga \<Rightarrow> vga" where
  "vga_set_color fg bg v = v\<lparr>current_color := push_bit 4 bg OR (fg AND 15)\<rparr>"

definition vga_set_cursor :: "int \<Rightarrow> int \<Rightarrow> vga \<Rightarrow> vga" where
  "vga_set_cursor row col v =
     (let v1 = (if row \<ge> 0 \<and> row < VGA_HEIGHT then v\<lparr>cursor_row := row\<rparr> else v)
      in if col \<ge> 0 \<and> col < VGA_WIDTH then v1\<lparr>cursor_col := col\<rparr> else v1)"

definition vga_newline :: "vga \<Rightarrow> vga" where
  "vga_newline v =
     (let v1 = v\<lparr>cursor_col := 0, cursor_row := cursor_row v + 1\<rparr>
      in if cursor_row v1 \<ge> VGA_HEIGHT
         then (vga_scroll v1)\<lparr>cursor_row := VGA_HEIGHT - 1\<rparr> else v1)"

function vga_tab_loop :: "int \<Rightarrow> vga \<Rightarrow> vga" where
  "vga_tab_loop nxt v =
     (if cursor_col v < nxt \<and> cursor_col v < VGA_WIDTH
      then vga_tab_loop nxt
        ((vga_cell (vga_offset (cursor_row v) (cursor_col v)) 32 (current_color v) v)
           \<lparr>cursor_col := cursor_col v + 1\<rparr>)
      else v)"
  by pat_completeness auto
termination
  by (relation "measure (\<lambda>(nxt, v). nat (nxt - cursor_col v))") auto

declare vga_tab_loop.simps [simp del]

definition vga_putchar :: "u8 \<Rightarrow> vga \<Rightarrow> vga" where
  "vga_putchar c v =
     (if c = 8 then
        (if cursor_col v > 0 then v\<lparr>cursor_col := cursor_col v - 1\<rparr>
         else if cursor_row v > 0
              then v\<lparr>cursor_row := cursor_row v - 1, cursor_col := VGA_WIDTH - 1\<rparr>
         else v)
      else if c = 10 then vga_newline v
      else if c = 13 then v\<lparr>cursor_col := 0\<rparr>
      else if c = 9 then
        (let v1 = vga_tab_loop ((cursor_col v + 4) AND NOT 3) v
         in if cursor_col v1 \<ge> VGA_WIDTH then vga_newline v1 else v1)
      else
        (let off = vga_offset (cursor_row v) (cursor_col v);
             v1 = (vga_cell off c (current_color v) v)\<lparr>cursor_col := cursor_col v + 1\<rparr>
         in if cursor_col v1 \<ge> VGA_WIDTH then vga_newline v1 else v1))"

text \<open>\<^verbatim>\<open>vga_print\<close> reads the string up to its NUL; running out of the object is undefined.\<close>

function vga_print_loop :: "bytes \<Rightarrow> nat \<Rightarrow> vga \<Rightarrow> vga option" where
  "vga_print_loop str i v = (case aget str i of
     None \<Rightarrow> None
   | Some c \<Rightarrow> if c \<noteq> 0 then vga_print_loop str (Suc i) (vga_putchar c v) else Some v)"
  by pat_completeness auto
termination
  by (relation "measure (\<lambda>(str, i, v). length str - i)") (auto simp: aget_Some_iff)

declare vga_print_loop.simps [simp del]

definition vga_print :: "bytes \<Rightarrow> nat \<Rightarrow> vga \<Rightarrow> vga option" where
  "vga_print str p v = vga_print_loop str p v"

definition vga_print_at :: "bytes \<Rightarrow> nat \<Rightarrow> int \<Rightarrow> int \<Rightarrow> vga \<Rightarrow> vga option" where
  "vga_print_at str p row col v = vga_print str p (vga_set_cursor row col v)"

section \<open>The memory image of each operation\<close>

lemma vga_cell_sel [simp]:
  "vmem (vga_cell off ch at v) = (vmem v)(off := ch, off + 1 := at)"
  "cursor_row (vga_cell off ch at v) = cursor_row v"
  "cursor_col (vga_cell off ch at v) = cursor_col v"
  "current_color (vga_cell off ch at v) = current_color v"
  by (simp_all add: vga_cell_def)

text \<open>One row moved up, cell by cell.\<close>

lemma scroll_row:
  assumes "1 \<le> row"
  shows "for_loop 0 VGA_WIDTH (\<lambda>col v.
            let src = vga_offset row col; dst = vga_offset (row - 1) col
            in vga_cell dst (vmem v src) (vmem v (src + 1)) v) v =
    v\<lparr>vmem := \<lambda>a. if 160 * (row - 1) \<le> a \<and> a < 160 * row then vmem v (a + 160) else vmem v a\<rparr>"
proof -
  let ?P = "\<lambda>k w. w = v\<lparr>vmem := \<lambda>a. if 160 * (row - 1) \<le> a \<and> a < 160 * (row - 1) + 2 * k
      then vmem v (a + 160) else vmem v a\<rparr>"
  have "?P 80 (for_loop 0 80 (\<lambda>col v.
            let src = vga_offset row col; dst = vga_offset (row - 1) col
            in vga_cell dst (vmem v src) (vmem v (src + 1)) v) v)"
  proof (rule for_loop_inv [where I = ?P])
    fix i w
    assume "0 \<le> (i::int)" "i < 80" "?P i w"
    then show "?P (i + 1) (let src = vga_offset row i; dst = vga_offset (row - 1) i
            in vga_cell dst (vmem w src) (vmem w (src + 1)) w)"
      by (auto simp: vga_cell_def vga_offset_def Let_def fun_eq_iff algebra_simps
          intro!: vga.equality arg_cong [where f = "vmem v"])
  qed (auto intro!: vga.equality simp: fun_eq_iff)
  then show ?thesis by simp
qed

lemma vga_scroll_eq:
  "vga_scroll v = v\<lparr>vmem := \<lambda>a. if 0 \<le> a \<and> a < 3840 then vmem v (a + 160)
     else if 3840 \<le> a \<and> a < 4000 then (if even a then 32 else current_color v) else vmem v a\<rparr>"
proof -
  let ?rows = "for_loop 1 VGA_HEIGHT (\<lambda>row. for_loop 0 VGA_WIDTH (\<lambda>col v.
            let src = vga_offset row col; dst = vga_offset (row - 1) col
            in vga_cell dst (vmem v src) (vmem v (src + 1)) v)) v"
  let ?P = "\<lambda>k w. w = v\<lparr>vmem := \<lambda>a. if 0 \<le> a \<and> a < 160 * (k - 1)
      then vmem v (a + 160) else vmem v a\<rparr>"
  have "?P 25 ?rows"
    unfolding VGA_HEIGHT_def
  proof (rule for_loop_inv [where I = ?P])
    fix i w
    assume "1 \<le> (i::int)" "i < 25" and w: "?P i w"
    then show "?P (i + 1) (for_loop 0 VGA_WIDTH (\<lambda>col v.
            let src = vga_offset i col; dst = vga_offset (i - 1) col
            in vga_cell dst (vmem v src) (vmem v (src + 1)) v) w)"
      by (subst scroll_row) (auto simp: fun_eq_iff)
  qed (auto intro!: vga.equality simp: fun_eq_iff)
  then have rows: "?rows = v\<lparr>vmem := \<lambda>a. if 0 \<le> a \<and> a < 3840 then vmem v (a + 160) else vmem v a\<rparr>"
    by simp
  let ?w = "v\<lparr>vmem := \<lambda>a. if 0 \<le> a \<and> a < 3840 then vmem v (a + 160) else vmem v a\<rparr>"
  let ?Q = "\<lambda>k w. w = v\<lparr>vmem := \<lambda>a. if 0 \<le> a \<and> a < 3840 then vmem v (a + 160)
     else if 3840 \<le> a \<and> a < 3840 + 2 * k then (if even a then 32 else current_color v)
     else vmem v a\<rparr>"
  have "?Q 80 (for_loop 0 VGA_WIDTH (\<lambda>col v.
            vga_cell (vga_offset (VGA_HEIGHT - 1) col) 32 (current_color v) v) ?w)"
    unfolding VGA_WIDTH_def
  proof (rule for_loop_inv [where I = ?Q])
    fix i w
    assume i: "0 \<le> (i::int)" "i < 80" and w: "?Q i w"
    show "?Q (i + 1) (vga_cell (vga_offset (VGA_HEIGHT - 1) i) 32 (current_color w) w)"
      unfolding w using i
      by (auto simp: vga_cell_def vga_offset_def fun_eq_iff intro!: vga.equality)
  qed (auto intro!: vga.equality simp: fun_eq_iff)
  then show ?thesis unfolding vga_scroll_def rows by (simp cong: if_cong)
qed

lemma vga_clear_eq:
  "vga_clear v = v\<lparr>vmem := \<lambda>a. if 0 \<le> a \<and> a < 4000 then (if even a then 32 else current_color v)
     else vmem v a, cursor_row := 0, cursor_col := 0\<rparr>"
proof -
  let ?Q = "\<lambda>k w. w = v\<lparr>vmem := \<lambda>a. if 0 \<le> a \<and> a < 2 * k then (if even a then 32 else current_color v)
     else vmem v a\<rparr>"
  have "?Q 2000 (for_loop 0 2000 (\<lambda>k v. vga_cell (2 * k) 32 (current_color v) v) v)"
  proof (rule for_loop_inv [where I = ?Q])
    fix i w
    assume i: "0 \<le> (i::int)" "i < 2000" and w: "?Q i w"
    show "?Q (i + 1) (vga_cell (2 * i) 32 (current_color w) w)"
      unfolding w using i by (auto simp: vga_cell_def fun_eq_iff intro!: vga.equality)
  qed (auto intro!: vga.equality simp: fun_eq_iff)
  then show ?thesis by (simp add: vga_clear_def cong: if_cong)
qed

section \<open>Specification: a terminal of 25 lines of 80 cells\<close>

record term_t =
  cells :: "(u8 \<times> u8) list list"
  trow :: nat
  tcol :: nat
  tcolor :: u8

definition term_write :: "u8 \<Rightarrow> term_t \<Rightarrow> term_t" where
  "term_write ch t = t\<lparr>cells := (cells t)[trow t := (cells t ! trow t)[tcol t := (ch, tcolor t)]],
     tcol := tcol t + 1\<rparr>"

definition term_newline :: "term_t \<Rightarrow> term_t" where
  "term_newline t = (if trow t + 1 < 25 then t\<lparr>tcol := 0, trow := trow t + 1\<rparr>
     else t\<lparr>tcol := 0, cells := tl (cells t) @ [replicate 80 (32, tcolor t)]\<rparr>)"

definition term_wrap :: "term_t \<Rightarrow> term_t" where
  "term_wrap t = (if tcol t < 80 then t else term_newline t)"

fun term_blanks :: "nat \<Rightarrow> term_t \<Rightarrow> term_t" where
  "term_blanks 0 t = t"
| "term_blanks (Suc k) t = term_blanks k (term_write 32 t)"

definition term_back :: "term_t \<Rightarrow> term_t" where
  "term_back t = (if 0 < tcol t then t\<lparr>tcol := tcol t - 1\<rparr>
     else if 0 < trow t then t\<lparr>trow := trow t - 1, tcol := 79\<rparr> else t)"

definition term_putc :: "u8 \<Rightarrow> term_t \<Rightarrow> term_t" where
  "term_putc c t =
     (if c = 8 then term_back t
      else if c = 10 then term_newline t
      else if c = 13 then t\<lparr>tcol := 0\<rparr>
      else if c = 9 then term_wrap (term_blanks (4 - tcol t mod 4) t)
      else term_wrap (term_write c t))"

section \<open>The driver refines the terminal\<close>

definition vga_cells :: "vga \<Rightarrow> (u8 \<times> u8) list list" where
  "vga_cells v = map (\<lambda>r. map (\<lambda>c. (vmem v (vga_offset (int r) (int c)),
     vmem v (vga_offset (int r) (int c) + 1))) [0..<80]) [0..<25]"

definition vga_abs :: "vga \<Rightarrow> term_t" where
  "vga_abs v = \<lparr>cells = vga_cells v, trow = nat (cursor_row v), tcol = nat (cursor_col v),
     tcolor = current_color v\<rparr>"

definition vga_ok :: "vga \<Rightarrow> bool" where
  "vga_ok v \<longleftrightarrow> 0 \<le> cursor_row v \<and> cursor_row v < VGA_HEIGHT
     \<and> 0 \<le> cursor_col v \<and> cursor_col v < VGA_WIDTH"

text \<open>Only the text buffer differs.\<close>

definition vga_frame :: "vga \<Rightarrow> vga \<Rightarrow> bool" where
  "vga_frame v w \<longleftrightarrow> (\<forall>a. a < 0 \<or> 4000 \<le> a \<longrightarrow> vmem w a = vmem v a)"

lemma vga_frame_refl [simp]: "vga_frame v v"
  by (simp add: vga_frame_def)

lemma vga_frame_trans [trans]: "vga_frame u v \<Longrightarrow> vga_frame v w \<Longrightarrow> vga_frame u w"
  by (simp add: vga_frame_def)

lemma vga_cells_nth:
  "r < 25 \<Longrightarrow> c < 80 \<Longrightarrow> vga_cells v ! r ! c =
     (vmem v (vga_offset (int r) (int c)), vmem v (vga_offset (int r) (int c) + 1))"
  by (simp add: vga_cells_def)

lemma length_vga_cells [simp]: "length (vga_cells v) = 25"
  by (simp add: vga_cells_def)

lemma length_vga_cells_row [simp]: "r < 25 \<Longrightarrow> length (vga_cells v ! r) = 80"
  by (simp add: vga_cells_def)

lemma cells_eqI:
  assumes "length xs = 25" "length ys = 25"
    "\<And>r. r < 25 \<Longrightarrow> length (xs ! r) = 80" "\<And>r. r < 25 \<Longrightarrow> length (ys ! r) = 80"
    "\<And>r c. r < 25 \<Longrightarrow> c < 80 \<Longrightarrow> xs ! r ! c = ys ! r ! c"
  shows "xs = ys"
  using assms by (intro nth_equalityI) auto

lemma vga_cells_cong: "vmem v = vmem w \<Longrightarrow> vga_cells v = vga_cells w"
  by (simp add: vga_cells_def)

lemma vga_cells_write:
  assumes "r < 25" "c < 80"
  shows "vga_cells (vga_cell (vga_offset (int r) (int c)) ch at v) =
    (vga_cells v)[r := (vga_cells v ! r)[c := (ch, at)]]"
proof (rule cells_eqI)
  fix r' c' :: nat
  assume "r' < 25" "c' < 80"
  with assms show "vga_cells (vga_cell (vga_offset (int r) (int c)) ch at v) ! r' ! c' =
      (vga_cells v)[r := (vga_cells v ! r)[c := (ch, at)]] ! r' ! c'"
    by (auto simp: vga_cells_nth nth_list_update vga_offset_def; presburger)
qed (use assms in \<open>auto simp: nth_list_update\<close>)

lemma vga_cells_scroll:
  "vga_cells (vga_scroll v) = tl (vga_cells v) @ [replicate 80 (32, current_color v)]"
proof (rule cells_eqI)
  fix r c :: nat
  assume "r < 25" "c < 80"
  then show "vga_cells (vga_scroll v) ! r ! c =
      (tl (vga_cells v) @ [replicate 80 (32, current_color v)]) ! r ! c"
    by (cases "r = 24")
      (auto simp: vga_cells_nth nth_append nth_tl vga_scroll_eq vga_offset_def algebra_simps)
qed (auto simp: nth_append nth_tl)

lemma vga_scroll_sel [simp]:
  "cursor_row (vga_scroll v) = cursor_row v" "cursor_col (vga_scroll v) = cursor_col v"
  "current_color (vga_scroll v) = current_color v"
  by (simp_all add: vga_scroll_eq)

lemma vga_frame_scroll: "vga_frame v (vga_scroll v)"
  by (auto simp: vga_frame_def vga_scroll_eq)

lemma vga_frame_upd [simp]:
  "vga_frame v (w\<lparr>cursor_row := r\<rparr>) = vga_frame v w"
  "vga_frame v (w\<lparr>cursor_col := c\<rparr>) = vga_frame v w"
  "vga_frame v (w\<lparr>current_color := k\<rparr>) = vga_frame v w"
  "vga_frame (v\<lparr>cursor_row := r\<rparr>) w = vga_frame v w"
  "vga_frame (v\<lparr>cursor_col := c\<rparr>) w = vga_frame v w"
  "vga_frame (v\<lparr>current_color := k\<rparr>) w = vga_frame v w"
  by (simp_all add: vga_frame_def)

lemma vga_cells_upd [simp]:
  "vga_cells (v\<lparr>cursor_row := r\<rparr>) = vga_cells v"
  "vga_cells (v\<lparr>cursor_col := c\<rparr>) = vga_cells v"
  "vga_cells (v\<lparr>current_color := k\<rparr>) = vga_cells v"
  by (simp_all add: vga_cells_def)

lemma vga_scroll_upd:
  "vga_cells (vga_scroll (v\<lparr>cursor_col := c, cursor_row := r\<rparr>)) = vga_cells (vga_scroll v)"
  by (simp add: vga_cells_scroll)

text \<open>
  The cursor may stand one past the last column between the store of a cell and the wrap.
\<close>

definition vga_ok1 :: "vga \<Rightarrow> bool" where
  "vga_ok1 v \<longleftrightarrow> 0 \<le> cursor_row v \<and> cursor_row v < VGA_HEIGHT
     \<and> 0 \<le> cursor_col v \<and> cursor_col v \<le> VGA_WIDTH"

lemma vga_ok_ok1: "vga_ok v \<Longrightarrow> vga_ok1 v"
  by (simp add: vga_ok_def vga_ok1_def)

lemma vga_newline_refines:
  assumes "vga_ok1 v"
  shows "vga_ok (vga_newline v)" "vga_abs (vga_newline v) = term_newline (vga_abs v)"
    "vga_frame v (vga_newline v)"
proof -
  show "vga_ok (vga_newline v)" using assms by (auto simp: vga_newline_def Let_def vga_ok_def vga_ok1_def)
  show "vga_frame v (vga_newline v)"
    using vga_frame_scroll [of "v\<lparr>cursor_col := 0, cursor_row := cursor_row v + 1\<rparr>"]
    by (auto simp: vga_newline_def Let_def)
  have "nat (cursor_row v + 1) = nat (cursor_row v) + 1"
    using assms by (simp add: vga_ok1_def nat_add_distrib)
  then show "vga_abs (vga_newline v) = term_newline (vga_abs v)"
    using assms
    by (auto simp: vga_newline_def Let_def vga_abs_def term_newline_def vga_ok1_def vga_cells_scroll)
qed

definition vga_store :: "u8 \<Rightarrow> vga \<Rightarrow> vga" where
  "vga_store c v = (vga_cell (vga_offset (cursor_row v) (cursor_col v)) c (current_color v) v)
     \<lparr>cursor_col := cursor_col v + 1\<rparr>"

lemma vga_store_refines:
  assumes "vga_ok v"
  shows "vga_ok1 (vga_store c v)" "vga_abs (vga_store c v) = term_write c (vga_abs v)"
    "vga_frame v (vga_store c v)" "cursor_col (vga_store c v) = cursor_col v + 1"
    "cursor_row (vga_store c v) = cursor_row v"
proof -
  show "vga_ok1 (vga_store c v)" using assms by (auto simp: vga_store_def vga_ok_def vga_ok1_def)
  show "vga_frame v (vga_store c v)"
    using assms by (auto simp: vga_frame_def vga_store_def vga_ok_def vga_offset_def)
  have "vga_cells (vga_cell (vga_offset (cursor_row v) (cursor_col v)) c (current_color v) v) =
      (vga_cells v)[nat (cursor_row v) := (vga_cells v ! nat (cursor_row v))
        [nat (cursor_col v) := (c, current_color v)]]"
    using vga_cells_write [of "nat (cursor_row v)" "nat (cursor_col v)" c "current_color v" v] assms
    by (simp add: vga_ok_def nat_less_iff)
  then show "vga_abs (vga_store c v) = term_write c (vga_abs v)"
    using assms by (simp add: vga_store_def vga_abs_def term_write_def vga_ok_def nat_add_distrib)
qed (simp_all add: vga_store_def)

lemma vga_wrap_refines:
  assumes "vga_ok1 v"
  defines "w \<equiv> if cursor_col v \<ge> VGA_WIDTH then vga_newline v else v"
  shows "vga_ok w" "vga_abs w = term_wrap (vga_abs v)" "vga_frame v w"
  using assms vga_newline_refines [OF assms(1)]
  by (auto simp: w_def term_wrap_def vga_abs_def [of v] vga_ok_def vga_ok1_def)

lemma vga_tab_loop_refines:
  assumes "vga_ok1 v" "cursor_col v + int k = nxt" "nxt \<le> VGA_WIDTH"
  shows "vga_ok1 (vga_tab_loop nxt v) \<and> vga_abs (vga_tab_loop nxt v) = term_blanks k (vga_abs v)
    \<and> vga_frame v (vga_tab_loop nxt v)"
  using assms(1,2)
proof (induction k arbitrary: v)
  case 0
  then show ?case by (simp add: vga_tab_loop.simps [of nxt v])
next
  case (Suc k)
  then have ok: "vga_ok v" using assms(3) by (simp add: vga_ok_def vga_ok1_def)
  note st = vga_store_refines [OF ok, of 32]
  have "vga_tab_loop nxt v = vga_tab_loop nxt (vga_store 32 v)"
    using Suc.prems(2) assms(3) by (simp add: vga_tab_loop.simps [of nxt v] vga_store_def)
  with Suc.IH [OF st(1)] Suc.prems(2) st(2,3,4) show ?case
    using vga_frame_trans by auto
qed

lemma and_not_3: "(x :: int) AND NOT 3 = 4 * (x div 4)"
proof -
  have "NOT (3 :: int) = NOT (mask 2)" by (simp add: mask_eq_exp_minus_1)
  moreover have "x AND NOT (mask 2) = push_bit 2 (drop_bit 2 x)"
    by (rule bit_eqI) (auto simp: bit_simps not_less dest!: le_Suc_ex)
  ultimately show ?thesis by (simp add: push_bit_eq_mult drop_bit_eq_div)
qed

lemma tab_width:
  assumes "0 \<le> (x :: int)" "x < 80"
  shows "x + int (4 - nat x mod 4) = (x + 4) AND NOT 3" "(x + 4) AND NOT 3 \<le> 80"
proof -
  obtain n where "x = int n" using assms(1) nonneg_int_cases by blast
  with assms show "x + int (4 - nat x mod 4) = (x + 4) AND NOT 3" "(x + 4) AND NOT 3 \<le> 80"
    unfolding and_not_3 by (simp_all add: of_nat_diff) presburger+
qed

lemma vga_putchar_refines:
  assumes "vga_ok v"
  shows "vga_ok (vga_putchar c v) \<and> vga_abs (vga_putchar c v) = term_putc c (vga_abs v)
    \<and> vga_frame v (vga_putchar c v)"
proof -
  consider "c = 8" | "c = 10" | "c = 13" | "c = 9" | "c \<notin> {8, 9, 10, 13}" by auto
  then show ?thesis
  proof cases
    case 1
    with assms show ?thesis
      by (auto simp: vga_putchar_def term_putc_def term_back_def vga_abs_def vga_ok_def nat_diff_distrib)
  next
    case 2
    with vga_newline_refines [OF vga_ok_ok1 [OF assms]] show ?thesis
      by (simp add: vga_putchar_def term_putc_def)
  next
    case 3
    with assms show ?thesis by (simp add: vga_putchar_def term_putc_def vga_abs_def vga_ok_def)
  next
    case 4
    let ?n = "(cursor_col v + 4) AND NOT 3" and ?k = "4 - nat (cursor_col v) mod 4"
    have n: "cursor_col v + int ?k = ?n" "?n \<le> VGA_WIDTH"
      using assms tab_width [of "cursor_col v"] by (auto simp: vga_ok_def)
    note tl = vga_tab_loop_refines [OF vga_ok_ok1 [OF assms] n]
    from tl vga_wrap_refines [of "vga_tab_loop ?n v"] 4 show ?thesis
      by (auto simp: vga_putchar_def term_putc_def Let_def vga_abs_def [of v] intro: vga_frame_trans)
  next
    case 5
    then have "vga_putchar c v = (if cursor_col (vga_store c v) \<ge> VGA_WIDTH
        then vga_newline (vga_store c v) else vga_store c v)"
      by (simp add: vga_putchar_def vga_store_def)
    with vga_wrap_refines [OF vga_store_refines(1) [OF assms], of c] vga_store_refines [OF assms, of c] 5
    show ?thesis by (auto simp: term_putc_def intro: vga_frame_trans)
  qed
qed

section \<open>The interface of the printing clients\<close>

text \<open>
  What \<^verbatim>\<open>printf\<close>, the keyboard echo and the handlers need of the driver: a
  character operation that keeps an invariant, refines an abstract one and stays inside
  a frame. The client lemmas lift each law to a sequence of characters.
\<close>

locale char_sink =
  fixes putc :: "u8 \<Rightarrow> 's \<Rightarrow> 's"
    and view :: "'s \<Rightarrow> 'a"
    and aputc :: "u8 \<Rightarrow> 'a \<Rightarrow> 'a"
    and ok :: "'s \<Rightarrow> bool"
    and frame :: "'s \<Rightarrow> 's \<Rightarrow> bool"
  assumes putc_ok: "ok s \<Longrightarrow> ok (putc c s)"
    and putc_view: "ok s \<Longrightarrow> view (putc c s) = aputc c (view s)"
    and putc_frame: "ok s \<Longrightarrow> frame s (putc c s)"
    and frame_refl: "frame s s"
    and frame_trans: "frame s t \<Longrightarrow> frame t u \<Longrightarrow> frame s u"
begin

lemma puts_ok: "ok s \<Longrightarrow> ok (fold putc cs s)"
  by (induction cs arbitrary: s) (auto intro: putc_ok)

lemma puts_view: "ok s \<Longrightarrow> view (fold putc cs s) = fold aputc cs (view s)"
  by (induction cs arbitrary: s) (auto simp: putc_view putc_ok)

lemma puts_frame: "ok s \<Longrightarrow> frame s (fold putc cs s)"
proof (induction cs arbitrary: s)
  case Nil
  then show ?case by (simp add: frame_refl)
next
  case (Cons c cs)
  then have "frame (putc c s) (fold putc cs (putc c s))" by (simp add: putc_ok)
  with Cons.prems show ?case by (simp add: frame_trans [OF putc_frame])
qed

lemmas puts_refines = puts_ok puts_view puts_frame

end

interpretation con: char_sink vga_putchar vga_abs term_putc vga_ok vga_frame
  by unfold_locales (auto simp: vga_putchar_refines intro: vga_frame_trans)

lemma vga_print_loop_str_at:
  "str_at b p s \<Longrightarrow> vga_print_loop b p v = Some (fold vga_putchar s v)"
proof (induction s arbitrary: p v)
  case Nil
  then show ?case by (simp add: vga_print_loop.simps [of b p v] str_at_Nil)
next
  case (Cons c s)
  then show ?case by (simp add: vga_print_loop.simps [of b p v] str_at_Cons)
qed

lemma vga_print_str_at [c_obj]: "str_at b p s \<Longrightarrow> vga_print b p v = Some (fold vga_putchar s v)"
  by (simp add: vga_print_def vga_print_loop_str_at)

lemma vga_clear_ok: "vga_ok (vga_clear v)" "vga_frame v (vga_clear v)"
  by (auto simp: vga_clear_eq vga_ok_def vga_frame_def)

lemma vga_set_color_sel [simp]:
  "vga_ok (vga_set_color fg bg v) = vga_ok v" "vga_frame w (vga_set_color fg bg v) = vga_frame w v"
  "vga_cells (vga_set_color fg bg v) = vga_cells v"
  by (simp_all add: vga_set_color_def vga_ok_def)

lemma vga_abs_set_color:
  "vga_abs (vga_set_color fg bg v) = (vga_abs v)\<lparr>tcolor := push_bit 4 bg OR (fg AND 15)\<rparr>"
  by (simp add: vga_abs_def vga_set_color_def)

section \<open>Properties\<close>

text \<open>
  (C25) Every character, the control characters, the wrap at column 80 and the scroll at line
  25 included, leaves the cursor on the screen, changes the screen as the 25 by 80 terminal
  specification says, and writes no byte outside the 4000-byte text buffer.
\<close>

theorem vga_putchar_refinement:
  assumes "vga_ok v"
  shows "vga_ok (vga_putchar c v) \<and> vga_abs (vga_putchar c v) = term_putc c (vga_abs v)
    \<and> vga_frame v (vga_putchar c v)"
  using assms con.putc_ok con.putc_view con.putc_frame by blast

theorem vga_putchar_refinement_witness:
  "vga_ok (vga_putchar 65 (vga_init \<lparr>vmem = \<lambda>_. 7, cursor_row = 30, cursor_col = -1, current_color = 0\<rparr>))
   \<and> vga_frame (vga_init \<lparr>vmem = \<lambda>_. 7, cursor_row = 30, cursor_col = -1, current_color = 0\<rparr>)
      (vga_putchar 65 (vga_init \<lparr>vmem = \<lambda>_. 7, cursor_row = 30, cursor_col = -1, current_color = 0\<rparr>))"
  using vga_putchar_refinement [of "vga_init \<lparr>vmem = \<lambda>_. 7, cursor_row = 30, cursor_col = -1, current_color = 0\<rparr>" 65]
  by (simp add: vga_init_def vga_clear_ok)

text \<open>
  vga_init leaves a blank light-green-on-black screen with the cursor at the top left,
  whatever the memory, the cursor and the colour were before, and touches only the buffer.
\<close>

theorem vga_init_blank:
  "vga_abs (vga_init v) = \<lparr>cells = replicate 25 (replicate 80 (32, 10)), trow = 0, tcol = 0, tcolor = 10\<rparr>
   \<and> vga_ok (vga_init v) \<and> vga_frame v (vga_init v)"
proof -
  have "vga_cells (vga_init v) = replicate 25 (replicate 80 (32, 10))"
  proof (rule cells_eqI)
    fix r c :: nat
    assume "r < 25" "c < 80"
    then show "vga_cells (vga_init v) ! r ! c = replicate 25 (replicate 80 (32, 10)) ! r ! c"
      by (simp add: vga_cells_nth vga_init_def vga_clear_eq vga_offset_def vga_color_defs)
  qed simp_all
  moreover have "vga_ok (vga_init v)" "vga_frame v (vga_init v)"
    using vga_clear_ok [of "v\<lparr>current_color := push_bit 4 VGA_BLACK OR VGA_LIGHT_GREEN,
      cursor_row := 0, cursor_col := 0\<rparr>"] by (simp_all add: vga_init_def)
  ultimately show ?thesis by (simp add: vga_abs_def) (simp add: vga_init_def vga_clear_eq vga_color_defs)
qed

text \<open>
  Printing a NUL-terminated string at a position is the terminal printing its characters
  from there; a row or a column off the screen leaves that coordinate of the cursor where it was.
\<close>

theorem vga_print_at_refinement:
  assumes "vga_ok v" and "str_at b p s"
  shows "\<exists>w. vga_print_at b p row col v = Some w \<and> vga_ok w \<and> vga_frame v w \<and>
    vga_abs w = fold term_putc s ((vga_abs v)
      \<lparr>trow := (if 0 \<le> row \<and> row < 25 then nat row else trow (vga_abs v)),
       tcol := (if 0 \<le> col \<and> col < 80 then nat col else tcol (vga_abs v))\<rparr>)"
proof -
  let ?v = "vga_set_cursor row col v"
  have ok: "vga_ok ?v" and fr: "vga_frame v ?v" and
    ab: "vga_abs ?v = (vga_abs v)\<lparr>trow := (if 0 \<le> row \<and> row < 25 then nat row else trow (vga_abs v)),
       tcol := (if 0 \<le> col \<and> col < 80 then nat col else tcol (vga_abs v))\<rparr>"
    using assms(1) by (auto simp: vga_set_cursor_def vga_ok_def vga_abs_def Let_def)
  from con.puts_refines [OF ok, of s] fr ab assms(2) show ?thesis
    by (auto simp: vga_print_at_def c_obj intro: vga_frame_trans)
qed

theorem vga_print_at_refinement_witness:
  "\<exists>w. vga_print_at (lit ''OK'') 0 24 90 (vga_init \<lparr>vmem = \<lambda>_. 0, cursor_row = 0, cursor_col = 0, current_color = 0\<rparr>) = Some w
     \<and> vga_ok w"
  using vga_print_at_refinement [of "vga_init \<lparr>vmem = \<lambda>_. 0, cursor_row = 0, cursor_col = 0, current_color = 0\<rparr>"
      "lit ''OK''" 0 "ascii ''OK''" 24 90]
  by (auto simp: vga_init_def vga_clear_ok str_at_def lit_def ascii_def)

end
