(* ===== verification/Bh_Stdio.thy ===== *)
theory Bh_Stdio
  imports Bh_String Bh_Vga
begin

text \<open>
  Formatted output, \<^verbatim>\<open>libc/stdio.c\<close>. A variadic argument is one 32-bit word: an
  integer, or a pointer with the object it points to. Consuming an argument that was not
  passed, reading past the format or past a string is the value \<^const>\<open>None\<close>.
  \<open>render\<close> is the reference semantics of a format string; \<open>printf\<close> is shown to
  print exactly the rendered text and to return its length.
\<close>

section \<open>putchar, puts\<close>

definition putchar :: "u32 \<Rightarrow> vga \<Rightarrow> u32 \<times> vga" where
  "putchar c v = (c, vga_putchar (ucast c) v)"

definition puts :: "bytes \<Rightarrow> nat \<Rightarrow> vga \<Rightarrow> (u32 \<times> vga) option" where
  "puts str p v = do { v1 \<leftarrow> vga_print str p v; Some (0, vga_putchar 10 v1) }"

section \<open>printf\<close>

datatype arg = Arg_int u32 | Arg_ptr u32 bytes

fun arg_word :: "arg \<Rightarrow> u32" where
  "arg_word (Arg_int w) = w"
| "arg_word (Arg_ptr a _) = a"

text \<open>The object a \<^verbatim>\<open>%s\<close> argument points to, after the null check.\<close>

fun arg_str :: "arg \<Rightarrow> bytes option" where
  "arg_str (Arg_int w) = (if w = 0 then Some (lit ''(null)'') else None)"
| "arg_str (Arg_ptr a obj) = (if a = 0 then Some (lit ''(null)'') else Some obj)"

text \<open>The switch on the conversion character: arguments left, characters written, screen.\<close>

definition printf_conv ::
  "u8 \<Rightarrow> arg list \<Rightarrow> u32 \<Rightarrow> vga \<Rightarrow> (arg list \<times> u32 \<times> vga) option" where
  "printf_conv d args n v =
     (if d = 115 then \<comment> \<open>s\<close>
        (case args of [] \<Rightarrow> None | a # args' \<Rightarrow> do {
           str \<leftarrow> arg_str a;
           v1 \<leftarrow> vga_print str 0 v;
           l \<leftarrow> strlen str 0;
           Some (args', n + of_nat l, v1) })
      else if d = 99 then \<comment> \<open>c\<close>
        (case args of [] \<Rightarrow> None | a # args' \<Rightarrow>
           Some (args', n + 1, vga_putchar (ucast (arg_word a)) v))
      else if d = 100 \<or> d = 105 then \<comment> \<open>d, i\<close>
        (case args of [] \<Rightarrow> None | a # args' \<Rightarrow> do {
           buf \<leftarrow> itoa (sint (arg_word a)) (replicate 32 0) 10;
           v1 \<leftarrow> vga_print buf 0 v;
           l \<leftarrow> strlen buf 0;
           Some (args', n + of_nat l, v1) })
      else if d = 117 then \<comment> \<open>u\<close>
        (case args of [] \<Rightarrow> None | a # args' \<Rightarrow> do {
           buf \<leftarrow> uitoa (arg_word a) (replicate 32 0) 10;
           v1 \<leftarrow> vga_print buf 0 v;
           l \<leftarrow> strlen buf 0;
           Some (args', n + of_nat l, v1) })
      else if d = 120 \<or> d = 88 then \<comment> \<open>x, X\<close>
        (case args of [] \<Rightarrow> None | a # args' \<Rightarrow> do {
           buf \<leftarrow> uitoa (arg_word a) (replicate 32 0) 16;
           v1 \<leftarrow> vga_print (lit ''0x'') 0 v;
           v2 \<leftarrow> vga_print buf 0 v1;
           l \<leftarrow> strlen buf 0;
           Some (args', n + (2 + of_nat l), v2) })
      else if d = 37 then Some (args, n + 1, vga_putchar 37 v)
      else Some (args, n + 2, vga_putchar d (vga_putchar 37 v)))"

function printf_loop :: "bytes \<Rightarrow> nat \<Rightarrow> arg list \<Rightarrow> u32 \<Rightarrow> vga \<Rightarrow> (u32 \<times> vga) option" where
  "printf_loop format i args n v = (case aget format i of
     None \<Rightarrow> None
   | Some c \<Rightarrow>
       if c = 0 then Some (n, v)
       else if c = 37 then (case aget format (Suc i) of
           None \<Rightarrow> None
         | Some d \<Rightarrow> (case printf_conv d args n v of
             None \<Rightarrow> None
           | Some (args', n', v') \<Rightarrow> printf_loop format (Suc (Suc i)) args' n' v'))
       else printf_loop format (Suc i) args (n + 1) (vga_putchar c v))"
  by pat_completeness auto
termination
  by (relation "measure (\<lambda>(format, i, args, n, v). length format - i)") (auto simp: aget_Some_iff)

declare printf_loop.simps [simp del]

definition printf :: "bytes \<Rightarrow> arg list \<Rightarrow> vga \<Rightarrow> (u32 \<times> vga) option" where
  "printf format args v = printf_loop format 0 args 0 v"

section \<open>Specification: the text a format denotes\<close>

text \<open>The C string at the start of an object.\<close>

definition cstring :: "bytes \<Rightarrow> bytes option" where
  "cstring b = (if 0 \<in> set b then Some (takeWhile (\<lambda>c. c \<noteq> 0) b) else None)"

text \<open>What \<^verbatim>\<open>%d\<close> prints, the most negative value included.\<close>

definition int_text :: "int \<Rightarrow> bytes" where
  "int_text v = (if v = - (2 ^ 31) then ascii ''-./,),(-*,('' else int_str v)"

definition render_conv :: "u8 \<Rightarrow> arg list \<Rightarrow> (bytes \<times> arg list) option" where
  "render_conv d args =
     (if d = 115 then (case args of [] \<Rightarrow> None | a # as \<Rightarrow>
         do { obj \<leftarrow> arg_str a; s \<leftarrow> cstring obj; Some (s, as) })
      else if d = 99 then (case args of [] \<Rightarrow> None | a # as \<Rightarrow> Some ([ucast (arg_word a)], as))
      else if d = 100 \<or> d = 105 then (case args of [] \<Rightarrow> None | a # as \<Rightarrow>
         Some (int_text (sint (arg_word a)), as))
      else if d = 117 then (case args of [] \<Rightarrow> None | a # as \<Rightarrow>
         Some (numeral_str 10 (unat (arg_word a)), as))
      else if d = 120 \<or> d = 88 then (case args of [] \<Rightarrow> None | a # as \<Rightarrow>
         Some (ascii ''0x'' @ numeral_str 16 (unat (arg_word a)), as))
      else if d = 37 then Some ([37], args)
      else Some ([37, d], args))"

fun render :: "bytes \<Rightarrow> arg list \<Rightarrow> bytes option" where
  "render [] args = Some []"
| "render (c # cs) args =
     (if c \<noteq> 37 then map_option ((#) c) (render cs args)
      else (case cs of [] \<Rightarrow> None
        | d # ds \<Rightarrow> (case render_conv d args of None \<Rightarrow> None
            | Some (s, args') \<Rightarrow> map_option ((@) s) (render ds args'))))"

section \<open>printf prints what the format denotes\<close>

lemma cstring_append: "0 \<notin> set s \<Longrightarrow> cstring (s @ 0 # r) = Some s"
  by (induction s) (auto simp: cstring_def)

lemma str_at_0_split: "str_at b 0 s \<Longrightarrow> b = s @ 0 # drop (Suc (length s)) b"
  using id_take_nth_drop [of "length s" b] by (simp add: str_at_def)

lemma cstring_str_at: "cstring b = Some s \<longleftrightarrow> str_at b 0 s"
proof
  assume s: "cstring b = Some s"
  then have "0 \<in> set b" by (auto simp: cstring_def split: if_splits)
  then obtain ys zs where b: "b = ys @ 0 # zs" "0 \<notin> set ys" by (meson split_list_first)
  with s have "s = ys" by (simp add: cstring_append)
  with b show "str_at b 0 s" by (simp add: str_at_0)
next
  assume "str_at b 0 s"
  then have "b = s @ 0 # drop (Suc (length s)) b" "0 \<notin> set s"
    by (rule str_at_0_split) (use \<open>str_at b 0 s\<close> in \<open>simp add: str_at_def\<close>)
  then show "cstring b = Some s" using cstring_append by metis
qed

lemma cstring_None: "cstring b = None \<Longrightarrow> strlen b 0 = None"
  by (metis cstring_str_at not_Some_eq strlen_SomeD)

lemma print_strlen:
  "do { v1 \<leftarrow> vga_print b 0 v; l \<leftarrow> strlen b 0; f v1 l } =
   (case cstring b of None \<Rightarrow> None | Some s \<Rightarrow> f (fold vga_putchar s v) (length s))"
proof (cases "cstring b")
  case None
  from cstring_None [OF this] None show ?thesis by (cases "vga_print b 0 v") simp_all
next
  case (Some s)
  then have "str_at b 0 s" by (simp add: cstring_str_at)
  with Some show ?thesis by (simp add: c_obj)
qed

lemma sint32_bounds: "- (2 ^ 31) \<le> sint (w :: u32)" "sint (w :: u32) < 2 ^ 31"
  using sint_range_size [of w] by (simp_all add: word_size)

lemma itoa_int_text:
  "\<exists>b. itoa (sint (w :: u32)) (replicate 32 0) 10 = Some b \<and> cstring b = Some (int_text (sint w))"
proof (cases "sint w = - (2 ^ 31)")
  case True
  have "itoa (- 2147483648) (replicate 32 0) 10 =
      Some (ascii ''-./,),(-*,('' @ 0 # replicate 20 0)"
    by code_simp
  moreover have "cstring (ascii ''-./,),(-*,('' @ 0 # replicate 20 0) = Some (ascii ''-./,),(-*,('')"
    by code_simp
  ultimately show ?thesis using True by (simp add: int_text_def)
next
  case False
  with sint32_bounds [of w] have b: "- (2 ^ 31) < sint w" "sint w < 2 ^ 31" by auto
  then have "length (int_str (sint w)) \<le> 11" by (intro length_int_str) auto
  with itoa_int_str [OF b, of "replicate 32 0"] False int_str_nonzero [of "sint w"] show ?thesis
    by (auto simp: int_text_def cstring_str_at)
qed

lemma uitoa_text:
  assumes "base = 10 \<or> base = 16"
  shows "\<exists>b. uitoa w (replicate 32 0) base = Some b \<and> cstring b = Some (numeral_str (unat base) (unat w))"
proof -
  have "unat w < 2 ^ 32" using unat_lt2p_u32 by simp
  then have "unat w < 10 ^ 10" "unat w < 16 ^ 10" by simp_all
  then have "length (numeral_str (unat base) (unat w)) \<le> 10"
    using assms length_numeral_str [of "unat base" "unat w" 10] by auto
  then show ?thesis
    using assms uitoa_str_at [of base w "replicate 32 0"] by (auto simp: cstring_str_at)
qed

lemma printf_conv_render:
  "printf_conv d args n v = (case render_conv d args of None \<Rightarrow> None
     | Some (s, args') \<Rightarrow> Some (args', n + of_nat (length s), fold vga_putchar s v))"
proof (cases args)
  case Nil
  then show ?thesis by (simp add: printf_conv_def render_conv_def)
next
  case (Cons a as)
  obtain bi where bi: "itoa (sint (arg_word a)) (replicate 32 0) 10 = Some bi"
    "cstring bi = Some (int_text (sint (arg_word a)))" using itoa_int_text by blast
  obtain bu where bu: "uitoa (arg_word a) (replicate 32 0) 10 = Some bu"
    "cstring bu = Some (numeral_str 10 (unat (arg_word a)))" using uitoa_text [of 10] by auto
  obtain bx where bx: "uitoa (arg_word a) (replicate 32 0) 16 = Some bx"
    "cstring bx = Some (numeral_str 16 (unat (arg_word a)))" using uitoa_text [of 16] by auto
  have x: "vga_print (lit ''0x'') 0 v = Some (fold vga_putchar (ascii ''0x'') v)"
    by (rule vga_print_str_at) (simp add: str_at_def lit_def ascii_def)
  show ?thesis
    by (cases "arg_str a"; cases "cstring (the (arg_str a))")
      (simp_all add: printf_conv_def render_conv_def Cons bi bu bx x print_strlen ascii_def add.assoc)
qed

lemma printf_loop_render:
  "0 \<notin> set f \<Longrightarrow>
   printf_loop (pre @ f @ [0]) (length pre) args n v = (case render f args of None \<Rightarrow> None
     | Some s \<Rightarrow> Some (n + of_nat (length s), fold vga_putchar s v))"
proof (induction f args arbitrary: pre n v rule: render.induct)
  case (1 args)
  then show ?case by (simp add: printf_loop.simps nth_append)
next
  case (2 c cs args)
  let ?fmt = "pre @ (c # cs) @ [0]"
  show ?case
  proof (cases "c = 37")
    case False
    with "2.prems" have "printf_loop ?fmt (length pre) args n v =
        printf_loop ((pre @ [c]) @ cs @ [0]) (length (pre @ [c])) args (n + 1) (vga_putchar c v)"
      by (subst printf_loop.simps) (simp add: nth_append)
    with "2.IH"(1) [OF False, of "pre @ [c]"] "2.prems" False show ?thesis
      by (auto split: option.splits simp: add.assoc)
  next
    case pc: True
    show ?thesis
    proof (cases cs)
      case Nil
      have "printf_loop (pre @ [c, 0]) (Suc (Suc (length pre))) as k w = None" for as k w
        by (simp add: printf_loop.simps [of "pre @ [c, 0]" "Suc (Suc (length pre))"] aget_out)
      with Nil pc show ?thesis
        by (simp add: printf_loop.simps [of _ "length pre"] nth_append split: option.splits)
    next
      case (Cons d ds)
      have step: "printf_loop ?fmt (length pre) args n v = (case printf_conv d args n v of None \<Rightarrow> None
          | Some (args', n', v') \<Rightarrow>
              printf_loop ((pre @ [c, d]) @ ds @ [0]) (length (pre @ [c, d])) args' n' v')"
        by (subst printf_loop.simps) (simp add: nth_append pc Cons split: option.split)
      show ?thesis
      proof (cases "render_conv d args")
        case None
        with step pc Cons show ?thesis by (simp add: printf_conv_render)
      next
        case (Some r)
        obtain s as where r: "r = (s, as)" by (cases r)
        from "2.IH"(2) [OF _ Cons Some r [symmetric], of "pre @ [c, d]"] "2.prems" pc Cons
        have "printf_loop ((pre @ [c, d]) @ ds @ [0]) (length (pre @ [c, d])) as (n + of_nat (length s)) (fold vga_putchar s v) =
          (case render ds as of None \<Rightarrow> None
           | Some t \<Rightarrow> Some (n + of_nat (length s) + of_nat (length t), fold vga_putchar t (fold vga_putchar s v)))"
          by simp
        with step Some r pc Cons show ?thesis
          by (auto simp: printf_conv_render add.assoc split: option.splits)
      qed
    qed
  qed
qed

lemma printf_render:
  "0 \<notin> set f \<Longrightarrow> printf (f @ [0]) args v = (case render f args of None \<Rightarrow> None
     | Some s \<Rightarrow> Some (of_nat (length s), fold vga_putchar s v))"
  using printf_loop_render [of f "[]" args 0 v] by (simp add: printf_def cong: option.case_cong)

section \<open>Properties\<close>

text \<open>
  (C26) printf on a format literal prints exactly the text the format denotes for its arguments
  (the conversions s, c, d, i, u, x, X, the escaped percent sign, unknown letters verbatim),
  returns its length, keeps the cursor on the screen, and changes the screen as the terminal
  does on that text; a format that denotes nothing (an argument missing, a string without
  terminator) is undefined behaviour.
\<close>

theorem printf_correct:
  assumes "0 \<notin> set f" and "vga_ok v"
  shows "(case render f args of
      None \<Rightarrow> printf (f @ [0]) args v = None
    | Some s \<Rightarrow> \<exists>w. printf (f @ [0]) args v = Some (of_nat (length s), w) \<and> vga_ok w
        \<and> vga_frame v w \<and> vga_abs w = fold term_putc s (vga_abs v))"
  using printf_render [OF assms(1), of args v] con.puts_refines [OF assms(2)]
  by (auto split: option.splits)

theorem printf_correct_witness:
  "\<exists>w. printf (ascii ''%d%%'' @ [0]) [Arg_int 7]
       (vga_init \<lparr>vmem = \<lambda>_. 0, cursor_row = 0, cursor_col = 0, current_color = 0\<rparr>) = Some (2, w) \<and> vga_ok w"
proof -
  have "render (ascii ''%d%%'') [Arg_int 7] = Some (ascii ''7%'')" by code_simp
  then show ?thesis
    using printf_correct [of "ascii ''%d%%''" "vga_init \<lparr>vmem = \<lambda>_. 0, cursor_row = 0, cursor_col = 0,
        current_color = 0\<rparr>" "[Arg_int 7]"]
    by (auto simp: vga_init_def vga_clear_ok ascii_def)
qed

text \<open>
  A format literal that ends in a lone percent sign makes printf step over its
  terminator and read past the end of the format, whatever the arguments.
\<close>

theorem printf_trailing_percent:
  assumes "0 \<notin> set f" and "37 \<notin> set f"
  shows "printf (f @ [37, 0]) args v = None"
proof -
  have "render (f @ [37]) args = None" using assms(2) by (induction f) auto
  with printf_render [of "f @ [37]" args v] assms(1) show ?thesis by simp
qed

theorem printf_trailing_percent_witness:
  "printf (ascii ''100'' @ [37, 0]) []
     \<lparr>vmem = \<lambda>_. 0, cursor_row = 0, cursor_col = 0, current_color = 0\<rparr> = None"
  by (rule printf_trailing_percent) (simp_all add: ascii_def)

end
