(* ===== verification/Bh_Ata.thy ===== *)
theory Bh_Ata
  imports Bh_Stdio
begin

text \<open>
  The ATA PIO driver, \<^verbatim>\<open>drivers/ata.c\<close>. The port instructions of
  \<^verbatim>\<open>kernel/idt.h\<close> act on hardware, which is a parameter: a record of port functions on
  a device state. The polling loops are \<^theory_text>\<open>partial_function\<close>s, since a drive that
  never becomes ready hangs the kernel. What the driver relies on of a drive is the locale
  \<open>ide_device\<close>, the PIO protocol of the ATA standard; the driver then gives the contract
  \<open>sector_store\<close> that the file system uses.
\<close>

section \<open>Ports\<close>

record 'p ports =
  p_inb :: "u16 \<Rightarrow> 'p \<Rightarrow> u8 \<times> 'p"
  p_outb :: "u16 \<Rightarrow> u8 \<Rightarrow> 'p \<Rightarrow> 'p"
  p_inw :: "u16 \<Rightarrow> 'p \<Rightarrow> u16 \<times> 'p"
  p_outw :: "u16 \<Rightarrow> u16 \<Rightarrow> 'p \<Rightarrow> 'p"

definition ATA_PORT_DATA :: u16 where "ATA_PORT_DATA = 0x1F0"
definition ATA_PORT_FEATURES :: u16 where "ATA_PORT_FEATURES = 0x1F1"
definition ATA_PORT_SECTOR_CNT :: u16 where "ATA_PORT_SECTOR_CNT = 0x1F2"
definition ATA_PORT_LBA_LO :: u16 where "ATA_PORT_LBA_LO = 0x1F3"
definition ATA_PORT_LBA_MID :: u16 where "ATA_PORT_LBA_MID = 0x1F4"
definition ATA_PORT_LBA_HI :: u16 where "ATA_PORT_LBA_HI = 0x1F5"
definition ATA_PORT_DRIVE :: u16 where "ATA_PORT_DRIVE = 0x1F6"
definition ATA_PORT_COMMAND :: u16 where "ATA_PORT_COMMAND = 0x1F7"
definition ATA_PORT_STATUS :: u16 where "ATA_PORT_STATUS = 0x1F7"

definition ATA_CMD_READ_PIO :: u8 where [simp]: "ATA_CMD_READ_PIO = 0x20"
definition ATA_CMD_WRITE_PIO :: u8 where [simp]: "ATA_CMD_WRITE_PIO = 0x30"
definition ATA_CMD_CACHE_FLUSH :: u8 where [simp]: "ATA_CMD_CACHE_FLUSH = 0xE7"
definition ATA_SR_DRQ :: u8 where [simp]: "ATA_SR_DRQ = 0x08"
definition ATA_SR_BSY :: u8 where [simp]: "ATA_SR_BSY = 0x80"

section \<open>Operations\<close>

partial_function (option) ata_wait_bsy :: "'p ports \<Rightarrow> 'p \<Rightarrow> 'p option" where
  "ata_wait_bsy P d =
     (if fst (p_inb P ATA_PORT_STATUS d) AND ATA_SR_BSY \<noteq> 0
      then ata_wait_bsy P (snd (p_inb P ATA_PORT_STATUS d))
      else Some (snd (p_inb P ATA_PORT_STATUS d)))"

partial_function (option) ata_wait_drq :: "'p ports \<Rightarrow> 'p \<Rightarrow> 'p option" where
  "ata_wait_drq P d =
     (if \<not> fst (p_inb P ATA_PORT_STATUS d) AND ATA_SR_DRQ \<noteq> 0
      then ata_wait_drq P (snd (p_inb P ATA_PORT_STATUS d))
      else Some (snd (p_inb P ATA_PORT_STATUS d)))"

definition ata_pio_setup :: "'p ports \<Rightarrow> u32 \<Rightarrow> u8 \<Rightarrow> 'p \<Rightarrow> 'p option" where
  "ata_pio_setup P lba drive d = do {
     d0 \<leftarrow> ata_wait_bsy P d;
     let d1 = p_outb P ATA_PORT_DRIVE (0xE0 OR push_bit 4 drive OR (ucast (drop_bit 24 lba) AND 0x0F)) d0;
     let d2 = p_outb P ATA_PORT_FEATURES 0 d1;
     let d3 = p_outb P ATA_PORT_SECTOR_CNT 1 d2;
     let d4 = p_outb P ATA_PORT_LBA_LO (ucast lba) d3;
     let d5 = p_outb P ATA_PORT_LBA_MID (ucast (drop_bit 8 lba)) d4;
     Some (p_outb P ATA_PORT_LBA_HI (ucast (drop_bit 16 lba)) d5) }"

fun inw_drain :: "'p ports \<Rightarrow> nat \<Rightarrow> 'p \<Rightarrow> 'p" where
  "inw_drain P 0 d = d"
| "inw_drain P (Suc n) d = inw_drain P n (snd (p_inw P ATA_PORT_DATA d))"

text \<open>\<^verbatim>\<open>ata_init\<close> identifies the drive and reports on the console.\<close>

definition ata_init :: "'p ports \<Rightarrow> 'p \<Rightarrow> vga \<Rightarrow> ('p \<times> vga) option" where
  "ata_init P d v =
     (let d1 = p_outb P ATA_PORT_DRIVE 0xA0 d;
          d2 = p_outb P ATA_PORT_SECTOR_CNT 0 d1;
          d3 = p_outb P ATA_PORT_LBA_LO 0 d2;
          d4 = p_outb P ATA_PORT_LBA_MID 0 d3;
          d5 = p_outb P ATA_PORT_LBA_HI 0 d4;
          d6 = p_outb P ATA_PORT_COMMAND 0xEC d5;
          (status, d7) = p_inb P ATA_PORT_STATUS d6
      in if status = 0 then do {
             (_, v') \<leftarrow> printf (lit (''[ATA] No primary IDE master drive found.'' @ [CHR 0x0A])) [] v;
             Some (d7, v') }
         else do {
             d8 \<leftarrow> ata_wait_bsy P d7;
             let (status', d9) = p_inb P ATA_PORT_STATUS d8;
             let d10 = (if status' AND ATA_SR_DRQ \<noteq> 0 then inw_drain P 256 d9 else d9);
             (_, v') \<leftarrow> printf (lit (''> Primary ATA Drive initialized.'' @ [CHR 0x0A])) [] v;
             Some (d10, v') })"

text \<open>The transfer loops, \<open>n\<close> words from word \<open>i\<close> on; the buffer is a checked object.\<close>

fun ata_read_loop :: "'p ports \<Rightarrow> nat \<Rightarrow> nat \<Rightarrow> bytes \<Rightarrow> 'p \<Rightarrow> (bytes \<times> 'p) option" where
  "ata_read_loop P 0 i buffer d = Some (buffer, d)"
| "ata_read_loop P (Suc n) i buffer d =
     (let (w, d') = p_inw P ATA_PORT_DATA d in do {
        b1 \<leftarrow> aput buffer (i * 2) (ucast (w AND 0xFF));
        b2 \<leftarrow> aput b1 (i * 2 + 1) (ucast (drop_bit 8 w));
        ata_read_loop P n (Suc i) b2 d' })"

fun ata_write_loop :: "'p ports \<Rightarrow> nat \<Rightarrow> nat \<Rightarrow> bytes \<Rightarrow> 'p \<Rightarrow> 'p option" where
  "ata_write_loop P 0 i buffer d = Some d"
| "ata_write_loop P (Suc n) i buffer d = do {
     lo \<leftarrow> aget buffer (i * 2);
     hi \<leftarrow> aget buffer (i * 2 + 1);
     ata_write_loop P n (Suc i) buffer (p_outw P ATA_PORT_DATA (ucast lo OR push_bit 8 (ucast hi)) d) }"

definition ata_read_sector :: "'p ports \<Rightarrow> u32 \<Rightarrow> bytes \<Rightarrow> 'p \<Rightarrow> (bytes \<times> 'p) option" where
  "ata_read_sector P lba buffer d = do {
     d1 \<leftarrow> ata_pio_setup P lba 0 d;
     d2 \<leftarrow> ata_wait_bsy P (p_outb P ATA_PORT_COMMAND ATA_CMD_READ_PIO d1);
     d3 \<leftarrow> ata_wait_drq P d2;
     ata_read_loop P 256 0 buffer d3 }"

definition ata_write_sector :: "'p ports \<Rightarrow> u32 \<Rightarrow> bytes \<Rightarrow> 'p \<Rightarrow> 'p option" where
  "ata_write_sector P lba buffer d = do {
     d1 \<leftarrow> ata_pio_setup P lba 0 d;
     d2 \<leftarrow> ata_wait_bsy P (p_outb P ATA_PORT_COMMAND ATA_CMD_WRITE_PIO d1);
     d3 \<leftarrow> ata_wait_drq P d2;
     d4 \<leftarrow> ata_write_loop P 256 0 buffer d3;
     ata_wait_bsy P (p_outb P ATA_PORT_COMMAND ATA_CMD_CACHE_FLUSH d4) }"
section \<open>What the driver relies on of a drive\<close>

text \<open>Where a drive stands in a transfer; the words still to come, or the words received.\<close>

datatype phase = Idle | Data_in "u16 list" | Data_out nat "u16 list"

definition word_of_bytes :: "u8 \<Rightarrow> u8 \<Rightarrow> u16" where
  "word_of_bytes lo hi = ucast lo OR push_bit 8 (ucast hi)"

fun words_of :: "bytes \<Rightarrow> u16 list" where
  "words_of (lo # hi # bs) = word_of_bytes lo hi # words_of bs"
| "words_of _ = []"

fun bytes_of :: "u16 list \<Rightarrow> bytes" where
  "bytes_of [] = []"
| "bytes_of (w # ws) = ucast (w AND 0xFF) # ucast (drop_bit 8 w) # bytes_of ws"

text \<open>The sector a register file selects on the master in LBA mode.\<close>

definition selected_lba :: "(u16 \<Rightarrow> u8) \<Rightarrow> nat" where
  "selected_lba r = unat (r ATA_PORT_LBA_LO) + 2 ^ 8 * unat (r ATA_PORT_LBA_MID)
     + 2 ^ 16 * unat (r ATA_PORT_LBA_HI) + 2 ^ 24 * unat (r ATA_PORT_DRIVE AND 0x0F)"

definition selects :: "(u16 \<Rightarrow> u8) \<Rightarrow> nat \<Rightarrow> bool" where
  "selects r lba \<longleftrightarrow> r ATA_PORT_DRIVE AND 0xF0 = 0xE0 \<and> r ATA_PORT_SECTOR_CNT = 1 \<and> selected_lba r = lba"

definition setup_ports :: "u16 set" where
  "setup_ports = {ATA_PORT_DRIVE, ATA_PORT_FEATURES, ATA_PORT_SECTOR_CNT, ATA_PORT_LBA_LO, ATA_PORT_LBA_MID,
     ATA_PORT_LBA_HI}"

lemmas ata_port_defs = ATA_PORT_DATA_def ATA_PORT_FEATURES_def ATA_PORT_SECTOR_CNT_def ATA_PORT_LBA_LO_def
  ATA_PORT_LBA_MID_def ATA_PORT_LBA_HI_def ATA_PORT_DRIVE_def ATA_PORT_COMMAND_def ATA_PORT_STATUS_def

text \<open>
  The PIO protocol of the ATA standard: \<open>pending\<close> bounds the status reads for which BSY stays
  set; DRQ is meaningful once it is clear. A drive that has received the last word of a write is
  assumed to accept the next command at once, as the driver does not poll BSY there.
\<close>

locale ide_device =
  fixes P :: "'p ports" and regs :: "'p \<Rightarrow> u16 \<Rightarrow> u8" and phase :: "'p \<Rightarrow> phase"
    and pending :: "'p \<Rightarrow> nat" and platter :: "'p \<Rightarrow> bytes list"
  assumes status_law: "p_inb P ATA_PORT_STATUS d = (st, d') \<Longrightarrow>
      (st AND 0x80 \<noteq> 0 \<longleftrightarrow> 0 < pending d) \<and> (pending d = 0 \<longrightarrow> (st AND 0x08 \<noteq> 0 \<longleftrightarrow> phase d \<noteq> Idle))
      \<and> pending d' = pending d - 1 \<and> phase d' = phase d \<and> regs d' = regs d \<and> platter d' = platter d"
    and register_law: "port \<in> setup_ports \<Longrightarrow> pending d = 0 \<Longrightarrow> phase d = Idle \<Longrightarrow>
      regs (p_outb P port v d) = (regs d)(port := v) \<and> phase (p_outb P port v d) = Idle
      \<and> pending (p_outb P port v d) = 0 \<and> platter (p_outb P port v d) = platter d"
    and read_law: "pending d = 0 \<Longrightarrow> phase d = Idle \<Longrightarrow> selects (regs d) lba \<Longrightarrow> lba < length (platter d) \<Longrightarrow>
      d' = p_outb P ATA_PORT_COMMAND 0x20 d \<Longrightarrow>
      phase d' = Data_in (words_of (platter d ! lba)) \<and> platter d' = platter d"
    and data_in_law: "pending d = 0 \<Longrightarrow> phase d = Data_in (w # ws) \<Longrightarrow> p_inw P ATA_PORT_DATA d = (w', d') \<Longrightarrow>
      w' = w \<and> phase d' = (if ws = [] then Idle else Data_in ws) \<and> pending d' = 0 \<and> platter d' = platter d"
    and write_law: "pending d = 0 \<Longrightarrow> phase d = Idle \<Longrightarrow> selects (regs d) lba \<Longrightarrow> lba < length (platter d) \<Longrightarrow>
      d' = p_outb P ATA_PORT_COMMAND 0x30 d \<Longrightarrow> phase d' = Data_out lba [] \<and> platter d' = platter d"
    and data_out_law: "pending d = 0 \<Longrightarrow> phase d = Data_out lba ws \<Longrightarrow> d' = p_outw P ATA_PORT_DATA w d \<Longrightarrow>
      pending d' = 0 \<and>
      (if length ws = 255
       then phase d' = Idle \<and> platter d' = (platter d)[lba := bytes_of (ws @ [w])]
       else phase d' = Data_out lba (ws @ [w]) \<and> platter d' = platter d)"
    and flush_law: "pending d = 0 \<Longrightarrow> phase d = Idle \<Longrightarrow> d' = p_outb P ATA_PORT_COMMAND 0xE7 d \<Longrightarrow>
      phase d' = Idle \<and> platter d' = platter d"

section \<open>Words and addresses\<close>

lemma word_bytes [simp]:
  "ucast (word_of_bytes lo hi AND 0xFF) = lo" "ucast (drop_bit 8 (word_of_bytes lo hi)) = hi"
proof -
  have m: "(0xFF :: u16) = mask 8" by (simp add: mask_eq_exp_minus_1)
  show "ucast (word_of_bytes lo hi AND 0xFF) = lo"
    unfolding m word_of_bytes_def by (rule bit_word_eqI) (auto simp: bit_simps)
  show "ucast (drop_bit 8 (word_of_bytes lo hi)) = hi"
    unfolding word_of_bytes_def by (rule bit_word_eqI) (auto simp: bit_simps dest: bit_imp_le_length)
qed

lemma bytes_words: "even (length bs) \<Longrightarrow> bytes_of (words_of bs) = bs"
  by (induction bs rule: words_of.induct) auto

lemma length_words_of: "length (words_of bs) = length bs div 2"
  by (induction bs rule: words_of.induct) auto

lemma length_bytes_of [simp]: "length (bytes_of ws) = 2 * length ws"
  by (induction ws) auto

lemma bytes_sum:
  "n mod 2 ^ 8 + 2 ^ 8 * (n div 2 ^ 8 mod 2 ^ 8) + 2 ^ 16 * (n div 2 ^ 16 mod 2 ^ 8) + 2 ^ 24 * (n div 2 ^ 24)
     = (n :: nat)"
proof -
  have d: "n div 2 ^ 16 = n div 2 ^ 8 div 2 ^ 8" "n div 2 ^ 24 = n div 2 ^ 8 div 2 ^ 8 div 2 ^ 8"
    by (simp_all flip: div_mult2_eq)
  have sum: "x + 2 ^ 8 * z + 2 ^ 16 * v + 2 ^ 24 * w = n"
    if "x + 2 ^ 8 * y = n" "z + 2 ^ 8 * u = y" "v + 2 ^ 8 * w = u" for x y z u v w :: nat
    using that by auto
  show ?thesis
    unfolding d by (rule sum [OF mod_mult_div_eq mod_mult_div_eq mod_mult_div_eq])
qed

lemma unat_lba_split:
  fixes lba :: u32
  assumes "unat lba < 2 ^ 28"
  shows "unat (ucast lba :: u8) + 2 ^ 8 * unat (ucast (drop_bit 8 lba) :: u8)
     + 2 ^ 16 * unat (ucast (drop_bit 16 lba) :: u8) + 2 ^ 24 * unat (ucast (drop_bit 24 lba) AND 0x0F :: u8) = unat lba"
proof -
  let ?n = "unat lba"
  have m: "(0x0F :: u8) = mask 4" by (simp add: mask_eq_exp_minus_1)
  have t: "unat (ucast (drop_bit k lba) :: u8) = ?n div 2 ^ k mod 2 ^ 8" for k
    by (simp only: unsigned_ucast_eq unat_drop_bit_eq) (simp add: drop_bit_eq_div take_bit_eq_mod)
  have "unat (ucast (drop_bit 24 lba) AND 0x0F :: u8) = ?n div 2 ^ 24 mod 2 ^ 8 mod 2 ^ 4"
    unfolding m by (simp only: t unsigned_take_bit_eq flip: take_bit_eq_mask) (simp add: take_bit_eq_mod)
  moreover have "?n div 2 ^ 24 < 2 ^ 4" using assms by (simp add: less_mult_imp_div_less)
  ultimately have "unat (ucast (drop_bit 24 lba) AND 0x0F :: u8) = ?n div 2 ^ 24" by simp
  moreover have "unat (ucast lba :: u8) = ?n mod 2 ^ 8" using t [of 0] by simp
  moreover have "?n mod 2 ^ 8 + 2 ^ 8 * (?n div 2 ^ 8 mod 2 ^ 8) + 2 ^ 16 * (?n div 2 ^ 16 mod 2 ^ 8)
      + 2 ^ 24 * (?n div 2 ^ 24) = ?n"
    by (rule bytes_sum)
  ultimately show ?thesis by (simp only: t)
qed
lemma drive_bits: "(0xE0 OR (x AND 0x0F) :: u8) AND 0xF0 = 0xE0" "(0xE0 OR (x AND 0x0F) :: u8) AND 0x0F = x AND 0x0F"
proof -
  have "(0xE0 :: u8) AND 0xF0 = 0xE0" "(0x0F :: u8) AND 0xF0 = 0" "(0xE0 :: u8) AND 0x0F = 0" "(0x0F :: u8) AND 0x0F = 0x0F"
    by simp_all
  then show "(0xE0 OR (x AND 0x0F) :: u8) AND 0xF0 = 0xE0" "(0xE0 OR (x AND 0x0F) :: u8) AND 0x0F = x AND 0x0F"
    by (simp_all only: bit.conj_disj_distrib2 and.assoc and_zero_eq or.right_neutral or.left_neutral)
qed

lemma words_of_nth:
  "Suc (i * 2) < length bs \<Longrightarrow> word_of_bytes (bs ! (i * 2)) (bs ! (i * 2 + 1)) = words_of bs ! i"
proof (induction bs arbitrary: i rule: words_of.induct)
  case (1 lo hi bs)
  then show ?case by (cases i) auto
qed auto

section \<open>The driver on such a drive\<close>

context ide_device
begin

definition settled :: "'p \<Rightarrow> bool" where
  "settled d \<longleftrightarrow> phase d = Idle \<and> (\<forall>s \<in> set (platter d). length s = 512) \<and> length (platter d) \<le> 2 ^ 28"

text \<open>Polling BSY ends and changes nothing but the time left.\<close>

lemma wait_bsy:
  "\<exists>d'. ata_wait_bsy P d = Some d' \<and> pending d' = 0 \<and> phase d' = phase d \<and> regs d' = regs d \<and> platter d' = platter d"
proof (induction "pending d" arbitrary: d rule: less_induct)
  case less
  obtain st d1 where s: "p_inb P ATA_PORT_STATUS d = (st, d1)" by (cases "p_inb P ATA_PORT_STATUS d") auto
  note l = status_law [OF s]
  show ?case
  proof (cases "0 < pending d")
    case True
    with l have "pending d1 < pending d" by simp
    from less [OF this] l True show ?thesis by (subst ata_wait_bsy.simps) (simp add: s)
  next
    case False
    with l show ?thesis by (subst ata_wait_bsy.simps) (simp add: s)
  qed
qed

lemma wait_drq:
  assumes "pending d = 0" "phase d \<noteq> Idle"
  shows "\<exists>d'. ata_wait_drq P d = Some d' \<and> pending d' = 0 \<and> phase d' = phase d \<and> platter d' = platter d"
proof -
  obtain st d1 where s: "p_inb P ATA_PORT_STATUS d = (st, d1)" by (cases "p_inb P ATA_PORT_STATUS d") auto
  show ?thesis using status_law [OF s] assms by (subst ata_wait_drq.simps) (simp add: s)
qed

lemma pio_setup:
  assumes "phase d = Idle" "unat lba < 2 ^ 28"
  shows "\<exists>d'. ata_pio_setup P lba 0 d = Some d' \<and> pending d' = 0 \<and> phase d' = Idle \<and> platter d' = platter d
     \<and> selects (regs d') (unat lba)"
proof -
  obtain d0 where d0: "ata_wait_bsy P d = Some d0" "pending d0 = 0" "phase d0 = Idle" "platter d0 = platter d"
    using wait_bsy [of d] assms(1) by auto
  define b where "b = (0xE0 OR (ucast (drop_bit 24 lba) AND 0x0F) :: u8)"
  define d1 where "d1 = p_outb P ATA_PORT_DRIVE b d0"
  define d2 where "d2 = p_outb P ATA_PORT_FEATURES 0 d1"
  define d3 where "d3 = p_outb P ATA_PORT_SECTOR_CNT 1 d2"
  define d4 where "d4 = p_outb P ATA_PORT_LBA_LO (ucast lba) d3"
  define d5 where "d5 = p_outb P ATA_PORT_LBA_MID (ucast (drop_bit 8 lba)) d4"
  define d6 where "d6 = p_outb P ATA_PORT_LBA_HI (ucast (drop_bit 16 lba)) d5"
  have "ata_pio_setup P lba 0 d = Some d6"
    unfolding ata_pio_setup_def d0(1) d6_def d5_def d4_def d3_def d2_def d1_def b_def by simp
  moreover have r1: "regs d1 = (regs d0)(ATA_PORT_DRIVE := b) \<and> phase d1 = Idle \<and> pending d1 = 0 \<and> platter d1 = platter d"
    using register_law [of ATA_PORT_DRIVE d0 b] d0 by (simp add: d1_def setup_ports_def)
  moreover have r2: "regs d2 = (regs d1)(ATA_PORT_FEATURES := 0) \<and> phase d2 = Idle \<and> pending d2 = 0 \<and> platter d2 = platter d"
    using register_law [of ATA_PORT_FEATURES d1 0] r1 by (simp add: d2_def setup_ports_def)
  moreover have r3: "regs d3 = (regs d2)(ATA_PORT_SECTOR_CNT := 1) \<and> phase d3 = Idle \<and> pending d3 = 0 \<and> platter d3 = platter d"
    using register_law [of ATA_PORT_SECTOR_CNT d2 1] r2 by (simp add: d3_def setup_ports_def)
  moreover have r4: "regs d4 = (regs d3)(ATA_PORT_LBA_LO := ucast lba) \<and> phase d4 = Idle \<and> pending d4 = 0 \<and> platter d4 = platter d"
    using register_law [of ATA_PORT_LBA_LO d3 "ucast lba"] r3 by (simp add: d4_def setup_ports_def)
  moreover have r5: "regs d5 = (regs d4)(ATA_PORT_LBA_MID := ucast (drop_bit 8 lba)) \<and> phase d5 = Idle \<and> pending d5 = 0
      \<and> platter d5 = platter d"
    using register_law [of ATA_PORT_LBA_MID d4 "ucast (drop_bit 8 lba)"] r4 by (simp add: d5_def setup_ports_def)
  moreover have r6: "regs d6 = (regs d5)(ATA_PORT_LBA_HI := ucast (drop_bit 16 lba)) \<and> phase d6 = Idle \<and> pending d6 = 0
      \<and> platter d6 = platter d"
    using register_law [of ATA_PORT_LBA_HI d5 "ucast (drop_bit 16 lba)"] r5 by (simp add: d6_def setup_ports_def)
  moreover have "selects (regs d6) (unat lba)"
  proof -
    have "b AND 0xF0 = 0xE0" "b AND 0x0F = ucast (drop_bit 24 lba) AND 0x0F"
      unfolding b_def by (rule drive_bits)+
    moreover have "regs d6 ATA_PORT_DRIVE = b" "regs d6 ATA_PORT_SECTOR_CNT = 1" "regs d6 ATA_PORT_LBA_LO = ucast lba"
      "regs d6 ATA_PORT_LBA_MID = ucast (drop_bit 8 lba)" "regs d6 ATA_PORT_LBA_HI = ucast (drop_bit 16 lba)"
      using r1 r2 r3 r4 r5 r6 by (simp_all add: ata_port_defs)
    ultimately show ?thesis using unat_lba_split [OF assms(2)] by (simp add: selects_def selected_lba_def)
  qed
  ultimately show ?thesis by blast
qed

text \<open>The transfer loops move the words one by one.\<close>

lemma read_loop:
  assumes "pending d = 0" "phase d = (if n = 0 then Idle else Data_in (drop i ws))" "i + n = length ws"
    "length buffer = 2 * length ws"
  shows "\<exists>d'. ata_read_loop P n i buffer d = Some (take (2 * i) buffer @ bytes_of (drop i ws), d')
     \<and> phase d' = Idle \<and> platter d' = platter d"
  using assms
proof (induction n arbitrary: i buffer d)
  case (Suc n)
  obtain w d1 where w: "p_inw P ATA_PORT_DATA d = (w, d1)" by (cases "p_inw P ATA_PORT_DATA d") auto
  have i: "i < length ws" using Suc.prems(3) by simp
  then have dr: "drop i ws = ws ! i # drop (Suc i) ws" by (simp add: Cons_nth_drop_Suc)
  have l: "w = ws ! i" "phase d1 = (if n = 0 then Idle else Data_in (drop (Suc i) ws))" "pending d1 = 0"
      "platter d1 = platter d"
    using data_in_law [of d "ws ! i" "drop (Suc i) ws" w d1] Suc.prems w by (auto simp: dr)
  let ?lo = "ucast (w AND 0xFF) :: u8" and ?hi = "ucast (drop_bit 8 w) :: u8"
  let ?b2 = "buffer[i * 2 := ?lo, i * 2 + 1 := ?hi]"
  have len: "i * 2 < length buffer" "i * 2 + 1 < length buffer" using i Suc.prems(4) by simp_all
  have "ata_read_loop P (Suc n) i buffer d = ata_read_loop P n (Suc i) ?b2 d1"
    using len by (simp add: w)
  moreover have "take (2 * Suc i) ?b2 = take (2 * i) buffer @ [?lo, ?hi]"
    using len by (simp add: take_Suc_conv_app_nth mult.commute take_update_swap list_update_append)
  moreover have "length ?b2 = 2 * length ws" "Suc i + n = length ws" using Suc.prems(3,4) by simp_all
  ultimately show ?case
    using Suc.IH [of d1 "Suc i" ?b2] l by (simp add: dr)
qed simp

lemma write_loop:
  assumes "pending d = 0" "phase d = (if n = 0 then Idle else Data_out lba (take i (words_of buffer)))"
    "i + n = 256" "length buffer = 512"
  shows "\<exists>d'. ata_write_loop P n i buffer d = Some d' \<and> pending d' = 0 \<and> phase d' = Idle
     \<and> platter d' = (if n = 0 then platter d else (platter d)[lba := buffer])"
  using assms
proof (induction n arbitrary: i d)
  case (Suc n)
  let ?ws = "words_of buffer"
  have len: "length ?ws = 256" using Suc.prems(4) by (simp add: length_words_of)
  have i: "i < 256" using Suc.prems(3) by simp
  define w where "w = ?ws ! i"
  have wb: "word_of_bytes (buffer ! (i * 2)) (buffer ! (i * 2 + 1)) = w"
    unfolding w_def using i Suc.prems(4) by (intro words_of_nth) simp
  have tk: "take i ?ws @ [w] = take (Suc i) ?ws" using i len by (simp add: take_Suc_conv_app_nth w_def)
  let ?d1 = "p_outw P ATA_PORT_DATA w d"
  have l: "pending ?d1 = 0 \<and> (if i = 255 then phase ?d1 = Idle \<and> platter ?d1 = (platter d)[lba := bytes_of (take (Suc i) ?ws)]
       else phase ?d1 = Data_out lba (take (Suc i) ?ws) \<and> platter ?d1 = platter d)"
    using data_out_law [OF Suc.prems(1) _ refl, of lba "take i ?ws" w, unfolded tk] Suc.prems(2) i len by simp
  have step: "ata_write_loop P (Suc n) i buffer d = ata_write_loop P n (Suc i) buffer ?d1"
    using i Suc.prems(4) by (simp add: word_of_bytes_def flip: wb)
  show ?case
  proof (cases "n = 0")
    case True
    then have "i = 255" using Suc.prems(3) by simp
    moreover have "bytes_of (take 256 ?ws) = buffer"
      using len Suc.prems(4) by (simp add: bytes_words)
    ultimately show ?thesis using l step True by simp
  next
    case False
    then have "i \<noteq> 255" using Suc.prems(3) by simp
    with l False Suc.IH [of ?d1 "Suc i"] Suc.prems step show ?thesis by simp
  qed
qed simp

lemma read_sector:
  assumes "settled d" "unat lba < length (platter d)" "length buffer = 512"
  shows "\<exists>d'. ata_read_sector P lba buffer d = Some (platter d ! unat lba, d') \<and> settled d' \<and> platter d' = platter d"
proof -
  let ?ws = "words_of (platter d ! unat lba)"
  have s: "length (platter d ! unat lba) = 512" "unat lba < 2 ^ 28" "phase d = Idle"
    using assms by (auto simp: settled_def)
  then have ws: "length ?ws = 256" "bytes_of ?ws = platter d ! unat lba"
    by (simp_all add: length_words_of bytes_words)
  obtain d1 where d1: "ata_pio_setup P lba 0 d = Some d1" "pending d1 = 0" "phase d1 = Idle" "platter d1 = platter d"
      "selects (regs d1) (unat lba)"
    using pio_setup [OF s(3,2)] by auto
  have c: "phase (p_outb P ATA_PORT_COMMAND 0x20 d1) = Data_in ?ws \<and> platter (p_outb P ATA_PORT_COMMAND 0x20 d1) = platter d"
    using read_law [OF d1(2,3,5) _ refl] d1(4) assms(2) by simp
  obtain d2 where d2: "ata_wait_bsy P (p_outb P ATA_PORT_COMMAND 0x20 d1) = Some d2" "pending d2 = 0"
      "phase d2 = Data_in ?ws" "platter d2 = platter d"
    using wait_bsy [of "p_outb P ATA_PORT_COMMAND 0x20 d1"] c by auto
  obtain d3 where d3: "ata_wait_drq P d2 = Some d3" "pending d3 = 0" "phase d3 = Data_in ?ws" "platter d3 = platter d"
    using wait_drq [OF d2(2)] d2(3,4) by auto
  obtain d4 where "ata_read_loop P 256 0 buffer d3 = Some (platter d ! unat lba, d4)" "phase d4 = Idle"
      "platter d4 = platter d"
    using read_loop [of d3 256 0 ?ws buffer] d3 ws assms(3) by auto
  with d1 d2 d3 assms(1) show ?thesis by (simp add: ata_read_sector_def settled_def)
qed

lemma write_sector:
  assumes "settled d" "unat lba < length (platter d)" "length buffer = 512"
  shows "\<exists>d'. ata_write_sector P lba buffer d = Some d' \<and> settled d' \<and> platter d' = (platter d)[unat lba := buffer]"
proof -
  have s: "unat lba < 2 ^ 28" "phase d = Idle" using assms by (auto simp: settled_def)
  obtain d1 where d1: "ata_pio_setup P lba 0 d = Some d1" "pending d1 = 0" "phase d1 = Idle" "platter d1 = platter d"
      "selects (regs d1) (unat lba)"
    using pio_setup [OF s(2,1)] by auto
  have c: "phase (p_outb P ATA_PORT_COMMAND 0x30 d1) = Data_out (unat lba) [] \<and> platter (p_outb P ATA_PORT_COMMAND 0x30 d1) = platter d"
    using write_law [OF d1(2,3,5) _ refl] d1(4) assms(2) by simp
  obtain d2 where d2: "ata_wait_bsy P (p_outb P ATA_PORT_COMMAND 0x30 d1) = Some d2" "pending d2 = 0"
      "phase d2 = Data_out (unat lba) []" "platter d2 = platter d"
    using wait_bsy [of "p_outb P ATA_PORT_COMMAND 0x30 d1"] c by auto
  obtain d3 where d3: "ata_wait_drq P d2 = Some d3" "pending d3 = 0" "phase d3 = Data_out (unat lba) []" "platter d3 = platter d"
    using wait_drq [OF d2(2)] d2(3,4) by auto
  obtain d4 where d4: "ata_write_loop P 256 0 buffer d3 = Some d4" "pending d4 = 0" "phase d4 = Idle"
      "platter d4 = (platter d)[unat lba := buffer]"
    using write_loop [of d3 256 "unat lba" 0 buffer] d3 assms(3) by auto
  obtain d5 where "ata_wait_bsy P (p_outb P ATA_PORT_COMMAND 0xE7 d4) = Some d5" "phase d5 = Idle"
      "platter d5 = (platter d)[unat lba := buffer]"
    using wait_bsy [of "p_outb P ATA_PORT_COMMAND 0xE7 d4"] flush_law [OF d4(2,3) refl] d4(4) by auto
  moreover have "\<forall>s \<in> set ((platter d)[unat lba := buffer]). length s = 512"
    using assms(1,3) set_update_subset_insert [of "platter d" "unat lba" buffer] by (auto simp: settled_def)
  ultimately show ?thesis using d1 d2 d3 d4 assms(1) by (simp add: ata_write_sector_def settled_def)
qed

end
section \<open>The contract towards the file system\<close>

record 'd sector_io =
  sec_read :: "u32 \<Rightarrow> 'd \<Rightarrow> (bytes \<times> 'd) option"
  sec_write :: "u32 \<Rightarrow> bytes \<Rightarrow> 'd \<Rightarrow> 'd option"

locale sector_store =
  fixes io :: "'d sector_io" and ready :: "'d \<Rightarrow> bool" and sectors :: "'d \<Rightarrow> bytes list"
  assumes sec_read_law: "ready d \<Longrightarrow> unat lba < length (sectors d) \<Longrightarrow>
      \<exists>d'. sec_read io lba d = Some (sectors d ! unat lba, d') \<and> ready d' \<and> sectors d' = sectors d"
    and sec_write_law: "ready d \<Longrightarrow> unat lba < length (sectors d) \<Longrightarrow> length b = 512 \<Longrightarrow>
      \<exists>d'. sec_write io lba b d = Some d' \<and> ready d' \<and> sectors d' = (sectors d)[unat lba := b]"

text \<open>The driver as a sector store; the buffer a read fills is a fresh array of 512 bytes.\<close>

definition ata_io :: "'p ports \<Rightarrow> 'p sector_io" where
  "ata_io P = \<lparr>sec_read = (\<lambda>lba d. ata_read_sector P lba (replicate 512 0) d),
     sec_write = (\<lambda>lba b d. ata_write_sector P lba b d)\<rparr>"

context ide_device
begin

lemma ata_store: "sector_store (ata_io P) settled platter"
  by unfold_locales (use read_sector write_sector in \<open>auto simp: ata_io_def\<close>)

end

sublocale ide_device \<subseteq> store: sector_store "ata_io P" settled platter
  by (rule ata_store)

text \<open>A drive that follows the protocol, with three busy polls after each command.\<close>

record ide =
  ide_regs :: "u16 \<Rightarrow> u8"
  ide_phase :: phase
  ide_pending :: nat
  ide_platter :: "bytes list"

definition ide_inb :: "u16 \<Rightarrow> ide \<Rightarrow> u8 \<times> ide" where
  "ide_inb port d =
     (if port = ATA_PORT_STATUS
      then (if 0 < ide_pending d then 0x80 else if ide_phase d = Idle then 0x50 else 0x58,
            d\<lparr>ide_pending := ide_pending d - 1\<rparr>)
      else (ide_regs d port, d))"

definition ide_outb :: "u16 \<Rightarrow> u8 \<Rightarrow> ide \<Rightarrow> ide" where
  "ide_outb port v d =
     (if port = ATA_PORT_COMMAND then
        (if v = 0x20 then d\<lparr>ide_phase := Data_in (words_of (ide_platter d ! selected_lba (ide_regs d))), ide_pending := 3\<rparr>
         else if v = 0x30 then d\<lparr>ide_phase := Data_out (selected_lba (ide_regs d)) [], ide_pending := 3\<rparr>
         else if v = 0xEC then d\<lparr>ide_phase := Data_in (replicate 256 0), ide_pending := 3\<rparr>
         else d\<lparr>ide_pending := 3\<rparr>)
      else d\<lparr>ide_regs := (ide_regs d)(port := v)\<rparr>)"

definition ide_inw :: "u16 \<Rightarrow> ide \<Rightarrow> u16 \<times> ide" where
  "ide_inw port d = (case ide_phase d of
      Data_in (w # ws) \<Rightarrow> (w, d\<lparr>ide_phase := (if ws = [] then Idle else Data_in ws)\<rparr>)
    | _ \<Rightarrow> (0, d))"

definition ide_outw :: "u16 \<Rightarrow> u16 \<Rightarrow> ide \<Rightarrow> ide" where
  "ide_outw port w d = (case ide_phase d of
      Data_out lba ws \<Rightarrow>
        (if length ws = 255
         then d\<lparr>ide_phase := Idle, ide_platter := (ide_platter d)[lba := bytes_of (ws @ [w])]\<rparr>
         else d\<lparr>ide_phase := Data_out lba (ws @ [w])\<rparr>)
    | _ \<Rightarrow> d)"

definition ide_ports :: "ide ports" where
  "ide_ports = \<lparr>p_inb = ide_inb, p_outb = ide_outb, p_inw = ide_inw, p_outw = ide_outw\<rparr>"

interpretation ide: ide_device ide_ports ide_regs ide_phase ide_pending ide_platter
  by unfold_locales
    (auto simp: ide_ports_def ide_inb_def ide_outb_def ide_inw_def ide_outw_def setup_ports_def ata_port_defs selects_def
      split: if_splits)

section \<open>Properties\<close>

text \<open>
  On every drive that follows the PIO protocol, reading a sector of the disk ends, fills
  the 512-byte buffer with that sector, whatever was in it, and leaves the disk as it was.
\<close>

theorem ata_read_sector_correct:
  assumes "ide_device P regs phase pending platter" "ide_device.settled phase platter d"
    "unat lba < length (platter d)" "length buffer = 512"
  shows "\<exists>d'. ata_read_sector P lba buffer d = Some (platter d ! unat lba, d')
     \<and> platter d' = platter d \<and> ide_device.settled phase platter d'"
  using ide_device.read_sector [OF assms] by blast


definition sample_ide :: ide where
  "sample_ide = \<lparr>ide_regs = \<lambda>_. 0, ide_phase = Idle, ide_pending = 2, ide_platter = replicate 4 (replicate 512 7)\<rparr>"

lemma sample_settled: "ide.settled sample_ide" "ide_platter sample_ide = replicate 4 (replicate 512 7)"
  by (simp_all add: ide.settled_def sample_ide_def)

theorem ata_read_sector_correct_witness:
  "\<exists>d'. ata_read_sector ide_ports 3 (replicate 512 0) sample_ide = Some (replicate 512 7, d')"
  using ata_read_sector_correct [OF ide.ide_device_axioms sample_settled(1), of 3 "replicate 512 0"]
  by (auto simp: sample_settled(2))


text \<open>
  Only the low 28 bits of a sector number reach the drive: a larger one silently reads the
  sector with the same low bits.
\<close>

theorem ata_lba_truncated:
  "ata_read_sector P lba buffer d = ata_read_sector P (lba AND 0x0FFFFFFF) buffer d"
proof -
  have m: "(0x0FFFFFFF :: u32) = mask 28" "(0x0F :: u8) = mask 4" by (simp_all add: mask_eq_exp_minus_1)
  have "ucast (drop_bit 24 lba) AND 0x0F = (ucast (drop_bit 24 (lba AND 0x0FFFFFFF)) AND 0x0F :: u8)"
    "ucast lba = (ucast (lba AND 0x0FFFFFFF) :: u8)"
    "ucast (drop_bit 8 lba) = (ucast (drop_bit 8 (lba AND 0x0FFFFFFF)) :: u8)"
    "ucast (drop_bit 16 lba) = (ucast (drop_bit 16 (lba AND 0x0FFFFFFF)) :: u8)"
    unfolding m by (rule bit_word_eqI; auto simp: bit_simps)+
  then show ?thesis unfolding ata_read_sector_def ata_pio_setup_def by (simp only:)
qed

lemma wait_bsy_Some:
  assumes "ata_wait_bsy P d = Some d'"
  shows "\<exists>d. fst (p_inb P ATA_PORT_STATUS d) AND 0x80 = 0"
proof -
  have "(\<lambda>(P, d) y. \<exists>d. fst (p_inb P ATA_PORT_STATUS d) AND 0x80 = 0) (P, d) d'"
    using _ assms
  proof (rule ata_wait_bsy.raw_induct)
    fix f P d y
    assume "\<And>d b y. f d b = Some y \<Longrightarrow> (\<lambda>(P, d) y. \<exists>d. fst (p_inb P ATA_PORT_STATUS d) AND 0x80 = 0) (d, b) y"
      and "(if fst (p_inb P ATA_PORT_STATUS d) AND ATA_SR_BSY \<noteq> 0 then f P (snd (p_inb P ATA_PORT_STATUS d))
            else Some (snd (p_inb P ATA_PORT_STATUS d))) = Some y"
    then show "(\<lambda>(P, d) y. \<exists>d. fst (p_inb P ATA_PORT_STATUS d) AND 0x80 = 0) (P, d) y"
      by (cases "fst (p_inb P ATA_PORT_STATUS d) AND 0x80 = 0") (simp_all, blast)
  qed
  then show ?thesis by simp
qed

lemma wait_bsy_hangs:
  assumes "\<And>d. fst (p_inb P ATA_PORT_STATUS d) = 0xFF"
  shows "ata_wait_bsy P d = None"
  using wait_bsy_Some [of P d] assms by (cases "ata_wait_bsy P d") auto

text \<open>
  With no controller on the bus the port lines float and every status read gives 0xFF.
  The presence test only recognises zero, so that the kernel hangs in \<^verbatim>\<open>ata_init\<close>, and
  would hang in every transfer.
\<close>

theorem ata_floating_bus_hangs:
  assumes "\<And>d. fst (p_inb P ATA_PORT_STATUS d) = 0xFF"
  shows "ata_init P d v = None \<and> ata_read_sector P lba buffer d = None \<and> ata_write_sector P lba buffer d = None"
proof -
  note h = wait_bsy_hangs [of P, OF assms]
  show ?thesis
    by (simp add: ata_init_def ata_read_sector_def ata_write_sector_def ata_pio_setup_def h case_prod_unfold assms)
qed

theorem ata_floating_bus_hangs_witness:
  "ata_init \<lparr>p_inb = \<lambda>_ d. (0xFF, d), p_outb = \<lambda>_ _ d. d, p_inw = \<lambda>_ d. (0xFFFF, d), p_outw = \<lambda>_ _ d. d\<rparr> ()
     \<lparr>vmem = \<lambda>_. 0, cursor_row = 0, cursor_col = 0, current_color = 7\<rparr> = None"
  using ata_floating_bus_hangs
    [of "\<lparr>p_inb = \<lambda>_ d. (0xFF, d), p_outb = \<lambda>_ _ d. d, p_inw = \<lambda>_ d. (0xFFFF, d), p_outw = \<lambda>_ _ d. d\<rparr>" "()"
      "\<lparr>vmem = \<lambda>_. 0, cursor_row = 0, cursor_col = 0, current_color = 7\<rparr>" 0 "[]"]
  by simp

end
