(* ===== verification/Bh_Keyboard.thy ===== *)
theory Bh_Keyboard
  imports Bh_Vga
begin

text \<open>
  The PS/2 keyboard driver, \<^verbatim>\<open>drivers/keyboard.c\<close>: the two scancode tables, the
  256-byte ring buffer, the scancode handler called by IRQ1, the blocking read and the line
  editor. The interrupts a blocked reader receives are the list of their scancodes: each
  \<^verbatim>\<open>hlt\<close> consumes one, and a reader that halts with none left never returns
  (\<^const>\<open>None\<close>). The ring buffer is shown to be a bounded FIFO (the locale
  \<open>bounded_fifo\<close>), and the line editor to compute \<open>line_edit\<close> of the typed characters.
\<close>

section \<open>Scancode tables\<close>

text \<open>
  Both initialisers list 132 values for an array of 128; the four excess zeros are discarded.
\<close>

definition scancode_to_ascii :: bytes where
  "scancode_to_ascii = take 128
     ([0, 27] @ ascii ''1234567890-='' @ [8] @
      [9] @ ascii ''qwertyuiop[]'' @ [10] @
      [0] @ ascii ''asdfghjkl;'' @ [39, 96] @
      [0, 92] @ ascii ''zxcvbnm,./'' @ [0] @
      [42, 0, 32, 0] @
      replicate 10 0 @
      [0, 0] @
      [0, 0, 0, 45, 0, 0, 0, 43, 0, 0, 0, 0, 0] @
      replicate 16 0 @ replicate 16 0 @ replicate 16 0)"

definition scancode_to_ascii_shift :: bytes where
  "scancode_to_ascii_shift = take 128
     ([0, 27] @ ascii ''!@#$%^&*()_+'' @ [8] @
      [9] @ ascii ''QWERTYUIOP{}'' @ [10] @
      [0] @ ascii ''ASDFGHJKL:'' @ [34, 126] @
      [0, 124] @ ascii ''ZXCVBNM<>?'' @ [0] @
      [42, 0, 32, 0] @
      replicate 10 0 @
      [0, 0, 0, 0, 0, 45, 0, 0, 0, 43, 0, 0, 0, 0, 0] @
      replicate 16 0 @ replicate 16 0 @ replicate 16 0)"

section \<open>State and ring buffer\<close>

abbreviation (input) KEY_BUF_SIZE :: nat where "KEY_BUF_SIZE \<equiv> 256"

record kbd =
  key_buffer :: bytes
  buf_head :: nat
  buf_tail :: nat
  shift_held :: bool

definition buf_push :: "u8 \<Rightarrow> kbd \<Rightarrow> kbd" where
  "buf_push c k =
     (let nxt = (buf_head k + 1) mod KEY_BUF_SIZE
      in if nxt \<noteq> buf_tail k
         then k\<lparr>key_buffer := (key_buffer k)[buf_head k := c], buf_head := nxt\<rparr>
         else k)"

definition buf_pop :: "kbd \<Rightarrow> u8 \<times> kbd" where
  "buf_pop k =
     (if buf_tail k = buf_head k then (0, k)
      else (key_buffer k ! buf_tail k, k\<lparr>buf_tail := (buf_tail k + 1) mod KEY_BUF_SIZE\<rparr>))"

definition buf_empty :: "kbd \<Rightarrow> bool" where
  "buf_empty k \<longleftrightarrow> buf_tail k = buf_head k"

definition keyboard_init :: "kbd \<Rightarrow> kbd" where
  "keyboard_init k = k\<lparr>buf_head := 0, buf_tail := 0, shift_held := False\<rparr>"

section \<open>The scancode handler\<close>

definition keyboard_handle_scancode :: "u8 \<Rightarrow> kbd \<Rightarrow> kbd" where
  "keyboard_handle_scancode scancode k =
     (if scancode AND 0x80 \<noteq> 0 then
        (let released = scancode AND 0x7F
         in if released = 0x2A \<or> released = 0x36 then k\<lparr>shift_held := False\<rparr> else k)
      else if scancode = 0x2A \<or> scancode = 0x36 then k\<lparr>shift_held := True\<rparr>
      else
        (let c = (if shift_held k then scancode_to_ascii_shift ! unat scancode
                  else scancode_to_ascii ! unat scancode)
         in if c \<noteq> 0 then buf_push c k else k))"

section \<open>Blocking read and line input\<close>

fun keyboard_read :: "kbd \<Rightarrow> u8 list \<Rightarrow> (u8 \<times> kbd \<times> u8 list) option" where
  "keyboard_read k [] =
     (if buf_empty k then None else (case buf_pop k of (c, k') \<Rightarrow> Some (c, k', [])))"
| "keyboard_read k (s # irqs) =
     (if buf_empty k then keyboard_read (keyboard_handle_scancode s k) irqs
      else (case buf_pop k of (c, k') \<Rightarrow> Some (c, k', s # irqs)))"

text \<open>
  The loop of \<^verbatim>\<open>keyboard_readline\<close>: the line buffer, the index, the keyboard, the
  pending interrupts and the screen. It returns when Enter is read or the buffer is full.
\<close>

partial_function (option) readline_loop ::
  "nat \<Rightarrow> bytes \<Rightarrow> nat \<Rightarrow> kbd \<Rightarrow> u8 list \<Rightarrow> vga \<Rightarrow> (bytes \<times> nat \<times> kbd \<times> u8 list \<times> vga) option" where
  "readline_loop mx buf i k irqs v =
     (if i < mx - 1 then
        (case keyboard_read k irqs of
           None \<Rightarrow> None
         | Some (c, k', irqs') \<Rightarrow>
             if c = 10 then Some (buf, i, k', irqs', vga_putchar 10 v)
             else if c = 8 then
               (if i > 0 then
                  (case vga_print (lit [CHR 8, CHR 32, CHR 8]) 0 v of
                     None \<Rightarrow> None
                   | Some v' \<Rightarrow> readline_loop mx buf (i - 1) k' irqs' v')
                else readline_loop mx buf i k' irqs' v)
             else
               (case aput buf i c of
                  None \<Rightarrow> None
                | Some buf' \<Rightarrow> readline_loop mx buf' (Suc i) k' irqs' (vga_putchar c v)))
      else Some (buf, i, k, irqs, v))"

definition keyboard_readline ::
  "bytes \<Rightarrow> nat \<Rightarrow> kbd \<Rightarrow> u8 list \<Rightarrow> vga \<Rightarrow> (bytes \<times> kbd \<times> u8 list \<times> vga) option" where
  "keyboard_readline buf mx k irqs v =
     (case readline_loop mx buf 0 k irqs v of
        None \<Rightarrow> None
      | Some (buf', i, k', irqs', v') \<Rightarrow>
          (case aput buf' i 0 of None \<Rightarrow> None | Some buf'' \<Rightarrow> Some (buf'', k', irqs', v')))"

section \<open>The ring buffer is a bounded queue\<close>

text \<open>
  The contract of a bounded queue whose push drops the element when full, and what its
  clients get from it: the order of a burst of pushes and of a run of pops.
\<close>

fun pop_n :: "('q \<Rightarrow> 'c \<times> 'q) \<Rightarrow> nat \<Rightarrow> 'q \<Rightarrow> 'c list \<times> 'q" where
  "pop_n pop 0 q = ([], q)"
| "pop_n pop (Suc n) q = (case pop q of (c, q1) \<Rightarrow>
     (case pop_n pop n q1 of (cs, q2) \<Rightarrow> (c # cs, q2)))"

locale bounded_fifo =
  fixes push :: "'c \<Rightarrow> 'q \<Rightarrow> 'q"
    and pop :: "'q \<Rightarrow> 'c \<times> 'q"
    and empty :: "'q \<Rightarrow> bool"
    and contents :: "'q \<Rightarrow> 'c list"
    and ok :: "'q \<Rightarrow> bool"
    and cap :: nat
  assumes push_ok: "ok q \<Longrightarrow> ok (push c q)"
    and push_contents: "ok q \<Longrightarrow>
      contents (push c q) = (if length (contents q) < cap then contents q @ [c] else contents q)"
    and pop_ok: "ok q \<Longrightarrow> ok (snd (pop q))"
    and pop_contents: "ok q \<Longrightarrow> contents q = c # cs \<Longrightarrow> fst (pop q) = c \<and> contents (snd (pop q)) = cs"
    and empty_contents: "ok q \<Longrightarrow> empty q \<longleftrightarrow> contents q = []"
    and contents_bound: "ok q \<Longrightarrow> length (contents q) \<le> cap"
begin

lemma pushes_contents:
  "ok q \<Longrightarrow> ok (fold push cs q) \<and>
   contents (fold push cs q) = contents q @ take (cap - length (contents q)) cs"
proof (induction cs arbitrary: q)
  case Nil
  then show ?case by simp
next
  case (Cons c cs)
  from Cons.IH [OF push_ok [OF Cons.prems], of c] show ?case
    using contents_bound [OF Cons.prems]
    by (auto simp: push_contents [OF Cons.prems] take_Cons')
qed

lemma pops_contents:
  "ok q \<Longrightarrow> n \<le> length (contents q) \<Longrightarrow>
   fst (pop_n pop n q) = take n (contents q) \<and> ok (snd (pop_n pop n q))
   \<and> contents (snd (pop_n pop n q)) = drop n (contents q)"
proof (induction n arbitrary: q)
  case 0
  then show ?case by simp
next
  case (Suc n)
  then obtain c cs where q: "contents q = c # cs" by (cases "contents q") auto
  from pop_contents [OF Suc.prems(1) q] obtain q1 where p: "pop q = (c, q1)" "contents q1 = cs"
    by (cases "pop q") auto
  with pop_ok [OF Suc.prems(1)] have "ok q1" by simp
  with Suc.IH [of q1] Suc.prems(2) p q show ?case by (auto split: prod.splits)
qed

lemma burst_then_drain:
  assumes "ok q" "contents q = []" "length cs \<le> cap"
  shows "fst (pop_n pop (length cs) (fold push cs q)) = cs"
  using pushes_contents [OF assms(1), of cs] pops_contents [of "fold push cs q" "length cs"] assms
  by simp

end

definition kbd_ok :: "kbd \<Rightarrow> bool" where
  "kbd_ok k \<longleftrightarrow> length (key_buffer k) = KEY_BUF_SIZE \<and> buf_head k < KEY_BUF_SIZE \<and> buf_tail k < KEY_BUF_SIZE"

definition kbd_len :: "kbd \<Rightarrow> nat" where
  "kbd_len k = (buf_head k + KEY_BUF_SIZE - buf_tail k) mod KEY_BUF_SIZE"

definition kbd_queue :: "kbd \<Rightarrow> bytes" where
  "kbd_queue k = map (\<lambda>i. key_buffer k ! ((buf_tail k + i) mod KEY_BUF_SIZE)) [0..<kbd_len k]"

lemma mod_256: "n < 512 \<Longrightarrow> n mod 256 = (if n < 256 then n else n - (256 :: nat))"
  by (simp add: mod_if)

lemma kbd_len_cases:
  "kbd_ok k \<Longrightarrow> kbd_len k = (if buf_tail k \<le> buf_head k then buf_head k - buf_tail k
     else buf_head k + KEY_BUF_SIZE - buf_tail k)"
  by (auto simp: kbd_len_def kbd_ok_def mod_256)

lemma kbd_okD:
  "kbd_ok k \<Longrightarrow> length (key_buffer k) = 256" "kbd_ok k \<Longrightarrow> buf_head k < 256"
  "kbd_ok k \<Longrightarrow> buf_tail k < 256"
  by (simp_all add: kbd_ok_def)

lemma ring_slots:
  fixes h t i :: nat
  assumes "h < 256" "t < 256"
  defines "n \<equiv> if t \<le> h then h - t else h + 256 - t"
  shows "(t + n) mod 256 = h" "i < n \<Longrightarrow> (t + i) mod 256 \<noteq> h" "n < 255 \<longleftrightarrow> (h + 1) mod 256 \<noteq> t"
  using assms by (auto simp: mod_256 split: if_splits)

lemma kbd_queue_push:
  assumes "kbd_ok k"
  shows "kbd_ok (buf_push c k)"
    "kbd_queue (buf_push c k) = (if length (kbd_queue k) < 255 then kbd_queue k @ [c] else kbd_queue k)"
proof -
  let ?h = "buf_head k" and ?t = "buf_tail k" and ?n = "(buf_head k + 1) mod 256"
  note ok = kbd_okD [OF assms]
  note ring = ring_slots [OF ok(2,3), folded kbd_len_cases [OF assms]]
  show ok': "kbd_ok (buf_push c k)" using assms by (auto simp: kbd_ok_def buf_push_def Let_def)
  show "kbd_queue (buf_push c k) = (if length (kbd_queue k) < 255 then kbd_queue k @ [c] else kbd_queue k)"
  proof (cases "?n = ?t")
    case True
    with ring(3) show ?thesis by (simp add: buf_push_def kbd_queue_def)
  next
    case False
    define k' where "k' = buf_push c k"
    have k': "key_buffer k' = (key_buffer k)[?h := c]" "buf_head k' = ?n" "buf_tail k' = ?t"
      using False by (simp_all add: k'_def buf_push_def)
    have len: "kbd_len k' = Suc (kbd_len k)"
      using ok False unfolding kbd_len_cases [OF assms] kbd_len_cases [OF ok', folded k'_def] k'
      by (auto simp: mod_256 split: if_splits)
    have "map (\<lambda>i. (key_buffer k)[?h := c] ! ((?t + i) mod 256)) [0..<kbd_len k] = kbd_queue k"
      unfolding kbd_queue_def using ring(2) by (intro map_cong) (metis atLeastLessThan_iff nth_list_update_neq set_upt)+
    then have "kbd_queue k' = kbd_queue k @ [c]"
      using ring(1) ok by (simp add: kbd_queue_def [of k'] k' len)
    moreover have "length (kbd_queue k) < 255" using ring(3) False by (simp add: kbd_queue_def)
    ultimately show ?thesis by (simp add: k'_def)
  qed
qed

lemma kbd_queue_pop:
  assumes "kbd_ok k"
  shows "kbd_ok (snd (buf_pop k))"
    "kbd_queue k = c # cs \<Longrightarrow> fst (buf_pop k) = c \<and> kbd_queue (snd (buf_pop k)) = cs"
proof -
  note ok = kbd_okD [OF assms]
  show ok': "kbd_ok (snd (buf_pop k))" using assms by (auto simp: kbd_ok_def buf_pop_def)
  assume q: "kbd_queue k = c # cs"
  then have pos: "0 < kbd_len k" by (cases "kbd_len k") (auto simp: kbd_queue_def)
  then have ne: "buf_tail k \<noteq> buf_head k" using kbd_len_cases [OF assms] by auto
  define k' where "k' = snd (buf_pop k)"
  have k': "key_buffer k' = key_buffer k" "buf_head k' = buf_head k"
      "buf_tail k' = (buf_tail k + 1) mod 256"
    using ne by (simp_all add: k'_def buf_pop_def)
  have len: "kbd_len k = Suc (kbd_len k')"
    using ok ne unfolding kbd_len_cases [OF assms] kbd_len_cases [OF ok', folded k'_def] k'
    by (auto simp: mod_256 split: if_splits)
  have "kbd_queue k = key_buffer k ! buf_tail k # kbd_queue k'"
    using ok by (simp add: kbd_queue_def len k' map_upt_Suc mod_simps del: upt_Suc)
  with q ne show "fst (buf_pop k) = c \<and> kbd_queue (snd (buf_pop k)) = cs"
    by (simp add: buf_pop_def k'_def)
qed

lemma kbd_len_less: "kbd_len k < 256"
  by (simp add: kbd_len_def)

interpretation kq: bounded_fifo buf_push buf_pop buf_empty kbd_queue kbd_ok 255
proof (unfold_locales, goal_cases)
  case (5 q)
  then show ?case
    using kbd_len_cases [of q] by (auto simp: buf_empty_def kbd_queue_def kbd_ok_def split: if_splits)
next
  case (6 q)
  then show ?case using kbd_len_less [of q] by (simp add: kbd_queue_def)
qed (simp_all add: kbd_queue_push kbd_queue_pop)

section \<open>What a reader sees: the stream of typed characters\<close>

definition translate :: "bool \<Rightarrow> u8 \<Rightarrow> u8" where
  "translate sh s = (if sh then scancode_to_ascii_shift ! unat s else scancode_to_ascii ! unat s)"

definition is_shift :: "u8 \<Rightarrow> bool" where
  "is_shift s \<longleftrightarrow> s = 0x2A \<or> s = 0x36"

text \<open>The characters a list of scancodes types, from a given state of the shift key.\<close>

fun typed :: "bool \<Rightarrow> u8 list \<Rightarrow> bytes" where
  "typed sh [] = []"
| "typed sh (s # ss) =
     (if s AND 0x80 \<noteq> 0 then typed (sh \<and> \<not> is_shift (s AND 0x7F)) ss
      else if is_shift s then typed True ss
      else if translate sh s \<noteq> 0 then translate sh s # typed sh ss
      else typed sh ss)"

definition kbd_stream :: "kbd \<Rightarrow> u8 list \<Rightarrow> bytes" where
  "kbd_stream k irqs = kbd_queue k @ typed (shift_held k) irqs"

lemma kbd_queue_upd [simp]:
  "kbd_queue (k\<lparr>shift_held := b\<rparr>) = kbd_queue k" "kbd_ok (k\<lparr>shift_held := b\<rparr>) = kbd_ok k"
  by (simp_all add: kbd_queue_def kbd_ok_def kbd_len_def)

lemma buf_shift [simp]: "shift_held (buf_push c k) = shift_held k" "shift_held (snd (buf_pop k)) = shift_held k"
  by (simp_all add: buf_push_def buf_pop_def Let_def)

lemma handle_scancode_ok: "kbd_ok k \<Longrightarrow> kbd_ok (keyboard_handle_scancode s k)"
  by (simp add: keyboard_handle_scancode_def Let_def kbd_queue_push)

text \<open>One interrupt moves one character from the pending scancodes into the queue.\<close>

lemma handle_scancode_stream:
  assumes "kbd_ok k" "length (kbd_queue k) < 255"
  shows "kbd_stream (keyboard_handle_scancode s k) irqs = kbd_stream k (s # irqs)"
  using assms
  by (auto simp: kbd_stream_def keyboard_handle_scancode_def Let_def is_shift_def translate_def
      kbd_queue_push)

lemma keyboard_read_stream:
  assumes "kbd_ok k"
  shows "case kbd_stream k irqs of
      [] \<Rightarrow> keyboard_read k irqs = None
    | c # cs \<Rightarrow> \<exists>k' irqs'. keyboard_read k irqs = Some (c, k', irqs') \<and> kbd_ok k'
        \<and> kbd_stream k' irqs' = cs"
  using assms
proof (induction irqs arbitrary: k)
  case Nil
  show ?case
  proof (cases "kbd_queue k")
    case (Cons c cs)
    with kq.pop_contents [OF Nil Cons] kq.pop_ok [OF Nil] kq.empty_contents [OF Nil] show ?thesis
      by (auto simp: kbd_stream_def split: prod.splits)
  qed (use kq.empty_contents [OF Nil] in \<open>simp add: kbd_stream_def\<close>)
next
  case (Cons s irqs)
  show ?case
  proof (cases "kbd_queue k")
    case Nil
    with Cons.IH [OF handle_scancode_ok [OF Cons.prems], of s] kq.empty_contents [OF Cons.prems]
      handle_scancode_stream [OF Cons.prems, of s irqs]
    show ?thesis by (simp split: list.splits)
  next
    case q: (Cons c cs)
    obtain q1 where p: "buf_pop k = (c, q1)" "kbd_queue q1 = cs"
      using kq.pop_contents [OF Cons.prems q] by (cases "buf_pop k") auto
    with buf_shift(2) [of k] have "shift_held q1 = shift_held k" by simp
    with q p kq.pop_ok [OF Cons.prems] kq.empty_contents [OF Cons.prems] show ?thesis
      by (simp add: kbd_stream_def del: typed.simps)
  qed
qed

section \<open>Specification of the line editor\<close>

text \<open>
  The line edited so far, the characters to come; the result is the line, the text echoed
  on the screen and the characters not consumed. \<^const>\<open>None\<close>: more input is needed.
\<close>

fun line_edit :: "nat \<Rightarrow> bytes \<Rightarrow> bytes \<Rightarrow> (bytes \<times> bytes \<times> bytes) option" where
  "line_edit mx acc [] = (if length acc < mx - 1 then None else Some (acc, [], []))"
| "line_edit mx acc (c # cs) =
     (if length acc < mx - 1 then
        if c = 10 then Some (acc, [10], cs)
        else if c = 8 then
          (if acc \<noteq> []
           then map_option (\<lambda>(l, e, r). (l, [8, 32, 8] @ e, r)) (line_edit mx (butlast acc) cs)
           else line_edit mx acc cs)
        else map_option (\<lambda>(l, e, r). (l, c # e, r)) (line_edit mx (acc @ [c]) cs)
      else Some (acc, [], c # cs))"

lemma line_edit_length: "line_edit mx acc cs = Some (l, e, r) \<Longrightarrow> length acc \<le> mx - 1 \<Longrightarrow> length l \<le> mx - 1"
  by (induction mx acc cs arbitrary: l e rule: line_edit.induct)
    (fastforce split: if_splits)+

lemma vga_print_erase: "vga_print (lit [CHR 8, CHR 32, CHR 8]) 0 v = Some (fold vga_putchar [8, 32, 8] v)"
  by (rule vga_print_str_at) (simp add: str_at_def lit_def ascii_def)

lemma readline_loop_edit:
  assumes "kbd_ok k" "take i buf = acc" "length acc = i" "mx \<le> length buf"
  shows "case line_edit mx acc (kbd_stream k irqs) of
      None \<Rightarrow> readline_loop mx buf i k irqs v = None
    | Some (l, e, r) \<Rightarrow> \<exists>buf' k' irqs'.
        readline_loop mx buf i k irqs v = Some (buf', length l, k', irqs', fold vga_putchar e v)
        \<and> take (length l) buf' = l \<and> length buf' = length buf \<and> drop (mx - 1) buf' = drop (mx - 1) buf
        \<and> kbd_ok k' \<and> kbd_stream k' irqs' = r"
  using assms
proof (induction "kbd_stream k irqs" arbitrary: acc i buf k irqs v)
  case Nil
  with keyboard_read_stream [OF Nil(2), of irqs] show ?case
    by (simp add: readline_loop.simps [of mx buf i] eq_commute [of "[]"])
next
  case (Cons c cs)
  note strm = Cons.hyps(2) [symmetric]
  from keyboard_read_stream [OF Cons.prems(1), of irqs] strm
  obtain k' irqs' where rd: "keyboard_read k irqs = Some (c, k', irqs')"
    and k': "kbd_ok k'" "kbd_stream k' irqs' = cs" by auto
  note IH = Cons.hyps(1) [OF k'(2) [symmetric] k'(1)]
  note unf = readline_loop.simps [of mx buf i k irqs v]
  show ?case
  proof (cases "i < mx - 1")
    case False
    with Cons.prems strm show ?thesis by (simp add: unf)
  next
    case lt: True
    then have ib: "i < length buf" using Cons.prems(4) by simp
    consider "c = 10" | "c = 8" "i = 0" | "c = 8" "0 < i" | "c \<noteq> 8" "c \<noteq> 10" by blast
    then show ?thesis
    proof cases
      case 1
      with lt Cons.prems strm rd k' show ?thesis by (auto simp: unf)
    next
      case 2
      then have "readline_loop mx buf i k irqs v = readline_loop mx buf i k' irqs' v"
        using lt rd by (subst unf) simp
      moreover have "line_edit mx acc (c # cs) = line_edit mx acc cs"
        using 2 lt Cons.prems(3) by simp
      ultimately show ?thesis using Cons.prems strm k' IH [of i buf acc v] by (simp only:)
    next
      case 3
      then have "acc \<noteq> []" using Cons.prems(3) by auto
      moreover have "take (i - 1) buf = butlast acc" "length (butlast acc) = i - 1"
        using Cons.prems(2,3) ib by (auto simp: butlast_take)
      ultimately show ?thesis
        using 3 lt Cons.prems strm rd k' IH [of "i - 1" buf "butlast acc" "fold vga_putchar [8, 32, 8] v"]
        by (auto simp: unf vga_print_erase split: option.splits)
    next
      case 4
      have "take (Suc i) (buf[i := c]) = acc @ [c]" "length (acc @ [c]) = Suc i"
        using Cons.prems(2,3) ib by (auto simp: take_Suc_conv_app_nth)
      moreover have "drop (mx - 1) (buf[i := c]) = drop (mx - 1) buf" using lt by simp
      ultimately show ?thesis
        using 4 lt ib Cons.prems strm rd k' IH [of "Suc i" "buf[i := c]" "acc @ [c]" "vga_putchar c v"]
        by (auto simp: unf split: option.splits)
    qed
  qed
qed

section \<open>Properties\<close>

text \<open>
  The key buffer is a bounded FIFO: from an empty buffer, a burst of at most 255
  characters pushed by interrupts is popped in order and none is lost; a character pushed
  on 255 pending ones is dropped and disturbs nothing.
\<close>

theorem key_buffer_fifo:
  assumes "kbd_ok k"
  shows "(kbd_queue k = [] \<and> length cs \<le> 255 \<longrightarrow> fst (pop_n buf_pop (length cs) (fold buf_push cs k)) = cs)
    \<and> (length (kbd_queue k) = 255 \<longrightarrow> kbd_queue (buf_push c k) = kbd_queue k)"
  using kq.burst_then_drain [OF assms] kq.push_contents [OF assms] by auto

theorem key_buffer_fifo_witness:
  "fst (pop_n buf_pop (length [97, 98, 99 :: u8]) (fold buf_push [97, 98, 99]
     \<lparr>key_buffer = replicate 256 0, buf_head = 254, buf_tail = 254, shift_held = False\<rparr>)) = [97, 98, 99]"
  using key_buffer_fifo [of "\<lparr>key_buffer = replicate 256 0, buf_head = 254, buf_tail = 254, shift_held = False\<rparr>"
      "[97, 98, 99]"]
  by (simp add: kbd_ok_def kbd_queue_def kbd_len_def)

text \<open>
  The IRQ1 handler delivers typed characters in order: while the buffer has room, handling
  one scancode and then reading sees exactly the characters that scancode and the later ones
  type under the current state of the shift keys (releases and shift presses type nothing).
\<close>

theorem scancode_delivery:
  assumes "kbd_ok k" and "length (kbd_queue k) < 255"
  shows "kbd_ok (keyboard_handle_scancode s k)
    \<and> kbd_stream (keyboard_handle_scancode s k) irqs = kbd_queue k @ typed (shift_held k) (s # irqs)"
  using assms handle_scancode_ok handle_scancode_stream [OF assms] by (simp add: kbd_stream_def)

theorem scancode_delivery_witness:
  "kbd_stream (keyboard_handle_scancode 0x2A
     (keyboard_init \<lparr>key_buffer = replicate 256 0, buf_head = 7, buf_tail = 9, shift_held = True\<rparr>))
     [0x1E, 0xAA, 0x1E] = ascii ''Aa''"
proof -
  have "typed False [0x2A, 0x1E, 0xAA, 0x1E] = ascii ''Aa''" by code_simp
  then show ?thesis
    using scancode_delivery [of "keyboard_init \<lparr>key_buffer = replicate 256 0, buf_head = 7, buf_tail = 9,
        shift_held = True\<rparr>" "0x2A" "[0x1E, 0xAA, 0x1E]"]
    by (simp add: kbd_ok_def keyboard_init_def kbd_queue_def kbd_len_def)
qed

lemma readline_edits:
  assumes "kbd_ok k" and "1 \<le> mx" and "mx \<le> length buf"
  shows "case line_edit mx [] (kbd_stream k irqs) of
      None \<Rightarrow> keyboard_readline buf mx k irqs v = None
    | Some (l, e, r) \<Rightarrow> \<exists>buf' k' irqs'.
        keyboard_readline buf mx k irqs v = Some (buf', k', irqs', fold vga_putchar e v)
        \<and> length l < mx \<and> take (length l + 1) buf' = l @ [0] \<and> length buf' = length buf
        \<and> drop mx buf' = drop mx buf \<and> kbd_ok k' \<and> kbd_stream k' irqs' = r"
proof (cases "line_edit mx [] (kbd_stream k irqs)")
  case None
  with readline_loop_edit [OF assms(1), of 0 buf "[]" mx irqs v] assms(3) show ?thesis
    by (simp add: keyboard_readline_def)
next
  case (Some p)
  obtain l e r where p: "p = (l, e, r)" by (cases p)
  with Some readline_loop_edit [OF assms(1), of 0 buf "[]" mx irqs v] assms(3)
  obtain b k' irqs' where rl: "readline_loop mx buf 0 k irqs v = Some (b, length l, k', irqs', fold vga_putchar e v)"
    "take (length l) b = l" "length b = length buf" "drop (mx - 1) b = drop (mx - 1) buf"
    "kbd_ok k'" "kbd_stream k' irqs' = r" by auto
  from line_edit_length [of mx "[]"] Some p assms(2) have len: "length l < mx" by fastforce
  have "drop mx b = drop mx buf"
    using arg_cong [OF rl(4), of "drop 1"] assms(2) by simp
  with len rl assms(3) Some p show ?thesis
    by (simp add: keyboard_readline_def take_Suc_conv_app_nth)
qed

text \<open>
  (C24) keyboard_readline computes the line editor on the typed characters: it blocks exactly
  while neither Enter nor a full buffer has been reached, and otherwise returns with the edited
  line and its NUL in the buffer, no byte from index max on changed, the echo on the screen and
  the rest of the input still pending.
\<close>

theorem keyboard_readline_edits:
  assumes "kbd_ok k" and "1 \<le> mx" and "mx \<le> length buf"
  shows "case line_edit mx [] (kbd_stream k irqs) of
      None \<Rightarrow> keyboard_readline buf mx k irqs v = None
    | Some (l, e, r) \<Rightarrow> \<exists>buf' k' irqs'.
        keyboard_readline buf mx k irqs v = Some (buf', k', irqs', fold vga_putchar e v)
        \<and> length l < mx \<and> take (length l + 1) buf' = l @ [0] \<and> length buf' = length buf
        \<and> drop mx buf' = drop mx buf \<and> kbd_ok k' \<and> kbd_stream k' irqs' = r"
  using assms by (rule readline_edits)

theorem keyboard_readline_edits_witness:
  "\<exists>buf' k' irqs' v'. keyboard_readline (replicate 128 7) 128
     \<lparr>key_buffer = replicate 256 0, buf_head = 0, buf_tail = 0, shift_held = False\<rparr>
     [0x26, 0x9F, 0x1E, 0x0E, 0x1F, 0x1C]
     \<lparr>vmem = \<lambda>_. 0, cursor_row = 0, cursor_col = 0, current_color = 7\<rparr> = Some (buf', k', irqs', v')
     \<and> take 3 buf' = ascii ''ls'' @ [0]"
proof -
  let ?k = "\<lparr>key_buffer = replicate 256 0, buf_head = 0, buf_tail = 0, shift_held = False\<rparr> :: kbd"
  have "typed False [0x26, 0x9F, 0x1E, 0x0E, 0x1F, 0x1C] = [108, 97, 8, 115, 10]" by code_simp
  then have "kbd_stream ?k [0x26, 0x9F, 0x1E, 0x0E, 0x1F, 0x1C] = [108, 97, 8, 115, 10]"
    by (simp add: kbd_stream_def kbd_queue_def kbd_len_def)
  moreover have "line_edit 128 [] [108, 97, 8, 115, 10] = Some (ascii ''ls'', [108, 97, 8, 32, 8, 115, 10], [])"
    by code_simp
  ultimately show ?thesis
    using keyboard_readline_edits [of ?k 128 "replicate 128 7" "[0x26, 0x9F, 0x1E, 0x0E, 0x1F, 0x1C]"
        "\<lparr>vmem = \<lambda>_. 0, cursor_row = 0, cursor_col = 0, current_color = 7\<rparr>"]
    by (auto simp: kbd_ok_def ascii_def numeral_3_eq_3)
qed

end
