(* ===== verification/Bh_Timer.thy ===== *)
theory Bh_Timer
  imports Bh_Ata Bh_Keyboard
begin

text \<open>
  The interval timer, \<^verbatim>\<open>drivers/timer.c\<close>. Interrupts are an input sequence: the timer
  interrupt advances the tick counter, the keyboard interrupt hands a scancode to the keyboard
  driver. A thread that waits in \<^verbatim>\<open>hlt\<close> consumes them one by one; waiting for an
  interrupt that never comes, and a division by zero, are the value \<^const>\<open>None\<close>.
\<close>

section \<open>Operations\<close>

record timer =
  tick :: u32
  current_freq :: u32

text \<open>The scheduler the callback ends with is a parameter, since it belongs to another component.\<close>

definition timer_callback :: "('s \<Rightarrow> 's option) \<Rightarrow> timer \<Rightarrow> 's \<Rightarrow> (timer \<times> 's) option" where
  "timer_callback task_switch t s = do { s' \<leftarrow> task_switch s; Some (t\<lparr>tick := tick t + 1\<rparr>, s') }"

definition timer_init :: "'p ports \<Rightarrow> u32 \<Rightarrow> timer \<Rightarrow> 'p \<Rightarrow> (timer \<times> 'p) option" where
  "timer_init P frequency t d =
     (let t1 = t\<lparr>current_freq := frequency\<rparr>
      in if frequency = 0 then None
         else let divisor = 1193182 div frequency;
                  d1 = p_outb P 0x43 0x36 d;
                  d2 = p_outb P 0x40 (ucast (divisor AND 0xFF)) d1;
                  d3 = p_outb P 0x40 (ucast (drop_bit 8 divisor AND 0xFF)) d2
              in Some (t1, d3))"

definition timer_get_ticks :: "timer \<Rightarrow> u32" where
  "timer_get_ticks t = tick t"

datatype irq = Irq_timer | Irq_key u8

fun sleep_loop :: "u32 \<Rightarrow> irq list \<Rightarrow> timer \<Rightarrow> kbd \<Rightarrow> (irq list \<times> timer \<times> kbd) option" where
  "sleep_loop until [] t k = (if tick t < until then None else Some ([], t, k))"
| "sleep_loop until (i # irqs) t k =
     (if tick t < until then
        (case i of Irq_timer \<Rightarrow> sleep_loop until irqs (t\<lparr>tick := tick t + 1\<rparr>) k
         | Irq_key sc \<Rightarrow> sleep_loop until irqs t (keyboard_handle_scancode sc k))
      else Some (i # irqs, t, k))"

definition sleep :: "u32 \<Rightarrow> irq list \<Rightarrow> timer \<Rightarrow> kbd \<Rightarrow> (irq list \<times> timer \<times> kbd) option" where
  "sleep ms irqs t k =
     (if current_freq t = 0 then None
      else if 1000 div current_freq t = 0 then None
      else let ticks_to_wait = ms div (1000 div current_freq t)
           in sleep_loop (tick t + ticks_to_wait) irqs t k)"

section \<open>Waiting\<close>

text \<open>The first part of the input with \<open>n\<close> timer interrupts, ending with the last of them.\<close>

fun upto_ticks :: "nat \<Rightarrow> irq list \<Rightarrow> (irq list \<times> irq list) option" where
  "upto_ticks 0 irqs = Some ([], irqs)"
| "upto_ticks (Suc n) [] = None"
| "upto_ticks (Suc n) (Irq_timer # irqs) = map_option (apfst (Cons Irq_timer)) (upto_ticks n irqs)"
| "upto_ticks (Suc n) (Irq_key sc # irqs) = map_option (apfst (Cons (Irq_key sc))) (upto_ticks (Suc n) irqs)"

definition scancodes :: "irq list \<Rightarrow> u8 list" where
  "scancodes irqs = concat (map (\<lambda>i. case i of Irq_timer \<Rightarrow> [] | Irq_key sc \<Rightarrow> [sc]) irqs)"

lemma scancodes_simps [simp]: "scancodes [] = []" "scancodes (Irq_timer # irqs) = scancodes irqs"
  "scancodes (Irq_key sc # irqs) = sc # scancodes irqs"
  by (simp_all add: scancodes_def)

definition timer_irqs :: "irq list \<Rightarrow> nat" where
  "timer_irqs irqs = count_list irqs Irq_timer"

lemma upto_ticks_None: "upto_ticks n irqs = None \<longleftrightarrow> timer_irqs irqs < n"
  by (induction n irqs rule: upto_ticks.induct) (auto simp: timer_irqs_def)

lemma upto_ticks_Some:
  "upto_ticks n irqs = Some (now, later) \<Longrightarrow>
   irqs = now @ later \<and> timer_irqs now = n \<and> (now = [] \<longleftrightarrow> n = 0) \<and> (now \<noteq> [] \<longrightarrow> last now = Irq_timer)"
  by (induction n irqs arbitrary: "now" later rule: upto_ticks.induct) (auto simp: timer_irqs_def split: if_splits)

lemma sleep_loop_upto:
  "unat (tick t) + n < 2 ^ 32 \<Longrightarrow> until = tick t + of_nat n \<Longrightarrow>
   sleep_loop until irqs t k = (case upto_ticks n irqs of None \<Rightarrow> None
     | Some (now, later) \<Rightarrow> Some (later, t\<lparr>tick := until\<rparr>, fold keyboard_handle_scancode (scancodes now) k))"
proof (induction n irqs arbitrary: t k rule: upto_ticks.induct)
  case (1 irqs)
  then show ?case by (cases irqs) simp_all
next
  case (2 n)
  have "unat (of_nat (Suc n) :: u32) = Suc n" using 2(1) by (intro unat_of_nat32) simp
  with 2 have "unat (tick t) < unat until" by (simp add: unat_word_ariths)
  then show ?case by (simp add: word_less_nat_alt)
next
  case (3 n irqs)
  have u: "unat (of_nat (Suc n) :: u32) = Suc n" using 3(2) by (intro unat_of_nat32) simp
  with 3 have lt: "tick t < until" by (simp add: unat_word_ariths word_less_nat_alt)
  have t1: "unat (tick t + 1) = unat (tick t) + 1" by (rule unat_inc [OF lt])
  have "sleep_loop until irqs (t\<lparr>tick := tick t + 1\<rparr>) k
      = (case upto_ticks n irqs of None \<Rightarrow> None
         | Some (now, later) \<Rightarrow> Some (later, (t\<lparr>tick := tick t + 1\<rparr>)\<lparr>tick := until\<rparr>, fold keyboard_handle_scancode (scancodes now) k))"
    using 3(2,3) t1 by (intro 3(1)) (simp_all add: algebra_simps)
  with lt show ?case by (auto split: option.splits)
next
  case (4 n sc irqs)
  have u: "unat (of_nat (Suc n) :: u32) = Suc n" using 4(2) by (intro unat_of_nat32) simp
  with 4 have lt: "tick t < until" by (simp add: unat_word_ariths word_less_nat_alt)
  from 4(1) [OF 4(2,3), of "keyboard_handle_scancode sc k"] lt show ?case by (auto split: option.splits)
qed

section \<open>Properties\<close>

lemma ms_per_tick: "0 < f \<Longrightarrow> f \<le> 1000 \<Longrightarrow> f \<noteq> 0 \<and> 1000 div (f :: u32) \<noteq> 0"
proof
  assume f: "0 < f" "f \<le> 1000"
  then have "0 < 1000 div unat f" by (simp add: div_greater_zero_iff word_less_nat_alt word_le_nat_alt)
  moreover have "unat (1000 div f) = 1000 div unat f" by (simp add: unat_div)
  ultimately show "1000 div f \<noteq> 0" by auto
qed simp

text \<open>
  (C33) Liveness of waiting: with a frequency between 1 and 1000 and no overflow of the counter,
  \<^verbatim>\<open>sleep\<close> returns as soon as the timer has interrupted the right number of times and
  not before; keys typed meanwhile reach the key buffer in order; it waits for ever exactly if
  the timer stops too early.
\<close>

theorem sleep_waits:
  assumes "0 < current_freq t" "current_freq t \<le> 1000"
    and "unat (tick t) + unat ms div (1000 div unat (current_freq t)) < 2 ^ 32"
  defines "n \<equiv> unat ms div (1000 div unat (current_freq t))"
  shows "if timer_irqs irqs < n then sleep ms irqs t k = None
     else \<exists>now later. irqs = now @ later \<and> timer_irqs now = n \<and> (now \<noteq> [] \<longrightarrow> last now = Irq_timer)
       \<and> sleep ms irqs t k = Some (later, t\<lparr>tick := tick t + of_nat n\<rparr>, fold keyboard_handle_scancode (scancodes now) k)"
proof -
  note nz = ms_per_tick [OF assms(1,2)]
  have q: "unat (ms div (1000 div current_freq t)) = n" by (simp add: unat_div n_def)
  have "ms div (1000 div current_freq t) = of_nat n" using q by (metis of_nat_unat ucast_id)
  then have sl: "sleep ms irqs t k = sleep_loop (tick t + of_nat n) irqs t k"
    using nz by (simp add: sleep_def)
  have lt: "unat (tick t) + n < 2 ^ 32" using assms(3) by (simp add: n_def)
  note l = sleep_loop_upto [OF lt refl, of irqs k]
  show ?thesis
  proof (cases "upto_ticks n irqs")
    case None
    then show ?thesis using l sl upto_ticks_None [of n irqs] by simp
  next
    case (Some x)
    obtain "now" later where x: "x = (now, later)" by (cases x)
    have "\<not> timer_irqs irqs < n" using Some upto_ticks_None [of n irqs] by simp
    with Some x l sl upto_ticks_Some [of n irqs "now" later] show ?thesis by auto
  qed
qed

theorem sleep_waits_witness:
  "sleep 20 [Irq_timer, Irq_key 0x9E, Irq_timer, Irq_timer] \<lparr>tick = 7, current_freq = 100\<rparr>
     \<lparr>key_buffer = replicate 256 0, buf_head = 0, buf_tail = 0, shift_held = False\<rparr> \<noteq> None"
  using sleep_waits [of "\<lparr>tick = 7, current_freq = 100\<rparr>" 20 "[Irq_timer, Irq_key 0x9E, Irq_timer, Irq_timer]"
      "\<lparr>key_buffer = replicate 256 0, buf_head = 0, buf_tail = 0, shift_held = False\<rparr>"]
  by (auto simp: timer_irqs_def)

text \<open>
  Where waiting goes wrong: a frequency of 0 or above 1000 makes \<^verbatim>\<open>sleep\<close> divide by
  zero, and a deadline behind the wrap-around of the tick counter makes it return at once.
\<close>

theorem sleep_edges:
  "(current_freq t = 0 \<or> 1000 < current_freq t \<longrightarrow> sleep ms irqs t k = None)
   \<and> (0 < current_freq t \<and> current_freq t \<le> 1000
        \<and> 2 ^ 32 \<le> unat (tick t) + unat ms div (1000 div unat (current_freq t)) \<longrightarrow>
      sleep ms irqs t k = Some (irqs, t, k))"
proof (intro conjI impI)
  assume "current_freq t = 0 \<or> 1000 < current_freq t"
  moreover have "1000 div current_freq t = 0" if "1000 < current_freq t"
    using that by (simp add: word_unat_eq_iff unat_div word_less_nat_alt)
  ultimately show "sleep ms irqs t k = None" by (auto simp: sleep_def)
next
  assume a: "0 < current_freq t \<and> current_freq t \<le> 1000
        \<and> 2 ^ 32 \<le> unat (tick t) + unat ms div (1000 div unat (current_freq t))"
  let ?n = "ms div (1000 div current_freq t)"
  have n: "unat ?n = unat ms div (1000 div unat (current_freq t))" by (simp add: unat_div)
  have "current_freq t \<noteq> 0" "1000 div current_freq t \<noteq> 0" using a ms_per_tick by blast+
  then have sl: "sleep ms irqs t k = sleep_loop (tick t + ?n) irqs t k" by (simp add: sleep_def)
  let ?s = "unat (tick t) + unat ?n"
  have s: "2 ^ 32 \<le> ?s" "?s - 2 ^ 32 < 2 ^ 32" "?s - 2 ^ 32 \<le> unat (tick t)"
    using a n unat_lt2p_u32 [of "tick t"] unat_lt2p_u32 [of ?n] by linarith+
  have "unat (tick t + ?n) = ?s mod 2 ^ 32" by (simp only: unat_word_ariths len_bit0 len_num1) simp
  also have "\<dots> = (?s - 2 ^ 32) mod 2 ^ 32" by (rule le_mod_geq [OF s(1)])
  also have "\<dots> = ?s - 2 ^ 32" by (rule mod_less [OF s(2)])
  finally have "unat (tick t + ?n) \<le> unat (tick t)" using s(3) by simp
  then have "\<not> tick t < tick t + ?n" by (simp only: word_less_nat_alt not_less)
  with sl show "sleep ms irqs t k = Some (irqs, t, k)" by (cases irqs) simp_all
qed

theorem sleep_edges_witness:
  "sleep 1000 [] \<lparr>tick = 4294967290, current_freq = 100\<rparr>
     \<lparr>key_buffer = replicate 256 0, buf_head = 0, buf_tail = 0, shift_held = False\<rparr>
   = Some ([], \<lparr>tick = 4294967290, current_freq = 100\<rparr>,
       \<lparr>key_buffer = replicate 256 0, buf_head = 0, buf_tail = 0, shift_held = False\<rparr>)"
  using sleep_edges [of "\<lparr>tick = 4294967290, current_freq = 100\<rparr>" 1000 "[]"
      "\<lparr>key_buffer = replicate 256 0, buf_head = 0, buf_tail = 0, shift_held = False\<rparr>"] by simp

text \<open>
  The programmed rate: the command byte, the low and the high byte of the divisor go out in
  this order; from 19 Hz on the 16 bits are the divisor, the largest whose rate is not below the
  one asked for; below 19 Hz its upper bits are lost; 0 Hz divides by zero.
\<close>

theorem timer_init_rate:
  "if f = 0 then timer_init P f t d = None
   else \<exists>lo hi. timer_init P f t d
          = Some (t\<lparr>current_freq := f\<rparr>, p_outb P 0x40 hi (p_outb P 0x40 lo (p_outb P 0x43 0x36 d)))
      \<and> unat (word_of_bytes lo hi) = 1193182 div unat f mod 65536
      \<and> (19 \<le> f \<longrightarrow> unat (word_of_bytes lo hi) * unat f \<le> 1193182 \<and> 1193182 < (unat (word_of_bytes lo hi) + 1) * unat f)
      \<and> (f < 19 \<longrightarrow> unat (word_of_bytes lo hi) \<noteq> 1193182 div unat f)"
proof (cases "f = 0")
  case False
  let ?q = "1193182 div f"
  let ?w = "word_of_bytes (ucast (?q AND 0xFF)) (ucast (drop_bit 8 ?q AND 0xFF))"
  have b: "(0xFF :: u32) = mask 8" by (simp add: mask_eq_exp_minus_1)
  have w: "?w = ucast ?q"
    unfolding word_of_bytes_def b by (rule bit_word_eqI) (auto simp: bit_simps)
  have q: "unat ?q = 1193182 div unat f" by (simp add: unat_div)
  have u: "unat ?w = 1193182 div unat f mod 65536"
    unfolding w by (simp add: unsigned_ucast_eq q take_bit_eq_mod)
  have f0: "0 < unat f" using False by (simp add: unat_gt_0)
  have hi: "unat ?w * unat f \<le> 1193182 \<and> 1193182 < (unat ?w + 1) * unat f" if "19 \<le> f"
  proof -
    have "19 \<le> unat f" using that by (simp add: word_le_nat_alt)
    then have "1193182 div unat f \<le> 1193182 div 19" by (rule div_le_mono2 [rotated]) simp
    then have "unat ?w = 1193182 div unat f" unfolding u by simp
    moreover have "1193182 div unat f * unat f \<le> 1193182" by (rule div_times_less_eq_dividend)
    moreover have "1193182 < (1193182 div unat f + 1) * unat f" using dividend_less_div_times [OF f0, of 1193182] by simp
    ultimately show ?thesis by simp
  qed
  have lo: "unat ?w \<noteq> 1193182 div unat f" if "f < 19"
  proof -
    have "unat f \<le> 18" using that by (simp add: word_less_nat_alt)
    then have "1193182 div 18 \<le> 1193182 div unat f" using f0 by (intro div_le_mono2) simp_all
    moreover have "1193182 div unat f mod 65536 < 65536" by simp
    ultimately show ?thesis unfolding u by simp
  qed
  show ?thesis
    using False u hi lo
    by (simp only: if_False timer_init_def Let_def)
      (intro exI [of _ "ucast (?q AND 0xFF)"] exI [of _ "ucast (drop_bit 8 ?q AND 0xFF)"], simp)
qed (simp add: timer_init_def)

theorem timer_init_rate_witness:
  "\<exists>lo hi. timer_init \<lparr>p_inb = \<lambda>_ d. (0, d), p_outb = \<lambda>p v d. d @ [(p, v)], p_inw = \<lambda>_ d. (0, d), p_outw = \<lambda>_ _ d. d\<rparr> 100
       \<lparr>tick = 0, current_freq = 7\<rparr> [] = Some (\<lparr>tick = 0, current_freq = 100\<rparr>, [(0x43, 0x36), (0x40, lo), (0x40, hi)])
     \<and> unat (word_of_bytes lo hi) = 11931"
  using timer_init_rate [of 100 "\<lparr>p_inb = \<lambda>_ d. (0, d), p_outb = \<lambda>p v d. d @ [(p, v)], p_inw = \<lambda>_ d. (0, d),
      p_outw = \<lambda>_ _ d. d\<rparr>" "\<lparr>tick = 0, current_freq = 7\<rparr>" "[]"] by auto

end
