(* ===== verification/Bh_Mem.thy ===== *)
theory Bh_Mem
  imports Bh_Prelude
begin

text \<open>
  The flat physical memory of the kernel (identity mapped), a byte per 32-bit address, and
  the little-endian 32-bit accesses of the compiled code. Addresses that matter stay far
  below the end of the address space, so the lemmas speak of them as natural numbers.
\<close>

type_synonym mem = "u32 \<Rightarrow> u8"

definition ld32 :: "mem \<Rightarrow> u32 \<Rightarrow> u32" where
  "ld32 m a = ucast (m a) OR push_bit 8 (ucast (m (a + 1))) OR push_bit 16 (ucast (m (a + 2)))
     OR push_bit 24 (ucast (m (a + 3)))"

definition st32 :: "mem \<Rightarrow> u32 \<Rightarrow> u32 \<Rightarrow> mem" where
  "st32 m a v = m(a := ucast v, a + 1 := ucast (drop_bit 8 v), a + 2 := ucast (drop_bit 16 v),
     a + 3 := ucast (drop_bit 24 v))"

text \<open>Two memories agree on a range of addresses.\<close>

definition same_on :: "nat \<Rightarrow> nat \<Rightarrow> mem \<Rightarrow> mem \<Rightarrow> bool" where
  "same_on lo hi m m' \<longleftrightarrow> (\<forall>i. lo \<le> i \<and> i < hi \<longrightarrow> m' (of_nat i) = m (of_nat i))"

lemma same_on_refl [simp]: "same_on lo hi m m"
  by (simp add: same_on_def)

lemma same_on_trans: "same_on lo hi m m' \<Longrightarrow> same_on lo hi m' m'' \<Longrightarrow> same_on lo hi m m''"
  by (simp add: same_on_def)

lemma same_on_mono: "same_on lo hi m m' \<Longrightarrow> lo \<le> lo' \<Longrightarrow> hi' \<le> hi \<Longrightarrow> same_on lo' hi' m m'"
  by (simp add: same_on_def)

lemma of_nat_inj32: "i < 2 ^ 32 \<Longrightarrow> j < 2 ^ 32 \<Longrightarrow> (of_nat i :: u32) = of_nat j \<longleftrightarrow> i = j"
  by (metis unat_of_nat32)

lemma small_ne: "(a :: u32) + 1 \<noteq> a" "a + 2 \<noteq> a" "a + 3 \<noteq> a" "a + 2 \<noteq> a + 1" "a + 3 \<noteq> a + 1" "a + 3 \<noteq> a + 2"
  by simp_all

lemma ld32_st32_same [simp]: "ld32 (st32 m a v) a = v"
proof -
  have *: "st32 m a v a = ucast v" "st32 m a v (a + 1) = ucast (drop_bit 8 v)"
    "st32 m a v (a + 2) = ucast (drop_bit 16 v)" "st32 m a v (a + 3) = ucast (drop_bit 24 v)"
    by (simp_all add: st32_def)
  show ?thesis
    unfolding ld32_def *
  proof (rule bit_word_eqI)
    fix n assume "n < LENGTH(32)"
    then show "bit (ucast (ucast v :: u8) OR push_bit 8 (ucast (ucast (drop_bit 8 v) :: u8)) OR
        push_bit 16 (ucast (ucast (drop_bit 16 v) :: u8)) OR
        push_bit 24 (ucast (ucast (drop_bit 24 v) :: u8)) :: u32) n = bit v n"
      by (cases "n < 8"; cases "n < 16"; cases "n < 24") (auto simp: bit_simps)
  qed
qed

lemma st32_same_on:
  assumes "p + 4 \<le> 2 ^ 32" "hi \<le> 2 ^ 32" "hi \<le> p \<or> p + 4 \<le> lo"
  shows "same_on lo hi m (st32 m (of_nat p) v)"
proof -
  have "st32 m (of_nat p) v (of_nat i) = m (of_nat i)" if "lo \<le> i" "i < hi" for i
  proof -
    have ne: "(of_nat i :: u32) \<noteq> of_nat (p + d)" if "d < 4" for d
      using that \<open>lo \<le> i\<close> \<open>i < hi\<close> assms by (subst of_nat_inj32) auto
    show ?thesis using ne [of 0] ne [of 1] ne [of 2] ne [of 3] by (simp add: st32_def add.commute)
  qed
  then show ?thesis by (simp add: same_on_def)
qed

lemma ld32_same_on: "same_on p (p + 4) m m' \<Longrightarrow> ld32 m' (of_nat p) = ld32 m (of_nat p)"
proof -
  assume s: "same_on p (p + 4) m m'"
  have "m' (of_nat (p + d)) = m (of_nat (p + d))" if "d < 4" for d
    using s that by (auto simp: same_on_def simp del: of_nat_add)
  from this [of 0] this [of 1] this [of 2] this [of 3] show ?thesis by (simp add: ld32_def add.commute)
qed

lemma ld32_st32_other:
  assumes "p + 4 \<le> 2 ^ 32" "q + 4 \<le> 2 ^ 32" "q + 4 \<le> p \<or> p + 4 \<le> q"
  shows "ld32 (st32 m (of_nat p) v) (of_nat q) = ld32 m (of_nat q)"
  using assms by (intro ld32_same_on st32_same_on) auto

end
