(* ===== verification/Bh_Heap.thy ===== *)
theory Bh_Heap
  imports Bh_Mem
begin

text \<open>
  The kernel heap, \<^verbatim>\<open>kernel/memory.c\<close>: a first-fit free list whose 12-byte headers
  (\<^verbatim>\<open>size\<close>, \<^verbatim>\<open>is_free\<close>, \<^verbatim>\<open>next\<close>) lie in the
  heap itself, in the flat memory. The list walks are \<^theory_text>\<open>partial_function\<close>s: on a
  corrupted heap they need not end. The abstract heap is the list of the blocks (size, free)
  that tile the megabyte; allocation and release are shown to implement first fit with split
  and full coalescing on it. The locale \<open>allocator\<close> states the contract the clients use.
\<close>

section \<open>Header access\<close>

definition HEAP_START :: u32 where "HEAP_START = 0x100000"
definition HEAP_SIZE :: u32 where "HEAP_SIZE = 0x100000"

definition hdr_size :: "mem \<Rightarrow> u32 \<Rightarrow> u32" where "hdr_size m b = ld32 m b"
definition hdr_is_free :: "mem \<Rightarrow> u32 \<Rightarrow> u32" where "hdr_is_free m b = ld32 m (b + 4)"
definition hdr_next :: "mem \<Rightarrow> u32 \<Rightarrow> u32" where "hdr_next m b = ld32 m (b + 8)"

definition set_size :: "u32 \<Rightarrow> u32 \<Rightarrow> mem \<Rightarrow> mem" where "set_size b x m = st32 m b x"
definition set_is_free :: "u32 \<Rightarrow> u32 \<Rightarrow> mem \<Rightarrow> mem" where "set_is_free b x m = st32 m (b + 4) x"
definition set_next :: "u32 \<Rightarrow> u32 \<Rightarrow> mem \<Rightarrow> mem" where "set_next b x m = st32 m (b + 8) x"

abbreviation (input) sizeof_header :: u32 where "sizeof_header \<equiv> 12"

text \<open>\<^verbatim>\<open>free_list\<close> is only ever its initial value.\<close>

definition free_list :: u32 where "free_list = HEAP_START"

section \<open>Operations\<close>

definition memory_init :: "mem \<Rightarrow> mem" where
  "memory_init m =
     set_next free_list 0 (set_is_free free_list 1
       (set_size free_list (HEAP_SIZE - sizeof_header) m))"

text \<open>The body of the walk on a block that fits: split if the rest can hold a header, then take.\<close>

definition alloc_block :: "u32 \<Rightarrow> u32 \<Rightarrow> mem \<Rightarrow> mem" where
  "alloc_block aligned_size current m =
     (let m' =
        (if hdr_size m current \<ge> aligned_size + sizeof_header + 4 then
           (let new_block = current + sizeof_header + aligned_size;
                m1 = set_size new_block (hdr_size m current - aligned_size - sizeof_header) m;
                m2 = set_is_free new_block 1 m1;
                m3 = set_next new_block (hdr_next m2 current) m2;
                m4 = set_size current aligned_size m3
            in set_next current new_block m4)
         else m)
      in set_is_free current 0 m')"

partial_function (option) alloc_loop :: "u32 \<Rightarrow> u32 \<Rightarrow> mem \<Rightarrow> (u32 \<times> mem) option" where
  "alloc_loop aligned_size current m =
     (if current \<noteq> 0 then
        if hdr_is_free m current \<noteq> 0 \<and> hdr_size m current \<ge> aligned_size
        then Some (current + sizeof_header, alloc_block aligned_size current m)
        else alloc_loop aligned_size (hdr_next m current) m
      else Some (0, m))"

definition memory_alloc :: "u32 \<Rightarrow> mem \<Rightarrow> (u32 \<times> mem) option" where
  "memory_alloc sz m =
     (if sz = 0 then Some (0, m)
      else alloc_loop ((sz + 3) AND NOT 3) free_list m)"

partial_function (option) coalesce_loop :: "u32 \<Rightarrow> mem \<Rightarrow> mem option" where
  "coalesce_loop current m =
     (if current \<noteq> 0 then
        if hdr_is_free m current \<noteq> 0 \<and> hdr_next m current \<noteq> 0
           \<and> hdr_is_free m (hdr_next m current) \<noteq> 0
        then
          (let m1 = set_size current
                      (hdr_size m current + (sizeof_header + hdr_size m (hdr_next m current))) m
           in coalesce_loop current (set_next current (hdr_next m1 (hdr_next m1 current)) m1))
        else coalesce_loop (hdr_next m current) m
      else Some m)"

definition memory_free :: "u32 \<Rightarrow> mem \<Rightarrow> mem option" where
  "memory_free ptr m =
     (if ptr = 0 then Some m
      else coalesce_loop free_list (set_is_free (ptr - sizeof_header) 1 m))"

section \<open>The abstract heap\<close>

type_synonym blocks = "(nat \<times> bool) list"

text \<open>The blocks chained from address \<open>p\<close> on tile the memory up to the end of the heap.\<close>

definition HEAP_LO :: nat where "HEAP_LO = 1048576"
definition HEAP_HI :: nat where "HEAP_HI = 2097152"

fun chain :: "mem \<Rightarrow> nat \<Rightarrow> blocks \<Rightarrow> bool" where
  "chain m p [] \<longleftrightarrow> p = HEAP_HI"
| "chain m p ((n, f) # bs) \<longleftrightarrow>
     hdr_size m (of_nat p) = of_nat n \<and> hdr_is_free m (of_nat p) = (if f then 1 else 0)
     \<and> hdr_next m (of_nat p) = (if bs = [] then 0 else of_nat (p + 12 + n))
     \<and> chain m (p + 12 + n) bs"

fun layout :: "nat \<Rightarrow> blocks \<Rightarrow> (nat \<times> nat \<times> bool) list" where
  "layout p [] = []"
| "layout p ((n, f) # bs) = (p + 12, n, f) # layout (p + 12 + n) bs"

fun no_adj_free :: "blocks \<Rightarrow> bool" where
  "no_adj_free ((n, f) # (n', f') # bs) \<longleftrightarrow> \<not> (f \<and> f') \<and> no_adj_free ((n', f') # bs)"
| "no_adj_free _ \<longleftrightarrow> True"

definition heap_ok :: "mem \<Rightarrow> blocks \<Rightarrow> bool" where
  "heap_ok m bs \<longleftrightarrow> bs \<noteq> [] \<and> chain m HEAP_LO bs \<and> (\<forall>(n, f) \<in> set bs. 4 dvd n) \<and> no_adj_free bs"

text \<open>First fit with split; the result is the payload address and the new blocks.\<close>

fun first_fit :: "nat \<Rightarrow> nat \<Rightarrow> blocks \<Rightarrow> (nat \<times> blocks) option" where
  "first_fit k p [] = None"
| "first_fit k p ((n, f) # bs) =
     (if f \<and> k \<le> n then
        Some (p + 12, if k + 16 \<le> n then (k, False) # (n - k - 12, True) # bs else (n, False) # bs)
      else map_option (\<lambda>(q, bs'). (q, (n, f) # bs')) (first_fit k (p + 12 + n) bs))"

fun mark_free :: "nat \<Rightarrow> nat \<Rightarrow> blocks \<Rightarrow> blocks" where
  "mark_free q p [] = []"
| "mark_free q p ((n, f) # bs) =
     (if q = p + 12 then (n, True) # bs else (n, f) # mark_free q (p + 12 + n) bs)"

fun coalesce :: "blocks \<Rightarrow> blocks" where
  "coalesce ((n, f) # (n', f') # bs) =
     (if f \<and> f' then coalesce ((n + 12 + n', True) # bs) else (n, f) # coalesce ((n', f') # bs))"
| "coalesce bs = bs"

section \<open>Header lemmas\<close>

lemma of_nat_plus: "(of_nat p :: u32) + 4 = of_nat (p + 4)" "(of_nat p :: u32) + 8 = of_nat (p + 8)"
  "(of_nat p :: u32) + 12 = of_nat (p + 12)"
  by simp_all

lemmas hdr_defs = hdr_size_def hdr_is_free_def hdr_next_def set_size_def set_is_free_def set_next_def

lemma hdr_same_on:
  assumes "same_on p (p + 12) m m'"
  shows "hdr_size m' (of_nat p) = hdr_size m (of_nat p)"
    "hdr_is_free m' (of_nat p) = hdr_is_free m (of_nat p)"
    "hdr_next m' (of_nat p) = hdr_next m (of_nat p)"
  unfolding hdr_defs of_nat_plus
  by (rule ld32_same_on, rule same_on_mono [OF assms], simp, simp)+

lemma set_hdr_same_on:
  assumes "p + 12 \<le> 2 ^ 32" "hi \<le> 2 ^ 32" "hi \<le> p \<or> p + 12 \<le> lo"
  shows "same_on lo hi m (set_size (of_nat p) x m)"
    "same_on lo hi m (set_is_free (of_nat p) x m)"
    "same_on lo hi m (set_next (of_nat p) x m)"
  unfolding hdr_defs of_nat_plus by (rule st32_same_on; use assms in auto)+

text \<open>Reading a header back after one of its own fields was written.\<close>

lemma hdr_set_same:
  assumes "p + 12 \<le> 2 ^ 32"
  shows "hdr_size (set_size (of_nat p) x m) (of_nat p) = x"
    "hdr_is_free (set_size (of_nat p) x m) (of_nat p) = hdr_is_free m (of_nat p)"
    "hdr_next (set_size (of_nat p) x m) (of_nat p) = hdr_next m (of_nat p)"
    "hdr_size (set_is_free (of_nat p) x m) (of_nat p) = hdr_size m (of_nat p)"
    "hdr_is_free (set_is_free (of_nat p) x m) (of_nat p) = x"
    "hdr_next (set_is_free (of_nat p) x m) (of_nat p) = hdr_next m (of_nat p)"
    "hdr_size (set_next (of_nat p) x m) (of_nat p) = hdr_size m (of_nat p)"
    "hdr_is_free (set_next (of_nat p) x m) (of_nat p) = hdr_is_free m (of_nat p)"
    "hdr_next (set_next (of_nat p) x m) (of_nat p) = x"
  unfolding hdr_defs of_nat_plus using assms
  by (simp_all only: ld32_st32_same) (rule ld32_st32_other; simp)+

text \<open>Writing one header leaves another one alone.\<close>

lemma hdr_set_other:
  assumes "p + 12 \<le> 2 ^ 32" "q + 12 \<le> 2 ^ 32" "q + 12 \<le> p \<or> p + 12 \<le> q"
  shows "hdr_size (set_size (of_nat p) x m) (of_nat q) = hdr_size m (of_nat q)"
    "hdr_is_free (set_size (of_nat p) x m) (of_nat q) = hdr_is_free m (of_nat q)"
    "hdr_next (set_size (of_nat p) x m) (of_nat q) = hdr_next m (of_nat q)"
    "hdr_size (set_is_free (of_nat p) x m) (of_nat q) = hdr_size m (of_nat q)"
    "hdr_is_free (set_is_free (of_nat p) x m) (of_nat q) = hdr_is_free m (of_nat q)"
    "hdr_next (set_is_free (of_nat p) x m) (of_nat q) = hdr_next m (of_nat q)"
    "hdr_size (set_next (of_nat p) x m) (of_nat q) = hdr_size m (of_nat q)"
    "hdr_is_free (set_next (of_nat p) x m) (of_nat q) = hdr_is_free m (of_nat q)"
    "hdr_next (set_next (of_nat p) x m) (of_nat q) = hdr_next m (of_nat q)"
  by (rule hdr_same_on; rule set_hdr_same_on; use assms in auto)+

section \<open>Chains\<close>

lemma chain_bound: "chain m p bs \<Longrightarrow> p \<le> HEAP_HI"
  by (induction m p bs rule: chain.induct) auto

lemma chain_bound2: "chain m p ((n, f) # bs) \<Longrightarrow> p + 12 + n \<le> HEAP_HI"
  by (auto dest: chain_bound)

lemma chain_cong:
  "chain m p bs \<Longrightarrow> (\<And>q n f. (q, n, f) \<in> set (layout p bs) \<Longrightarrow> same_on (q - 12) q m m') \<Longrightarrow> chain m' p bs"
proof (induction bs arbitrary: p)
  case Nil
  then show ?case by simp
next
  case (Cons b bs)
  obtain n f where b: "b = (n, f)" by (cases b)
  from Cons.prems(2) [of "p + 12" n f] have "same_on p (p + 12) m m'" by (simp add: b)
  moreover have "chain m' (p + 12 + n) bs"
  proof (rule Cons.IH)
    show "chain m (p + 12 + n) bs" using Cons.prems(1) by (simp add: b)
    show "same_on (q - 12) q m m'" if "(q, n', f') \<in> set (layout (p + 12 + n) bs)" for q n' f'
      using that by (intro Cons.prems(2) [of q n' f']) (simp add: b)
  qed
  ultimately show ?case using Cons.prems(1) by (simp add: b hdr_same_on)
qed

lemma layout_bounds:
  "chain m p bs \<Longrightarrow> (q, n, f) \<in> set (layout p bs) \<Longrightarrow> p + 12 \<le> q \<and> q + n \<le> HEAP_HI"
proof (induction bs arbitrary: p)
  case (Cons b bs)
  obtain n' f' where b: "b = (n', f')" by (cases b)
  with Cons.prems have "chain m (p + 12 + n') bs" by simp
  with Cons.IH [of "p + 12 + n'"] Cons.prems chain_bound2 [of m p n' f' bs] show ?case
    by (auto simp: b)
qed simp

lemma chain_same_on:
  assumes "chain m p bs" "same_on p HEAP_HI m m'"
  shows "chain m' p bs"
  using assms(1)
proof (rule chain_cong)
  fix q n f
  assume "(q, n, f) \<in> set (layout p bs)"
  with layout_bounds [OF assms(1)] show "same_on (q - 12) q m m'"
    by (intro same_on_mono [OF assms(2)]) fastforce+
qed

text \<open>Any two entries of a layout are disjoint, headers included.\<close>

lemma layout_disjoint:
  "chain m p bs \<Longrightarrow> (q, n, f) \<in> set (layout p bs) \<Longrightarrow> (q', n', f') \<in> set (layout p bs) \<Longrightarrow>
   (q, n, f) = (q', n', f') \<or> q + n \<le> q' - 12 \<or> q' + n' \<le> q - 12"
proof (induction bs arbitrary: p)
  case (Cons b bs)
  obtain k g where b: "b = (k, g)" by (cases b)
  with Cons.prems(1) have c: "chain m (p + 12 + k) bs" by simp
  have tail: "(q, n, f) \<in> set (layout (p + 12 + k) bs) \<Longrightarrow> p + 12 + k \<le> q - 12" for q n f
    using layout_bounds [OF c, of q n f] by linarith
  consider "(q, n, f) = (p + 12, k, g)" "(q', n', f') = (p + 12, k, g)"
    | "(q, n, f) = (p + 12, k, g)" "(q', n', f') \<in> set (layout (p + 12 + k) bs)"
    | "(q', n', f') = (p + 12, k, g)" "(q, n, f) \<in> set (layout (p + 12 + k) bs)"
    | "(q, n, f) \<in> set (layout (p + 12 + k) bs)" "(q', n', f') \<in> set (layout (p + 12 + k) bs)"
    using Cons.prems(2,3) by (auto simp: b)
  then show ?case
  proof cases
    case 2
    with tail [of q' n' f'] show ?thesis by simp
  next
    case 3
    with tail [of q n f] show ?thesis by simp
  next
    case 4
    with Cons.IH [OF c] show ?thesis by blast
  qed simp
qed simp

section \<open>Allocation implements first fit\<close>

lemma HEAP_small: "HEAP_HI < 2 ^ 32" "HEAP_LO < HEAP_HI"
  by (simp_all add: HEAP_HI_def HEAP_LO_def)

lemma of_nat_le32: "i < 2 ^ 32 \<Longrightarrow> j < 2 ^ 32 \<Longrightarrow> (of_nat i :: u32) \<le> of_nat j \<longleftrightarrow> i \<le> j"
  by (simp add: word_le_nat_alt unat_of_nat32 del: unat_of_nat)

lemma alloc_block_split:
  assumes c: "chain m p ((n, True) # bs)" and k: "k + 16 \<le> n"
  defines "m' \<equiv> alloc_block (of_nat k) (of_nat p) m"
  shows "chain m' p ((k, False) # (n - k - 12, True) # bs)"
    "same_on 0 p m m'" "same_on (p + 12 + n) (2 ^ 32) m m'"
proof -
  let ?nb = "p + 12 + k"
  have b: "p + 12 + n \<le> HEAP_HI" using chain_bound2 [OF c] .
  then have p32: "p + 12 \<le> 2 ^ 32" "?nb + 12 \<le> 2 ^ 32" "p + 12 + n < 2 ^ 32"
    using HEAP_small k by simp_all
  define m1 where "m1 = set_size (of_nat ?nb) (of_nat n - of_nat k - 12) m"
  define m2 where "m2 = set_is_free (of_nat ?nb) 1 m1"
  define m3 where "m3 = set_next (of_nat ?nb) (hdr_next m2 (of_nat p)) m2"
  define m4 where "m4 = set_size (of_nat p) (of_nat k) m3"
  define m5 where "m5 = set_next (of_nat p) (of_nat ?nb) m4"
  have "(of_nat k :: u32) + 12 + 4 = of_nat (k + 16)" by simp
  then have cond: "hdr_size m (of_nat p) \<ge> of_nat k + 12 + 4"
    using c k p32 by (simp add: of_nat_le32 del: of_nat_add)
  have sz: "hdr_size m (of_nat p) = of_nat n" using c by simp
  have nb: "of_nat p + 12 + of_nat k = (of_nat ?nb :: u32)" by simp
  have m': "m' = set_is_free (of_nat p) 0 m5"
    using cond unfolding m'_def alloc_block_def Let_def m5_def m4_def m3_def m2_def m1_def sz nb
    by (simp only: if_True)
  note defs = m1_def m2_def m3_def m4_def m5_def m'
  have so: "same_on lo hi m m'" if "hi \<le> 2 ^ 32" "hi \<le> p \<or> p + 12 + n \<le> lo" for lo hi
    unfolding defs using that p32 k
    by (intro same_on_trans [OF _ set_hdr_same_on(1)] same_on_trans [OF _ set_hdr_same_on(2)]
        same_on_trans [OF _ set_hdr_same_on(3)] same_on_refl) auto
  show "same_on 0 p m m'" "same_on (p + 12 + n) (2 ^ 32) m m'"
    using so p32 by simp_all
  have tail: "chain m' (p + 12 + n) bs"
    by (rule chain_same_on [of m]) (use c so HEAP_small in auto)
  have sep: "?nb + 12 \<le> p \<or> p + 12 \<le> ?nb" "p + 12 \<le> ?nb \<or> ?nb + 12 \<le> p" by simp_all
  note set_other = hdr_set_other [OF p32(1,2) sep(1)] hdr_set_other [OF p32(2,1) sep(2)]
  have hp: "hdr_size m' (of_nat p) = of_nat k" "hdr_is_free m' (of_nat p) = 0"
      "hdr_next m' (of_nat p) = of_nat ?nb"
    unfolding defs by (simp_all only: hdr_set_same [OF p32(1)])
  have "hdr_next m (of_nat p) = (if bs = [] then 0 else of_nat (p + 12 + n))" using c by simp
  then have hn: "hdr_size m' (of_nat ?nb) = of_nat n - of_nat k - 12" "hdr_is_free m' (of_nat ?nb) = 1"
      "hdr_next m' (of_nat ?nb) = (if bs = [] then 0 else of_nat (p + 12 + n))"
    unfolding defs by (simp_all only: set_other hdr_set_same [OF p32(1)] hdr_set_same [OF p32(2)])
  have "?nb + 12 + (n - k - 12) = p + 12 + n" "of_nat (n - k - 12) = (of_nat n - of_nat k - 12 :: u32)"
    using k by simp_all
  with hp hn tail show "chain m' p ((k, False) # (n - k - 12, True) # bs)"
    by (simp only: chain.simps if_True if_False list.distinct simp_thms)
qed
lemma alloc_block_whole:
  assumes c: "chain m p ((n, True) # bs)" and k: "k \<le> n" "\<not> k + 16 \<le> n"
  defines "m' \<equiv> alloc_block (of_nat k) (of_nat p) m"
  shows "chain m' p ((n, False) # bs)" "same_on 0 p m m'" "same_on (p + 12) (2 ^ 32) m m'"
proof -
  have b: "p + 12 + n \<le> HEAP_HI" using chain_bound2 [OF c] .
  then have p32: "p + 12 \<le> 2 ^ 32" "p + 12 + n < 2 ^ 32" "n < 2 ^ 32" "k + 16 < 2 ^ 32"
    using HEAP_small k by (simp_all add: HEAP_HI_def)
  have sz: "hdr_size m (of_nat p) = of_nat n" using c by simp
  have k16: "(of_nat k :: u32) + 12 + 4 = of_nat (k + 16)" by simp
  have "\<not> (of_nat (k + 16) :: u32) \<le> of_nat n"
    using k p32 by (simp only: of_nat_le32) simp
  then have m': "m' = set_is_free (of_nat p) 0 m"
    unfolding m'_def alloc_block_def Let_def sz k16 by (simp only: if_False)
  have so: "same_on lo hi m m'" if "hi \<le> 2 ^ 32" "hi \<le> p \<or> p + 12 \<le> lo" for lo hi
    unfolding m' by (rule set_hdr_same_on) (use that p32 in auto)
  show "same_on 0 p m m'" "same_on (p + 12) (2 ^ 32) m m'"
    using so p32 by simp_all
  have "chain m' (p + 12 + n) bs"
    by (rule chain_same_on [of m]) (use c so HEAP_small in auto)
  with c show "chain m' p ((n, False) # bs)"
    unfolding m' by (simp only: chain.simps hdr_set_same [OF p32(1)] if_False simp_thms)
qed

text \<open>The live blocks (payload address, size) of the blocks chained from \<open>p\<close>.\<close>

definition live_at :: "nat \<Rightarrow> blocks \<Rightarrow> (nat \<times> nat) set" where
  "live_at p bs = {(q, n). (q, n, False) \<in> set (layout p bs)}"

lemma live_at_Nil [simp]: "live_at p [] = {}"
  by (simp add: live_at_def)

lemma live_at_Cons [simp]:
  "live_at p ((n, f) # bs) = (if f then {} else {(p + 12, n)}) \<union> live_at (p + 12 + n) bs"
  by (auto simp: live_at_def)

lemma live_at_bounds: "chain m p bs \<Longrightarrow> (q, n) \<in> live_at p bs \<Longrightarrow> p + 12 \<le> q \<and> q + n \<le> HEAP_HI"
  unfolding live_at_def by (auto dest: layout_bounds)

definition keeps :: "(nat \<times> nat) set \<Rightarrow> mem \<Rightarrow> mem \<Rightarrow> bool" where
  "keeps L m m' \<longleftrightarrow> (\<forall>(q, n) \<in> L. same_on q (q + n) m m')"

lemma keeps_refl [simp]: "keeps L m m"
  by (auto simp: keeps_def)

lemma keeps_trans: "keeps L m m' \<Longrightarrow> keeps L m' m'' \<Longrightarrow> keeps L m m''"
  by (fastforce simp: keeps_def intro: same_on_trans)

lemma keeps_tail:
  assumes "chain m p bs" "same_on p HEAP_HI m m'"
  shows "keeps (live_at p bs) m m'"
  using assms live_at_bounds [OF assms(1)] unfolding keeps_def
  by (auto intro!: same_on_mono [OF assms(2)]) fastforce+

lemma chain_head:
  "chain m p ((n, f) # bs) \<Longrightarrow> same_on p (p + 12) m m' \<Longrightarrow> chain m' (p + 12 + n) bs' \<Longrightarrow> (bs' = [] \<longleftrightarrow> bs = []) \<Longrightarrow>
   chain m' p ((n, f) # bs')"
  by (simp add: hdr_same_on)

lemma of_nat_ne0: "0 < p \<Longrightarrow> p < 2 ^ 32 \<Longrightarrow> (of_nat p :: u32) \<noteq> 0"
  using of_nat_inj32 [of p 0] by simp

lemma first_fit_ne: "first_fit k p bs = Some (q, bs') \<Longrightarrow> bs \<noteq> [] \<and> bs' \<noteq> []"
  by (cases bs) (auto split: if_splits)

lemma chain_current:
  assumes "chain m p ((n, f) # bs)" "0 < p" "k < 2 ^ 32"
  shows "(of_nat p :: u32) \<noteq> 0"
    "hdr_is_free m (of_nat p) \<noteq> 0 \<and> hdr_size m (of_nat p) \<ge> of_nat k \<longleftrightarrow> f \<and> k \<le> n"
    "hdr_next m (of_nat p) = (if bs = [] then 0 else of_nat (p + 12 + n))"
    "chain m (p + 12 + n) bs"
proof -
  have "p + 12 + n \<le> HEAP_HI" using chain_bound2 [OF assms(1)] .
  then have *: "p < 2 ^ 32" "n < 2 ^ 32" using HEAP_small by simp_all
  from assms(2) *(1) show "(of_nat p :: u32) \<noteq> 0" by (rule of_nat_ne0)
  show "hdr_is_free m (of_nat p) \<noteq> 0 \<and> hdr_size m (of_nat p) \<ge> of_nat k \<longleftrightarrow> f \<and> k \<le> n"
    using assms(1,3) * by (simp add: of_nat_le32)
qed (use assms(1) in simp_all)

text \<open>The walk finds nothing exactly when no free block is large enough.\<close>

lemma alloc_loop_none:
  "chain m p bs \<Longrightarrow> 0 < p \<Longrightarrow> k < 2 ^ 32 \<Longrightarrow> first_fit k p bs = None \<Longrightarrow>
   alloc_loop (of_nat k) (if bs = [] then 0 else of_nat p) m = Some (0, m)"
proof (induction bs arbitrary: p)
  case Nil
  then show ?case by (subst alloc_loop.simps) simp
next
  case (Cons b bs)
  obtain n f where b: "b = (n, f)" by (cases b)
  note cur = chain_current [OF Cons.prems(1) [unfolded b] Cons.prems(2,3)]
  from Cons.prems(4) have nf: "\<not> (f \<and> k \<le> n)" "first_fit k (p + 12 + n) bs = None"
    by (auto simp: b split: if_splits)
  have "alloc_loop (of_nat k) (hdr_next m (of_nat p)) m = Some (0, m)"
    unfolding cur(3) using Cons.IH [OF cur(4) _ Cons.prems(3) nf(2)] Cons.prems(2) by simp
  then show ?case
    using nf(1) cur(1,2) by (subst alloc_loop.simps) (auto simp: b)
qed

lemma alloc_loop_some:
  "chain m p bs \<Longrightarrow> 0 < p \<Longrightarrow> k < 2 ^ 32 \<Longrightarrow> first_fit k p bs = Some (q, bs') \<Longrightarrow>
   \<exists>m'. alloc_loop (of_nat k) (of_nat p) m = Some (of_nat q, m') \<and> chain m' p bs'
      \<and> same_on 0 p m m' \<and> keeps (live_at p bs) m m'"
proof (induction bs arbitrary: p bs')
  case (Cons b bs)
  obtain n f where b: "b = (n, f)" by (cases b)
  note c = Cons.prems(1) [unfolded b]
  note cur = chain_current [OF c Cons.prems(2,3)]
  have hi: "HEAP_HI \<le> 2 ^ 32" using HEAP_small by simp
  show ?case
  proof (cases "f \<and> k \<le> n")
    case True
    then have f: "f" and k: "k \<le> n" by simp_all
    let ?m' = "alloc_block (of_nat k) (of_nat p) m"
    have q: "q = p + 12"
      and bs': "bs' = (if k + 16 \<le> n then (k, False) # (n - k - 12, True) # bs else (n, False) # bs)"
      using Cons.prems(4) True by (auto simp: b)
    from c f have c': "chain m p ((n, True) # bs)" by simp
    have new: "chain ?m' p bs' \<and> same_on 0 p m ?m' \<and> same_on (p + 12 + n) (2 ^ 32) m ?m'"
    proof (cases "k + 16 \<le> n")
      case True
      with alloc_block_split [OF c' True] show ?thesis unfolding bs' by simp
    next
      case False
      have "same_on (p + 12 + n) (2 ^ 32) m ?m'"
        by (rule same_on_mono [OF alloc_block_whole(3) [OF c' k False]]) simp_all
      with alloc_block_whole(1,2) [OF c' k False] False show ?thesis unfolding bs' by simp
    qed
    moreover have "keeps (live_at (p + 12 + n) bs) m ?m'"
      by (rule keeps_tail [OF cur(4)], rule same_on_mono) (use new hi in auto)
    moreover have "alloc_loop (of_nat k) (of_nat p) m = Some (of_nat q, ?m')"
      by (subst alloc_loop.simps) (use True cur(1,2) q in simp)
    ultimately show ?thesis using f by (simp add: b)
  next
    case False
    then obtain bs2 where ff: "first_fit k (p + 12 + n) bs = Some (q, bs2)" and bs': "bs' = (n, f) # bs2"
      using Cons.prems(4) by (auto simp: b)
    with Cons.IH [OF cur(4) _ Cons.prems(3) ff] obtain m' where
      m': "alloc_loop (of_nat k) (of_nat (p + 12 + n)) m = Some (of_nat q, m')" "chain m' (p + 12 + n) bs2"
      "same_on 0 (p + 12 + n) m m'" "keeps (live_at (p + 12 + n) bs) m m'"
      using Cons.prems(2) by auto
    note ne = first_fit_ne [OF ff]
    have "alloc_loop (of_nat k) (of_nat p) m = Some (of_nat q, m')"
      using False cur ne m'(1) by (subst alloc_loop.simps) auto
    moreover have "chain m' p bs'"
      unfolding bs' using m'(2,3) ne by (intro chain_head [OF c]) (auto intro: same_on_mono)
    moreover have "same_on 0 p m m'" "same_on (p + 12) (p + 12 + n) m m'"
      by (rule same_on_mono [OF m'(3)]; simp)+
    ultimately show ?thesis using m'(4) by (auto simp: b keeps_def)
  qed
qed simp
section \<open>Release marks the block and coalesces\<close>

lemma mark_free_Nil [simp]: "mark_free q p bs = [] \<longleftrightarrow> bs = []"
  by (cases "(q, p, bs)" rule: mark_free.cases) auto

lemma mark_free_chain:
  assumes "chain m p bs" "(q, n, f) \<in> set (layout p bs)"
  shows "chain (set_is_free (of_nat (q - 12)) 1 m) p (mark_free q p bs)"
  using assms
proof (induction bs arbitrary: p)
  case (Cons b bs)
  obtain k g where b: "b = (k, g)" by (cases b)
  let ?m' = "set_is_free (of_nat (q - 12)) 1 m"
  have c: "chain m p ((k, g) # bs)" using Cons.prems(1) by (simp add: b)
  have hi: "p + 12 + k < 2 ^ 32" using chain_bound2 [OF c] HEAP_small by simp
  show ?case
  proof (cases "q = p + 12")
    case True
    have "same_on (p + 12 + k) HEAP_HI m ?m'"
      using True hi HEAP_small by (intro set_hdr_same_on) simp_all
    then have "chain ?m' (p + 12 + k) bs" using c by (auto intro: chain_same_on)
    with c True hi show ?thesis by (simp add: b hdr_set_same)
  next
    case False
    then have q: "(q, n, f) \<in> set (layout (p + 12 + k) bs)" using Cons.prems(2) by (auto simp: b)
    have c2: "chain m (p + 12 + k) bs" using c by simp
    have qb: "p + 12 + k + 12 \<le> q" "q \<le> HEAP_HI" using layout_bounds [OF c2 q] by simp_all
    then have "same_on p (p + 12) m ?m'"
      using hi HEAP_small by (intro set_hdr_same_on) auto
    then have "chain ?m' p ((k, g) # mark_free q (p + 12 + k) bs)"
      using Cons.IH [OF c2 q] by (intro chain_head [OF c]) simp_all
    with False show ?thesis by (simp add: b)
  qed
qed simp

lemma mark_free_live:
  assumes "chain m p bs" "(q, n) \<in> live_at p bs"
  shows "live_at p (mark_free q p bs) = live_at p bs - {(q, n)}"
  using assms
proof (induction bs arbitrary: p)
  case (Cons b bs)
  obtain k g where b: "b = (k, g)" by (cases b)
  have c2: "chain m (p + 12 + k) bs" using Cons.prems(1) by (simp add: b)
  note lo = live_at_bounds [OF c2]
  show ?case
  proof (cases "q = p + 12")
    case True
    with lo have "(q, n) \<notin> live_at (p + 12 + k) bs" "(p + 12, k) \<notin> live_at (p + 12 + k) bs" by force+
    with True Cons.prems(2) show ?thesis by (auto simp: b split: if_splits)
  next
    case False
    with Cons.prems(2) have "(q, n) \<in> live_at (p + 12 + k) bs" by (auto simp: b split: if_splits)
    with Cons.IH [OF c2] False show ?thesis by (auto simp: b)
  qed
qed simp

lemma mark_free_sizes: "map fst (mark_free q p bs) = map fst bs"
  by (induction q p bs rule: mark_free.induct) auto

lemma coalesce_hd: "bs \<noteq> [] \<Longrightarrow> \<exists>n' bs'. coalesce bs = (n', snd (hd bs)) # bs'"
  by (induction bs rule: coalesce.induct) auto

lemma coalesce_head: "\<exists>n' bs'. coalesce ((n, f) # bs) = (n', f) # bs'"
  using coalesce_hd [of "(n, f) # bs"] by simp

lemma coalesce_no_adj: "no_adj_free (coalesce bs)"
proof (induction bs rule: coalesce.induct)
  case (1 n f n' f' bs)
  then show ?case using coalesce_head [of n' f' bs] by (cases "f \<and> f'") auto
qed auto

lemma coalesce_dvd: "\<forall>(n, f) \<in> set bs. 4 dvd n \<Longrightarrow> \<forall>(n, f) \<in> set (coalesce bs). 4 dvd n"
  by (induction bs rule: coalesce.induct) auto

lemma coalesce_live: "live_at p (coalesce bs) = live_at p bs"
proof (induction bs arbitrary: p rule: coalesce.induct)
  case (1 n f n' f' bs)
  then show ?case by (cases "f \<and> f'") (auto simp: add.assoc)
qed auto

lemma coalesce_id: "no_adj_free bs \<Longrightarrow> coalesce bs = bs"
  by (induction bs rule: coalesce.induct) auto

lemma coalesce_loop_sim:
  "chain m p bs \<Longrightarrow> 0 < p \<Longrightarrow>
   \<exists>m'. coalesce_loop (if bs = [] then 0 else of_nat p) m = Some m' \<and> chain m' p (coalesce bs)
      \<and> same_on 0 p m m' \<and> keeps (live_at p bs) m m'"
proof (induction bs arbitrary: p m rule: coalesce.induct [case_names adjacent none single])
  case (adjacent n f n' f' bs)
  note c = adjacent.prems(1)
  have c2: "chain m (p + 12 + n) ((n', f') # bs)" using c by simp
  have z: "(0::nat) < 2 ^ 32" "0 < p + 12 + n" by simp_all
  note cur = chain_current [OF c adjacent.prems(2) z(1)]
  note nxt = chain_current [OF c2 z(2) z(1)]
  have hi: "p + 12 + n + 12 + n' \<le> HEAP_HI" using chain_bound2 [OF c2] by simp
  then have p32: "p + 12 \<le> 2 ^ 32" "p + 12 + n + 12 \<le> 2 ^ 32" using HEAP_small by simp_all
  have fr: "hdr_is_free m (of_nat p) \<noteq> 0 \<longleftrightarrow> f" "hdr_is_free m (of_nat (p + 12 + n)) \<noteq> 0 \<longleftrightarrow> f'"
    using c c2 by simp_all
  have nx: "hdr_next m (of_nat p) = of_nat (p + 12 + n)" "(of_nat (p + 12 + n) :: u32) \<noteq> 0"
    using cur(3) nxt(1) by simp_all
  show ?case
  proof (cases "f \<and> f'")
    case True
    let ?m1 = "set_size (of_nat p) (of_nat (n + 12 + n')) m"
    let ?m2 = "set_next (of_nat p) (hdr_next m (of_nat (p + 12 + n))) ?m1"
    have sep: "p + 12 + n + 12 \<le> p \<or> p + 12 \<le> p + 12 + n" by simp
    have so: "same_on lo hi m ?m2" if "hi \<le> 2 ^ 32" "hi \<le> p \<or> p + 12 \<le> lo" for lo hi
      using that p32 by (intro same_on_trans [OF set_hdr_same_on(1) set_hdr_same_on(3)]) auto
    have "same_on (p + 12 + n + 12 + n') HEAP_HI m ?m2" by (rule so) (use HEAP_small in auto)
    then have "chain ?m2 (p + 12 + n + 12 + n') bs"
      using c2 by (auto intro: chain_same_on [of m])
    moreover have "hdr_next m (of_nat (p + 12 + n)) = (if bs = [] then 0 else of_nat (p + 12 + (n + 12 + n')))"
      using c2 by (simp add: add.assoc)
    moreover have "p + 12 + n + 12 + n' = p + 12 + (n + 12 + n')" by simp
    ultimately have cm: "chain ?m2 p ((n + 12 + n', True) # bs)"
      using fr True c by (simp only: chain.simps hdr_set_same [OF p32(1)] simp_thms if_True)
    have "coalesce_loop (of_nat p) m = coalesce_loop (of_nat p) ?m2"
    proof -
      have eq: "hdr_size m (of_nat p) + (12 + hdr_size m (of_nat (p + 12 + n))) = of_nat (n + 12 + n')"
        using c c2 by (simp add: add.assoc)
      show ?thesis
        using True fr nx cur(1)
        by (subst coalesce_loop.simps)
          (simp only: Let_def nx eq hdr_set_same [OF p32(1)] hdr_set_other [OF p32 sep] simp_thms if_True not_False_eq_True)
    qed
    moreover obtain m' where "coalesce_loop (of_nat p) ?m2 = Some m'" "same_on 0 p ?m2 m'"
        "chain m' p (coalesce ((n + 12 + n', True) # bs))" "keeps (live_at p ((n + 12 + n', True) # bs)) ?m2 m'"
      using adjacent.IH(1) [OF True cm adjacent.prems(2)] by auto
    moreover have "keeps (live_at p ((n, f) # (n', f') # bs)) m ?m2"
    proof -
      have "keeps (live_at (p + 12 + n) ((n', f') # bs)) m ?m2"
        using HEAP_small by (intro keeps_tail [OF c2] so) auto
      with True show ?thesis by simp
    qed
    moreover have "same_on 0 p m ?m2" using p32 by (intro so) auto
    moreover have "live_at p ((n + 12 + n', True) # bs) = live_at p ((n, f) # (n', f') # bs)"
      using True by (simp add: add.assoc)
    ultimately show ?thesis
      using True by (auto intro: same_on_trans keeps_trans)
  next
    case False
    obtain m' where m': "coalesce_loop (of_nat (p + 12 + n)) m = Some m'"
        "chain m' (p + 12 + n) (coalesce ((n', f') # bs))" "same_on 0 (p + 12 + n) m m'"
        "keeps (live_at (p + 12 + n) ((n', f') # bs)) m m'"
      using adjacent.IH(2) [OF False c2] adjacent.prems(2) by auto
    have "coalesce_loop (of_nat p) m = Some m'"
      using False fr nx cur(1) m'(1) by (subst coalesce_loop.simps) (auto simp del: of_nat_add)
    moreover have "chain m' p ((n, f) # coalesce ((n', f') # bs))"
      using m'(2,3) coalesce_head [of n' f' bs] by (intro chain_head [OF c]) (auto intro: same_on_mono)
    moreover have "same_on 0 p m m'" "same_on (p + 12) (p + 12 + n) m m'"
      by (rule same_on_mono [OF m'(3)]; simp)+
    ultimately show ?thesis using False m'(4) by (auto simp: keeps_def)
  qed
next
  case none
  then show ?case by (subst coalesce_loop.simps) simp
next
  case (single b)
  obtain n f where b: "b = (n, f)" by (cases b)
  have c: "chain m p [(n, f)]" using single.prems(1) by (simp add: b)
  have "coalesce_loop (of_nat p) m = coalesce_loop 0 m"
    using chain_current [where k = 0, OF c single.prems(2)] by (subst coalesce_loop.simps) simp
  also have "\<dots> = Some m" by (subst coalesce_loop.simps) simp
  finally show ?case using single.prems by simp
qed
section \<open>The operations on a well-formed heap\<close>

definition align4 :: "nat \<Rightarrow> nat" where
  "align4 n = (n + 3) div 4 * 4"

definition live :: "blocks \<Rightarrow> (nat \<times> nat) set" where
  "live bs = live_at HEAP_LO bs"

lemma align4_bounds: "n \<le> align4 n" "align4 n < n + 4" "4 dvd align4 n"
  by (auto simp: align4_def)

lemma unat_and_not_3: "unat ((w :: u32) AND NOT 3) = unat w div 4 * 4"
proof -
  have m3: "(3 :: u32) = mask 2" by (simp add: mask_eq_exp_minus_1)
  have "w AND NOT 3 = push_bit 2 (drop_bit 2 w)"
  proof (rule bit_word_eqI)
    fix n assume "n < LENGTH(32)"
    moreover from this have "bit (3 :: u32) n \<longleftrightarrow> n < 2"
      by (simp only: m3 bit_mask_iff possible_bit_word) simp
    ultimately show "bit (w AND NOT 3) n = bit (push_bit 2 (drop_bit 2 w)) n"
      by (cases "n < 2") (auto simp: bit_simps simp flip: Suc_diff_le numeral_2_eq_2)
  qed
  moreover have "take_bit 32 (unat w div 4 * 4) = unat w div 4 * 4"
    using unat_lt2p_u32 [of w] by (intro take_bit_nat_eq_self) (simp add: le_less_trans [OF div_times_less_eq_dividend])
  ultimately show ?thesis
    by (simp only: unsigned_push_bit_eq unat_drop_bit_eq) (simp add: drop_bit_eq_div push_bit_eq_mult)
qed

lemma align_word:
  fixes sz :: u32
  assumes "unat sz \<le> 2 ^ 32 - 4"
  shows "(sz + 3) AND NOT 3 = of_nat (align4 (unat sz))" "align4 (unat sz) < 2 ^ 32"
proof -
  have u: "unat (sz + 3) = unat sz + 3"
    using assms by (simp add: unat_word_ariths)
  have "unat ((sz + 3) AND NOT 3) = unat (sz + 3) div 4 * 4" by (rule unat_and_not_3)
  then have "unat ((sz + 3) AND NOT 3) = align4 (unat sz)" by (simp add: u align4_def)
  then show "(sz + 3) AND NOT 3 = of_nat (align4 (unat sz))" "align4 (unat sz) < 2 ^ 32"
    using unat_lt2p_u32 [of "(sz + 3) AND NOT 3"] by (metis of_nat_unat ucast_id, simp)
qed

lemma no_adj_free_Cons:
  "no_adj_free ((n, f) # bs) \<longleftrightarrow> no_adj_free bs \<and> (bs \<noteq> [] \<longrightarrow> \<not> (f \<and> snd (hd bs)))"
  by (cases bs) auto

lemma first_fit_hd: "first_fit k p ((n, f) # bs) = Some (q, bs') \<Longrightarrow> \<not> f \<or> \<not> k \<le> n \<Longrightarrow> \<exists>bs2. bs' = (n, f) # bs2"
  by (auto split: if_splits)

lemma first_fit_flag: "first_fit k p bs = Some (q, bs') \<Longrightarrow> snd (hd bs') \<Longrightarrow> snd (hd bs)"
  by (cases bs) (auto split: if_splits)

lemma first_fit_no_adj: "first_fit k p bs = Some (q, bs') \<Longrightarrow> no_adj_free bs \<Longrightarrow> no_adj_free bs'"
proof (induction k p bs arbitrary: bs' rule: first_fit.induct)
  case (2 k p n f bs)
  show ?case
  proof (cases "f \<and> k \<le> n")
    case True
    with 2 show ?thesis by (auto simp: no_adj_free_Cons split: if_splits)
  next
    case False
    with "2.prems"(1) obtain bs2 where "first_fit k (p + 12 + n) bs = Some (q, bs2)" "bs' = (n, f) # bs2" by auto
    with False 2 first_fit_flag [of k "p + 12 + n" bs q bs2] first_fit_ne [of k "p + 12 + n" bs q bs2]
    show ?thesis by (auto simp: no_adj_free_Cons)
  qed
qed simp

lemma first_fit_dvd:
  "first_fit k p bs = Some (q, bs') \<Longrightarrow> 4 dvd k \<Longrightarrow> \<forall>(n, f) \<in> set bs. 4 dvd n \<Longrightarrow> \<forall>(n, f) \<in> set bs'. 4 dvd n"
proof (induction k p bs arbitrary: bs' rule: first_fit.induct)
  case (2 k p n f bs)
  have "4 dvd n - k - 12" using "2.prems"(2,3) by (auto intro!: dvd_diff_nat)
  with 2 show ?case by (auto split: if_splits)
qed simp

lemma first_fit_live:
  "chain m p bs \<Longrightarrow> first_fit k p bs = Some (q, bs') \<Longrightarrow>
   p + 12 \<le> q \<and> (\<exists>n. k \<le> n \<and> n < k + 16 \<and> (q, n) \<notin> live_at p bs \<and> live_at p bs' = insert (q, n) (live_at p bs))"
proof (induction k p bs arbitrary: bs' rule: first_fit.induct)
  case (2 k p n f bs)
  have c: "chain m (p + 12 + n) bs" using "2.prems"(1) by simp
  have lo: "(x, y) \<in> live_at (p + 12 + n) bs \<Longrightarrow> p + 12 < x" for x y
    using live_at_bounds [OF c, of x y] by simp
  show ?case
  proof (cases "f \<and> k \<le> n")
    case True
    then have q: "q = p + 12"
      and bs': "bs' = (if k + 16 \<le> n then (k, False) # (n - k - 12, True) # bs else (n, False) # bs)"
      using "2.prems"(2) by (auto simp: )
    have "live_at p bs' = insert (q, if k + 16 \<le> n then k else n) (live_at p ((n, f) # bs))"
    proof (cases "k + 16 \<le> n")
      case k: True
      then have "p + 12 + k + 12 + (n - k - 12) = p + 12 + n" by simp
      with k True show ?thesis unfolding q bs' by (simp only: live_at_Cons if_True if_False) simp
    qed (use True q bs' in simp)
    moreover have "(q, x) \<notin> live_at p ((n, f) # bs)" for x using True lo [of q x] q by auto
    ultimately show ?thesis using True q by auto
  next
    case False
    with "2.prems"(2) obtain bs2 where b: "first_fit k (p + 12 + n) bs = Some (q, bs2)" "bs' = (n, f) # bs2"
      by auto
    from "2.IH" [OF False c b(1)] show ?thesis by (auto simp: b(2))
  qed
qed simp

lemma first_fit_aligned:
  "first_fit k p bs = Some (q, bs') \<Longrightarrow> p mod 4 = 0 \<Longrightarrow> \<forall>(n, f) \<in> set bs. 4 dvd n \<Longrightarrow> q mod 4 = 0"
proof (induction k p bs arbitrary: bs' rule: first_fit.induct)
  case (2 k p n f bs)
  have "(p + 12) mod 4 = 0" "(p + 12 + n) mod 4 = 0" using "2.prems"(2,3) by (auto simp: mod_eq_0_iff_dvd)
  with 2 show ?case by (auto split: if_splits)
qed simp

lemma first_fit_restore:
  "chain m p bs \<Longrightarrow> no_adj_free bs \<Longrightarrow> first_fit k p bs = Some (q, bs') \<Longrightarrow> coalesce (mark_free q p bs') = bs"
proof (induction k p bs arbitrary: bs' rule: first_fit.induct)
  case (2 k p n f bs)
  have c: "chain m (p + 12 + n) bs" using "2.prems"(1) by simp
  show ?case
  proof (cases "f \<and> k \<le> n")
    case True
    then have "n - k - 12 + (k + 12) = n \<or> \<not> k + 16 \<le> n" by auto
    then have "coalesce (mark_free q p bs') = coalesce ((n, f) # bs)"
      using True "2.prems"(3) by (auto split: if_splits simp: add.commute)
    then show ?thesis using coalesce_id [OF "2.prems"(2)] by simp
  next
    case False
    with "2.prems"(3) obtain bs2 where b: "first_fit k (p + 12 + n) bs = Some (q, bs2)" "bs' = (n, f) # bs2"
      by auto
    have na: "no_adj_free bs" "bs \<noteq> [] \<longrightarrow> \<not> (f \<and> snd (hd bs))"
      using "2.prems"(2) by (simp_all add: no_adj_free_Cons)
    have q: "q \<noteq> p + 12" using first_fit_live [OF c b(1)] by auto
    have r: "coalesce (mark_free q (p + 12 + n) bs2) = bs" using "2.IH" [OF False c na(1) b(1)] .
    obtain x xs where x: "mark_free q (p + 12 + n) bs2 = x # xs"
      using first_fit_ne [OF b(1)] by (cases "mark_free q (p + 12 + n) bs2") auto
    have "snd x = snd (hd bs)" using coalesce_hd [of "x # xs"] r x by auto
    with na(2) first_fit_ne [OF b(1)] have "\<not> (f \<and> snd x)" by auto
    with q r x show ?thesis unfolding b(2) by (cases x) auto
  qed
qed simp
lemma heap_addr [simp]: "free_list = of_nat HEAP_LO" "(0 :: nat) < HEAP_LO"
  by (simp_all add: free_list_def HEAP_START_def HEAP_LO_def)

lemma heap_ok_chain: "heap_ok m bs \<Longrightarrow> chain m HEAP_LO bs" "heap_ok m bs \<Longrightarrow> bs \<noteq> []"
  by (simp_all add: heap_ok_def)

lemma live_bounds: "heap_ok m bs \<Longrightarrow> (q, n) \<in> live bs \<Longrightarrow> HEAP_LO + 12 \<le> q \<and> q + n \<le> HEAP_HI"
  unfolding live_def by (rule live_at_bounds [OF heap_ok_chain(1)])

lemma live_disjoint:
  "heap_ok m bs \<Longrightarrow> (q, n) \<in> live bs \<Longrightarrow> (q', n') \<in> live bs \<Longrightarrow>
   (q, n) = (q', n') \<or> q + n + 12 \<le> q' \<or> q' + n' + 12 \<le> q"
  using layout_disjoint [OF heap_ok_chain(1), of m bs q n False q' n' False]
    live_bounds [of m bs q n] live_bounds [of m bs q' n']
  by (auto simp: live_def live_at_def)

lemma memory_alloc_loop:
  assumes "sz \<noteq> 0" "unat sz \<le> 2 ^ 32 - 4"
  shows "memory_alloc sz m = alloc_loop (of_nat (align4 (unat sz))) (of_nat HEAP_LO) m"
  unfolding memory_alloc_def align_word(1) [OF assms(2)] heap_addr(1) using assms(1) by (simp only: if_False)

lemma alloc_none:
  assumes "heap_ok m bs" "sz \<noteq> 0" "unat sz \<le> 2 ^ 32 - 4" "first_fit (align4 (unat sz)) HEAP_LO bs = None"
  shows "memory_alloc sz m = Some (0, m)"
  using alloc_loop_none [OF heap_ok_chain(1) [OF assms(1)] heap_addr(2) align_word(2) [OF assms(3)] assms(4)]
    heap_ok_chain(2) [OF assms(1)]
  by (simp add: memory_alloc_loop [OF assms(2,3)])

lemma alloc_some:
  assumes "heap_ok m bs" "sz \<noteq> 0" "unat sz \<le> 2 ^ 32 - 4"
    "first_fit (align4 (unat sz)) HEAP_LO bs = Some (q, bs')"
  shows "\<exists>m'. memory_alloc sz m = Some (of_nat q, m') \<and> heap_ok m' bs' \<and> same_on 0 HEAP_LO m m'
     \<and> keeps (live bs) m m'"
proof -
  have ff: "no_adj_free bs'" "\<forall>(n, f) \<in> set bs'. 4 dvd n"
    using first_fit_no_adj [OF assms(4)] first_fit_dvd [OF assms(4)] assms(1) align4_bounds(3)
    by (auto simp: heap_ok_def)
  show ?thesis
    using alloc_loop_some [OF heap_ok_chain(1) [OF assms(1)] heap_addr(2) align_word(2) [OF assms(3)] assms(4)]
      first_fit_ne [OF assms(4)] ff
    by (auto simp: memory_alloc_loop [OF assms(2,3)] heap_ok_def live_def)
qed

lemma free_sim:
  assumes "heap_ok m bs" "(q, n) \<in> live bs"
  shows "\<exists>m'. memory_free (of_nat q) m = Some m' \<and> heap_ok m' (coalesce (mark_free q HEAP_LO bs))
     \<and> same_on 0 HEAP_LO m m' \<and> keeps (live bs - {(q, n)}) m m'"
proof -
  note c = heap_ok_chain(1) [OF assms(1)]
  let ?m1 = "set_is_free (of_nat (q - 12)) 1 m" and ?bs1 = "mark_free q HEAP_LO bs"
  have q: "HEAP_LO + 12 \<le> q" "q + n \<le> HEAP_HI" using live_bounds [OF assms] by simp_all
  then have ptr: "(of_nat q :: u32) - 12 = of_nat (q - 12)" "(of_nat q :: u32) \<noteq> 0"
    using HEAP_small by (simp_all add: of_nat_diff of_nat_ne0)
  have c1: "chain ?m1 HEAP_LO ?bs1"
    using assms(2) by (intro mark_free_chain [OF c]) (auto simp: live_def live_at_def)
  have l1: "live_at HEAP_LO ?bs1 = live bs - {(q, n)}"
    using mark_free_live [OF c] assms(2) by (simp add: live_def)
  have so: "same_on lo hi m ?m1" if "hi \<le> 2 ^ 32" "hi \<le> q - 12 \<or> q \<le> lo" for lo hi
    using that q HEAP_small by (intro set_hdr_same_on) auto
  have "same_on q' (q' + n') m ?m1" if a: "(q', n') \<in> live bs" "(q', n') \<noteq> (q, n)" for q' n'
    using a(2) live_disjoint [OF assms(1) a(1) assms(2)] live_bounds [OF assms(1) a(1)] HEAP_small
    by (intro so) auto
  then have k1: "keeps (live bs - {(q, n)}) m ?m1" by (auto simp: keeps_def)
  obtain m' where m': "coalesce_loop (of_nat HEAP_LO) ?m1 = Some m'" "chain m' HEAP_LO (coalesce ?bs1)"
      "same_on 0 HEAP_LO ?m1 m'" "keeps (live_at HEAP_LO ?bs1) ?m1 m'"
    using coalesce_loop_sim [OF c1 heap_addr(2)] heap_ok_chain(2) [OF assms(1)] by auto
  have dv: "\<forall>(n, f) \<in> set (coalesce ?bs1). 4 dvd n"
  proof (rule coalesce_dvd)
    have "\<forall>n \<in> set (map fst ?bs1). 4 dvd n" using assms(1) by (auto simp: mark_free_sizes heap_ok_def)
    then show "\<forall>(n, f) \<in> set ?bs1. 4 dvd n" by fastforce
  qed
  have ne: "coalesce ?bs1 \<noteq> []"
    using coalesce_hd [of ?bs1] heap_ok_chain(2) [OF assms(1)] by auto
  have "same_on 0 HEAP_LO m ?m1" using q HEAP_small by (intro so) auto
  with m' l1 k1 dv ne show ?thesis
    by (auto simp: memory_free_def ptr heap_ok_def coalesce_no_adj intro: same_on_trans keeps_trans)
qed

text \<open>A store inside a live block leaves the heap and the other live blocks alone.\<close>

lemma store_live:
  assumes "heap_ok m bs" "(q, n) \<in> live bs" "i < n"
  shows "heap_ok (m(of_nat (q + i) := v)) bs" "keeps (live bs - {(q, n)}) m (m(of_nat (q + i) := v))"
proof -
  let ?m' = "m(of_nat (q + i) := v)"
  have so: "same_on lo hi m ?m'" if "hi \<le> HEAP_HI" "hi \<le> q \<or> q + n \<le> lo" for lo hi
  proof -
    have "(of_nat j :: u32) \<noteq> of_nat (q + i)" if "lo \<le> j" "j < hi" for j
      using that \<open>hi \<le> HEAP_HI\<close> \<open>hi \<le> q \<or> q + n \<le> lo\<close> assms(3) live_bounds [OF assms(1,2)] HEAP_small
      by (subst of_nat_inj32) auto
    then show ?thesis by (auto simp: same_on_def)
  qed
  have "chain ?m' HEAP_LO bs"
  proof (rule chain_cong [OF heap_ok_chain(1) [OF assms(1)]])
    fix q' n' f assume a: "(q', n', f) \<in> set (layout HEAP_LO bs)"
    have l: "(q, n, False) \<in> set (layout HEAP_LO bs)" using assms(2) by (simp add: live_def live_at_def)
    note c = heap_ok_chain(1) [OF assms(1)]
    from layout_disjoint [OF c a l] layout_bounds [OF c a] layout_bounds [OF c l]
    show "same_on (q' - 12) q' m ?m'" by (intro so) auto
  qed
  with assms(1) show "heap_ok ?m' bs" by (simp add: heap_ok_def)
  have "same_on q' (q' + n') m ?m'" if a: "(q', n') \<in> live bs" "(q', n') \<noteq> (q, n)" for q' n'
    using a(2) live_disjoint [OF assms(1) a(1) assms(2)] live_bounds [OF assms(1) a(1)] HEAP_small
    by (intro so) auto
  then show "keeps (live bs - {(q, n)}) m ?m'" by (auto simp: keeps_def)
qed
section \<open>The contract of an allocator\<close>

text \<open>
  What the rest of the kernel may rely on, for a client that keeps a list of the buffers it
  owns: pointer and contents. \<open>owns L m own\<close> says that the buffers lie in distinct live blocks
  of \<open>L\<close> and that memory holds their contents.
\<close>

definition holds_bytes :: "mem \<Rightarrow> u32 \<Rightarrow> bytes \<Rightarrow> bool" where
  "holds_bytes m r b \<longleftrightarrow> (\<forall>i < length b. m (r + of_nat i) = b ! i)"

definition owns :: "(nat \<times> nat) set \<Rightarrow> mem \<Rightarrow> (u32 \<times> bytes) list \<Rightarrow> bool" where
  "owns L m own \<longleftrightarrow> distinct (map fst own)
     \<and> (\<forall>(r, b) \<in> set own. b \<noteq> [] \<and> (\<exists>n \<ge> length b. (unat r, n) \<in> L) \<and> holds_bytes m r b)"

definition read_bytes :: "mem \<Rightarrow> u32 \<Rightarrow> nat \<Rightarrow> bytes" where
  "read_bytes m r n = map (\<lambda>i. m (r + of_nat i)) [0..<n]"

lemma holds_read [simp]: "holds_bytes m r (read_bytes m r n)" "length (read_bytes m r n) = n"
  by (simp_all add: holds_bytes_def read_bytes_def)

lemma addr_nat: "(r :: u32) + of_nat i = of_nat (unat r + i)"
  by simp

lemma holds_keep:
  assumes "holds_bytes m r b" "same_on (unat r) (unat r + n) m m'" "length b \<le> n"
  shows "holds_bytes m' r b"
  unfolding holds_bytes_def
proof (intro allI impI)
  fix i assume i: "i < length b"
  then have "m' (of_nat (unat r + i)) = m (of_nat (unat r + i))"
    using assms(2,3) unfolding same_on_def by (meson le_add1 nat_add_left_cancel_less order_less_le_trans)
  then show "m' (r + of_nat i) = b ! i"
    using assms(1) i unfolding holds_bytes_def addr_nat by simp
qed

lemma owns_mono:
  assumes "owns L m own" "keeps L' m m'" "\<And>r b n. (r, b) \<in> set own \<Longrightarrow> (unat r, n) \<in> L \<Longrightarrow> (unat r, n) \<in> L'"
  shows "owns L' m' own"
  unfolding owns_def
proof (intro conjI ballI, goal_cases)
  case 1
  then show ?case using assms(1) by (simp add: owns_def)
next
  case (2 x)
  obtain r b where x: "x = (r, b)" by (cases x)
  from assms(1) 2 obtain n where n: "b \<noteq> []" "length b \<le> n" "(unat r, n) \<in> L" "holds_bytes m r b"
    by (auto simp: owns_def x)
  have L': "(unat r, n) \<in> L'" using assms(3) 2 n(3) by (auto simp: x)
  then have "same_on (unat r) (unat r + n) m m'" using assms(2) by (auto simp: keeps_def)
  with n L' holds_keep [of m r b n m'] show ?case by (auto simp: x)
qed

lemma owns_weaken: "owns L m own \<Longrightarrow> L \<subseteq> L' \<Longrightarrow> owns L' m own"
  by (rule owns_mono [of L m own]) auto

lemma owns_drop: "owns L m (xs @ y # ys) \<Longrightarrow> owns L m (xs @ ys)"
  by (auto simp: owns_def)

lemma owns_in:
  assumes "owns L m own" "(r, b) \<in> set own"
  obtains n where "b \<noteq> []" "length b \<le> n" "(unat r, n) \<in> L" "holds_bytes m r b"
  using assms unfolding owns_def by blast

lemma owns_other: "owns L m (xs @ (r, b) # ys) \<Longrightarrow> (r', b') \<in> set (xs @ ys) \<Longrightarrow> r' \<noteq> r"
  unfolding owns_def by (auto simp: image_iff)

lemma owns_insert:
  assumes "owns L m (xs @ ys)" "r \<notin> fst ` set (xs @ ys)" "b \<noteq> []" "length b \<le> n" "(unat r, n) \<in> L"
    "holds_bytes m r b"
  shows "owns L m (xs @ (r, b) # ys)"
  using assms unfolding owns_def by auto

locale allocator =
  fixes alloc :: "u32 \<Rightarrow> mem \<Rightarrow> (u32 \<times> mem) option"
    and dealloc :: "u32 \<Rightarrow> mem \<Rightarrow> mem option"
    and ok :: "mem \<Rightarrow> 'a \<Rightarrow> bool"
    and blocks :: "'a \<Rightarrow> (nat \<times> nat) set"
  assumes alloc_law: "ok m a \<Longrightarrow> sz \<noteq> 0 \<Longrightarrow> unat sz \<le> 2 ^ 32 - 4 \<Longrightarrow>
      \<exists>r m' a'. alloc sz m = Some (r, m') \<and> ok m' a' \<and>
        (if r = 0 then m' = m \<and> a' = a
         else \<exists>n \<ge> unat sz. (unat r, n) \<notin> blocks a \<and> blocks a' = insert (unat r, n) (blocks a)
                \<and> keeps (blocks a) m m')"
    and free_law: "ok m a \<Longrightarrow> (unat r, n) \<in> blocks a \<Longrightarrow>
      \<exists>m' a'. dealloc r m = Some m' \<and> ok m' a' \<and> blocks a' = blocks a - {(unat r, n)}
        \<and> keeps (blocks a') m m'"
    and store_law: "ok m a \<Longrightarrow> (unat r, n) \<in> blocks a \<Longrightarrow> i < n \<Longrightarrow>
      ok (m(r + of_nat i := v)) a \<and> keeps (blocks a - {(unat r, n)}) m (m(r + of_nat i := v))"
    and apart: "ok m a \<Longrightarrow> (q, n) \<in> blocks a \<Longrightarrow> (q', n') \<in> blocks a \<Longrightarrow>
      (q, n) = (q', n') \<or> q + n < q' \<or> q' + n' < q"
    and room: "ok m a \<Longrightarrow> (q, n) \<in> blocks a \<Longrightarrow> 0 < q \<and> q + n < 2 ^ 32"
begin

lemma blocks_fun: "ok m a \<Longrightarrow> (q, n) \<in> blocks a \<Longrightarrow> (q, n') \<in> blocks a \<Longrightarrow> n = n'"
  using apart [of m a q n q n'] by auto

lemma alloc_owns:
  assumes "ok m a" "owns (blocks a) m own" "alloc sz m = Some (r, m')" "r \<noteq> 0" "sz \<noteq> 0"
    "unat sz \<le> 2 ^ 32 - 4"
  shows "\<exists>a'. ok m' a' \<and> owns (blocks a') m' ((r, read_bytes m' r (unat sz)) # own)"
proof -
  obtain a' n where a': "ok m' a'" "unat sz \<le> n" "(unat r, n) \<notin> blocks a"
      "blocks a' = insert (unat r, n) (blocks a)" "keeps (blocks a) m m'"
    using alloc_law [OF assms(1,5,6)] assms(3,4) by auto
  have old: "owns (blocks a') m' own"
    by (rule owns_weaken [OF owns_mono [OF assms(2) a'(5)]]) (auto simp: a'(4))
  have "r \<notin> fst ` set own"
  proof
    assume "r \<in> fst ` set own"
    then obtain b' where "(r, b') \<in> set own" by auto
    with assms(2) obtain n' where "(unat r, n') \<in> blocks a" by (rule owns_in)
    with blocks_fun [OF a'(1), of "unat r" n n'] a'(3,4) show False by auto
  qed
  moreover have "read_bytes m' r (unat sz) \<noteq> []"
    using assms(5) by (simp add: read_bytes_def unat_eq_0)
  ultimately show ?thesis
    using owns_insert [of "blocks a'" m' "[]" own r _ n] old a'(1,2,4) by (intro exI [of _ a']) simp
qed

lemma free_owns:
  assumes "ok m a" "owns (blocks a) m (xs @ (r, b) # ys)" "dealloc r m = Some m'"
  shows "\<exists>a'. ok m' a' \<and> owns (blocks a') m' (xs @ ys)"
proof -
  obtain n where n: "(unat r, n) \<in> blocks a" using assms(2) by (auto simp: owns_def)
  obtain a' where a': "ok m' a'" "blocks a' = blocks a - {(unat r, n)}" "keeps (blocks a') m m'"
    using free_law [OF assms(1) n] assms(3) by auto
  have "owns (blocks a') m' (xs @ ys)"
  proof (rule owns_mono [OF owns_drop [OF assms(2)] a'(3)])
    fix r' b' n'
    assume "(r', b') \<in> set (xs @ ys)" "(unat r', n') \<in> blocks a"
    moreover from this(1) owns_other [OF assms(2)] have "r' \<noteq> r" by blast
    ultimately show "(unat r', n') \<in> blocks a'" by (auto simp: a'(2) word_unat_eq_iff)
  qed
  with a'(1) show ?thesis by blast
qed

lemma store_owns:
  fixes v :: u8
  assumes "ok m a" "owns (blocks a) m (xs @ (r, b) # ys)" "i < length b"
  defines "m' \<equiv> m(r + of_nat i := v)"
  shows "\<exists>a'. ok m' a' \<and> owns (blocks a') m' (xs @ (r, b[i := v]) # ys)"
proof -
  obtain n where n: "(unat r, n) \<in> blocks a" "length b \<le> n" "holds_bytes m r b"
    using assms(2) by (auto simp: owns_def)
  have m': "ok m' a" "keeps (blocks a - {(unat r, n)}) m m'"
    using store_law [OF assms(1) n(1), of i v] assms(3) n(2) unfolding m'_def by auto
  have rest: "owns (blocks a - {(unat r, n)}) m' (xs @ ys)"
  proof (rule owns_mono [OF owns_drop [OF assms(2)] m'(2)])
    fix r' b' n'
    assume "(r', b') \<in> set (xs @ ys)" "(unat r', n') \<in> blocks a"
    moreover from this(1) owns_other [OF assms(2)] have "r' \<noteq> r" by blast
    ultimately show "(unat r', n') \<in> blocks a - {(unat r, n)}" by (auto simp: word_unat_eq_iff)
  qed
  have "holds_bytes m' r (b[i := v])"
    unfolding holds_bytes_def
  proof (intro allI impI)
    fix j assume j: "j < length (b[i := v])"
    have "(r + of_nat j = r + of_nat i) \<longleftrightarrow> j = i"
      using room [OF assms(1) n(1)] j assms(3) n(2) of_nat_inj32 [of j i] by auto
    with j n(3) show "m' (r + of_nat j) = b[i := v] ! j"
      by (auto simp: m'_def holds_bytes_def)
  qed
  moreover have "r \<notin> fst ` set (xs @ ys)" using owns_other [OF assms(2)] by fastforce
  ultimately have "owns (blocks a) m' (xs @ (r, b[i := v]) # ys)"
    using owns_weaken [OF rest, of "blocks a"] n(1,2) assms(3) by (intro owns_insert) auto
  with m'(1) show ?thesis by blast
qed

text \<open>Buffers owned together never overlap, and releasing one always returns.\<close>

lemma owns_apart:
  assumes "ok m a" "owns (blocks a) m own" "(r, b) \<in> set own" "(r', b') \<in> set own" "r \<noteq> r'"
  shows "unat r + length b < unat r' \<or> unat r' + length b' < unat r"
proof -
  obtain n n' where n: "length b \<le> n" "(unat r, n) \<in> blocks a" "length b' \<le> n'" "(unat r', n') \<in> blocks a"
    using owns_in [OF assms(2,3)] owns_in [OF assms(2,4)] by metis
  have "unat r \<noteq> unat r'" using assms(5) by (simp add: word_unat_eq_iff)
  with apart [OF assms(1) n(2) n(4)] n(1,3) show ?thesis by auto
qed

lemma owned_returns:
  assumes "ok m a" "owns (blocks a) m own" "(r, b) \<in> set own"
  shows "\<exists>m'. dealloc r m = Some m'"
  by (rule owns_in [OF assms(2,3)]) (use free_law [OF assms(1)] in blast)

end

interpretation heap: allocator memory_alloc memory_free heap_ok live
proof (unfold_locales, goal_cases)
  case (1 m bs sz)
  show ?case
  proof (cases "first_fit (align4 (unat sz)) HEAP_LO bs")
    case None
    with alloc_none [OF 1] 1 show ?thesis by (intro exI [of _ 0] exI [of _ m] exI [of _ bs]) simp
  next
    case (Some x)
    then obtain q bs' where ff: "first_fit (align4 (unat sz)) HEAP_LO bs = Some (q, bs')" by (cases x) auto
    obtain m' where m': "memory_alloc sz m = Some (of_nat q, m')" "heap_ok m' bs'" "keeps (live bs) m m'"
      using alloc_some [OF 1 ff] by auto
    obtain n where n: "align4 (unat sz) \<le> n" "(q, n) \<notin> live bs" "live bs' = insert (q, n) (live bs)"
      using first_fit_live [OF heap_ok_chain(1) [OF 1(1)] ff] by (auto simp: live_def)
    have q: "0 < q" "q < 2 ^ 32" using live_bounds [OF m'(2), of q n] n(3) HEAP_small by auto
    have "unat sz \<le> n \<and> (unat (of_nat q :: u32), n) \<notin> live bs
        \<and> live bs' = insert (unat (of_nat q :: u32), n) (live bs) \<and> keeps (live bs) m m'"
      using n m'(3) align4_bounds(1) [of "unat sz"] by (simp only: unat_of_nat32 [OF q(2)]) simp
    with m' of_nat_ne0 [OF q] show ?thesis
      by (intro exI [of _ "of_nat q"] exI [of _ m'] exI [of _ bs']) auto
  qed
next
  case (2 m bs r n)
  from free_sim [OF 2] obtain m' where m': "memory_free (of_nat (unat r)) m = Some m'"
      "heap_ok m' (coalesce (mark_free (unat r) HEAP_LO bs))" "keeps (live bs - {(unat r, n)}) m m'" by auto
  have "live (coalesce (mark_free (unat r) HEAP_LO bs)) = live bs - {(unat r, n)}"
    using mark_free_live [OF heap_ok_chain(1) [OF 2(1)]] 2(2) by (simp add: live_def coalesce_live)
  with m' show ?case by (intro exI [of _ m'] exI [of _ "coalesce (mark_free (unat r) HEAP_LO bs)"]) simp
next
  case (3 m bs r n i v)
  with store_live [OF 3, of v] show ?case unfolding addr_nat by simp
next
  case (4 m bs q n q' n')
  with live_disjoint [OF 4] show ?case by auto
next
  case (5 m bs q n)
  with live_bounds [OF 5] HEAP_small show ?case by auto
qed
section \<open>Properties\<close>

lemma memory_init_frame:
  "hi \<le> HEAP_LO \<or> HEAP_LO + 12 \<le> lo \<Longrightarrow> hi \<le> 2 ^ 32 \<Longrightarrow> same_on lo hi m (memory_init m)"
  unfolding memory_init_def heap_addr(1) using HEAP_small(1)
  by (intro same_on_trans [OF set_hdr_same_on(1) same_on_trans [OF set_hdr_same_on(2) set_hdr_same_on(3)]]) (auto simp: HEAP_LO_def)

lemma memory_init_heap: "heap_ok (memory_init m) [(1048564, True)]"
proof -
  have p: "HEAP_LO + 12 \<le> 2 ^ 32" by (simp add: HEAP_LO_def)
  have "HEAP_LO + 12 + 1048564 = HEAP_HI" by (simp add: HEAP_LO_def HEAP_HI_def)
  moreover have "HEAP_SIZE - 12 = of_nat 1048564" by (simp add: HEAP_SIZE_def)
  ultimately show ?thesis
    by (simp only: heap_ok_def memory_init_def heap_addr(1) chain.simps hdr_set_same [OF p]) simp
qed

text \<open>
  After \<^verbatim>\<open>memory_init\<close> the heap is one free block that fills the megabyte behind its
  header, and nothing outside that header was written.
\<close>

theorem memory_init_ok:
  "heap_ok (memory_init m) [(1048564, True)] \<and> same_on 0 HEAP_LO m (memory_init m)
   \<and> same_on (HEAP_LO + 12) (2 ^ 32) m (memory_init m)"
  by (intro conjI memory_init_heap memory_init_frame) (simp_all add: HEAP_LO_def)

text \<open>
  (C17) \<^verbatim>\<open>memory_alloc\<close> implements first fit. For a request up to 4 GiB - 4 bytes on a
  well-formed heap it always returns; it returns NULL and changes nothing exactly when no free
  block holds the size rounded up to a multiple of four; otherwise it returns the payload of
  the first that does, split when at least sixteen bytes would be left over, the heap is
  well-formed again, and no byte below the heap or of a live block has changed.
\<close>

theorem memory_alloc_first_fit:
  assumes "heap_ok m bs" "sz \<noteq> 0" "unat sz \<le> 2 ^ 32 - 4"
  shows "case first_fit (align4 (unat sz)) HEAP_LO bs of
      None \<Rightarrow> memory_alloc sz m = Some (0, m)
    | Some (q, bs') \<Rightarrow> q mod 4 = 0 \<and> HEAP_LO < q \<and>
        (\<exists>m'. memory_alloc sz m = Some (of_nat q, m') \<and> heap_ok m' bs'
           \<and> (\<exists>n. unat sz \<le> n \<and> n < align4 (unat sz) + 16 \<and> live bs' = insert (q, n) (live bs) \<and> (q, n) \<notin> live bs)
           \<and> same_on 0 HEAP_LO m m' \<and> keeps (live bs) m m')"
proof (cases "first_fit (align4 (unat sz)) HEAP_LO bs")
  case None
  then show ?thesis using alloc_none [OF assms] by simp
next
  case (Some x)
  then obtain q bs' where ff: "first_fit (align4 (unat sz)) HEAP_LO bs = Some (q, bs')" by (cases x) auto
  have "q mod 4 = 0"
    using ff assms(1) by (intro first_fit_aligned [OF ff]) (auto simp: heap_ok_def HEAP_LO_def)
  moreover obtain n where "HEAP_LO + 12 \<le> q" "align4 (unat sz) \<le> n" "n < align4 (unat sz) + 16" "(q, n) \<notin> live bs"
      "live bs' = insert (q, n) (live bs)"
    using first_fit_live [OF heap_ok_chain(1) [OF assms(1)] ff] by (auto simp: live_def)
  moreover from this have "unat sz \<le> n" "HEAP_LO < q" using align4_bounds(1) [of "unat sz"] by simp_all
  ultimately show ?thesis using alloc_some [OF assms ff] ff by auto
qed

lemma ff_witness: "first_fit (align4 (unat (5 :: u32))) HEAP_LO [(1048564, True)]
    = Some (1048588, [(8, False), (1048544, True)])"
  by (simp add: align4_def HEAP_LO_def)

theorem memory_alloc_first_fit_witness:
  "\<exists>m'. memory_alloc 5 (memory_init (\<lambda>_. 0)) = Some (1048588, m')
     \<and> heap_ok m' [(8, False), (1048544, True)]"
  using memory_alloc_first_fit [OF memory_init_heap, of 5 "\<lambda>_. 0"] unfolding ff_witness by auto

text \<open>
  (C18) \<^verbatim>\<open>memory_free\<close> of a live block returns, frees exactly that block, merges every run of
  adjacent free blocks, so that none is left, and changes no byte of another live block nor
  below the heap.
\<close>

theorem memory_free_coalesces:
  assumes "heap_ok m bs" "(q, n) \<in> live bs"
  shows "\<exists>m'. memory_free (of_nat q) m = Some m' \<and> heap_ok m' (coalesce (mark_free q HEAP_LO bs))
     \<and> no_adj_free (coalesce (mark_free q HEAP_LO bs))
     \<and> live (coalesce (mark_free q HEAP_LO bs)) = live bs - {(q, n)}
     \<and> same_on 0 HEAP_LO m m' \<and> keeps (live bs - {(q, n)}) m m'"
  using free_sim [OF assms] mark_free_live [OF heap_ok_chain(1) [OF assms(1)]] assms(2)
  by (auto simp: live_def coalesce_live coalesce_no_adj)

lemma alloc_free_restores:
  assumes "heap_ok m bs" "sz \<noteq> 0" "unat sz \<le> 2 ^ 32 - 4" "memory_alloc sz m = Some (r, m1)" "r \<noteq> 0"
  shows "\<exists>m2. memory_free r m1 = Some m2 \<and> heap_ok m2 bs \<and> keeps (live bs) m m2
     \<and> same_on 0 HEAP_LO m m2"
proof (cases "first_fit (align4 (unat sz)) HEAP_LO bs")
  case None
  with alloc_none [OF assms(1-3)] assms(4,5) show ?thesis by simp
next
  case (Some x)
  then obtain q bs' where ff: "first_fit (align4 (unat sz)) HEAP_LO bs = Some (q, bs')" by (cases x) auto
  obtain n where n: "live bs' = insert (q, n) (live bs)" "(q, n) \<notin> live bs"
    using first_fit_live [OF heap_ok_chain(1) [OF assms(1)] ff] by (auto simp: live_def)
  have m1: "heap_ok m1 bs'" "keeps (live bs) m m1" "same_on 0 HEAP_LO m m1" "r = of_nat q"
    using alloc_some [OF assms(1-3) ff] assms(4) by auto
  have "coalesce (mark_free q HEAP_LO bs') = bs"
    using assms(1) by (intro first_fit_restore [OF heap_ok_chain(1) [OF assms(1)] _ ff]) (simp add: heap_ok_def)
  with free_sim [OF m1(1), of q n] n m1 show ?thesis by (auto intro: keeps_trans same_on_trans)
qed

text \<open>
  Allocation followed by release is neutral: the blocks of the heap are again the ones
  before, so that repeated use does not fragment it, and the live data is intact.
\<close>

theorem alloc_then_free:
  assumes "heap_ok m bs" "sz \<noteq> 0" "unat sz \<le> 2 ^ 32 - 4" "memory_alloc sz m = Some (r, m1)" "r \<noteq> 0"
  shows "\<exists>m2. memory_free r m1 = Some m2 \<and> heap_ok m2 bs \<and> keeps (live bs) m m2"
  using alloc_free_restores [OF assms] by blast

text \<open>
  A size within three bytes of 4 GiB overflows in the rounding and becomes zero: on a
  fresh heap the request for 0xFFFFFFFF bytes is answered, not with NULL, but with a block of
  no bytes at all.
\<close>

theorem memory_alloc_overflow:
  "\<exists>m'. memory_alloc 0xFFFFFFFF (memory_init m) = Some (0x10000C, m')
     \<and> heap_ok m' [(0, False), (1048552, True)]"
proof -
  have "memory_alloc 0xFFFFFFFF (memory_init m) = alloc_loop (of_nat 0) (of_nat HEAP_LO) (memory_init m)"
  proof -
    have "(0xFFFFFFFF + 3 :: u32) AND NOT 3 = of_nat 0" by code_simp
    then show ?thesis by (simp only: memory_alloc_def heap_addr(1)) simp
  qed
  moreover have "first_fit 0 HEAP_LO [(1048564, True)] = Some (HEAP_LO + 12, [(0, False), (1048552, True)])"
    by simp
  note alloc_loop_some [OF heap_ok_chain(1) [OF memory_init_heap] heap_addr(2) _ this, of m]
  ultimately show ?thesis by (auto simp: heap_ok_def HEAP_LO_def)
qed

text \<open>
  The steps of the kernel that uses the heap, for a client that frees only what it owns and
  writes only inside it: allocate, fail to allocate, release, store one byte.
\<close>

inductive heap_step :: "mem \<times> (u32 \<times> bytes) list \<Rightarrow> mem \<times> (u32 \<times> bytes) list \<Rightarrow> bool" where
  alloc: "sz \<noteq> 0 \<Longrightarrow> unat sz \<le> 2 ^ 32 - 4 \<Longrightarrow> memory_alloc sz m = Some (r, m') \<Longrightarrow> r \<noteq> 0 \<Longrightarrow>
    heap_step (m, own) (m', (r, read_bytes m' r (unat sz)) # own)"
| fail: "unat sz \<le> 2 ^ 32 - 4 \<Longrightarrow> memory_alloc sz m = Some (0, m') \<Longrightarrow> heap_step (m, own) (m', own)"
| free: "memory_free r m = Some m' \<Longrightarrow> heap_step (m, xs @ (r, b) # ys) (m', xs @ ys)"
| store: "i < length b \<Longrightarrow>
    heap_step (m, xs @ (r, b) # ys) (m(r + of_nat i := v), xs @ (r, b[i := v]) # ys)"

inductive_cases heap_stepE: "heap_step (m, own) s"

definition heap_inv :: "mem \<times> (u32 \<times> bytes) list \<Rightarrow> bool" where
  "heap_inv s \<longleftrightarrow> (\<exists>bs. heap_ok (fst s) bs \<and> owns (live bs) (fst s) (snd s))"

lemma alloc_fail_same:
  assumes "heap_ok m bs" "unat sz \<le> 2 ^ 32 - 4" "memory_alloc sz m = Some (0, m')"
  shows "m' = m"
proof (cases "sz = 0")
  case False
  from heap.alloc_law [OF assms(1) False assms(2)] assms(3) show ?thesis by auto
qed (use assms(3) in \<open>simp add: memory_alloc_def\<close>)

lemma heap_step_inv:
  assumes "heap_step s s'" "heap_inv s"
  shows "heap_inv s'"
  using assms
proof (induction rule: heap_step.induct)
  case (alloc sz m r m' own)
  then show ?case using heap.alloc_owns [of m _ own sz r m'] by (auto simp: heap_inv_def)
next
  case (fail sz m m' own)
  then obtain bs where "heap_ok m bs" "owns (live bs) m own" by (auto simp: heap_inv_def)
  with fail alloc_fail_same [of m bs sz m'] show ?case by (auto simp: heap_inv_def)
next
  case (free r m m' xs b ys)
  then show ?case using heap.free_owns [of m _ xs r b ys m'] by (auto simp: heap_inv_def)
next
  case (store i b m xs r ys v)
  then show ?case using heap.store_owns [of m _ xs r b ys i v] by (auto simp: heap_inv_def)
qed

lemma heap_reach_inv: "heap_step\<^sup>*\<^sup>* (memory_init m, []) s \<Longrightarrow> heap_inv s"
proof (induction rule: rtranclp_induct)
  case base
  have "owns (live [(1048564, True)]) (memory_init m) []" by (simp add: owns_def)
  with memory_init_heap show ?case by (auto simp: heap_inv_def)
qed (rule heap_step_inv)

text \<open>The sample run: one block of five bytes on the fresh heap.\<close>

lemma sample_step:
  "\<exists>m'. memory_alloc 5 (memory_init m) = Some (1048588, m') \<and> heap_ok m' [(8, False), (1048544, True)]"
  using alloc_some [OF memory_init_heap _ _ ff_witness, of m] by auto

lemma sample_live: "(1048588, 8) \<in> live [(8, False), (1048544, True)]"
  by (simp add: live_def HEAP_LO_def)

theorem memory_free_coalesces_witness:
  "\<exists>m m'. memory_free 1048588 m = Some m' \<and> live [(8, False), (1048544, True)] \<noteq> {}
     \<and> heap_ok m' [(1048564, True)]"
proof -
  obtain m where m: "heap_ok m [(8, False), (1048544, True)]" using sample_step by blast
  have "coalesce (mark_free 1048588 HEAP_LO [(8, False), (1048544, True)]) = [(1048564, True)]"
    by (simp add: HEAP_LO_def)
  with memory_free_coalesces [OF m sample_live] sample_live show ?thesis by auto
qed

theorem alloc_then_free_witness:
  "\<exists>m1 m2. memory_alloc 5 (memory_init (\<lambda>_. 0)) = Some (1048588, m1)
     \<and> memory_free 1048588 m1 = Some m2 \<and> heap_ok m2 [(1048564, True)]"
proof -
  obtain m1 where "memory_alloc 5 (memory_init (\<lambda>_. 0)) = Some (1048588, m1)" using sample_step by blast
  with alloc_then_free [OF memory_init_heap, of 5 "\<lambda>_. 0" 1048588 m1] show ?thesis by auto
qed


end
