(* ===== verification/Bh_Task.thy ===== *)
theory Bh_Task
  imports Bh_Heap
begin

text \<open>
  The scheduler, \<^verbatim>\<open>kernel/task.c\<close> with \<^verbatim>\<open>kernel/task.h\<close>, and the context
  switch of \<^verbatim>\<open>kernel/switch.S\<close>. Task control blocks and stacks lie in the flat
  memory; the callee-saved registers, the stack pointer and the interrupt flag are the
  record \<open>cpu\<close>. The specification is a list of threads, each with the register contents it
  resumes with.
\<close>

section \<open>State\<close>

record sched =
  current_task :: u32
  ready_queue :: u32
  next_pid :: u32

record cpu =
  esp :: u32
  ebp :: u32
  ebx :: u32
  esi :: u32
  edi :: u32
  eip :: u32
  cpu_cr3 :: u32
  iflag :: bool

text \<open>The fields of \<^verbatim>\<open>task_t\<close> in memory.\<close>

definition task_id :: "mem \<Rightarrow> u32 \<Rightarrow> u32" where "task_id m t = ld32 m t"
definition task_esp :: "mem \<Rightarrow> u32 \<Rightarrow> u32" where "task_esp m t = ld32 m (t + 4)"
definition task_ebp :: "mem \<Rightarrow> u32 \<Rightarrow> u32" where "task_ebp m t = ld32 m (t + 8)"
definition task_eip :: "mem \<Rightarrow> u32 \<Rightarrow> u32" where "task_eip m t = ld32 m (t + 12)"
definition task_cr3 :: "mem \<Rightarrow> u32 \<Rightarrow> u32" where "task_cr3 m t = ld32 m (t + 16)"
definition task_next :: "mem \<Rightarrow> u32 \<Rightarrow> u32" where "task_next m t = ld32 m (t + 20)"

definition set_task_id :: "u32 \<Rightarrow> u32 \<Rightarrow> mem \<Rightarrow> mem" where "set_task_id t v m = st32 m t v"
definition set_task_esp :: "u32 \<Rightarrow> u32 \<Rightarrow> mem \<Rightarrow> mem" where "set_task_esp t v m = st32 m (t + 4) v"
definition set_task_ebp :: "u32 \<Rightarrow> u32 \<Rightarrow> mem \<Rightarrow> mem" where "set_task_ebp t v m = st32 m (t + 8) v"
definition set_task_eip :: "u32 \<Rightarrow> u32 \<Rightarrow> mem \<Rightarrow> mem" where "set_task_eip t v m = st32 m (t + 12) v"
definition set_task_cr3 :: "u32 \<Rightarrow> u32 \<Rightarrow> mem \<Rightarrow> mem" where "set_task_cr3 t v m = st32 m (t + 16) v"
definition set_task_next :: "u32 \<Rightarrow> u32 \<Rightarrow> mem \<Rightarrow> mem" where "set_task_next t v m = st32 m (t + 20) v"

abbreviation (input) sizeof_task :: u32 where "sizeof_task \<equiv> 24"

section \<open>Operations\<close>

definition tasking_init :: "sched \<Rightarrow> cpu \<Rightarrow> mem \<Rightarrow> (sched \<times> cpu \<times> mem) option" where
  "tasking_init s c m = do {
     let c1 = c\<lparr>iflag := False\<rparr>;
     (t, m1) \<leftarrow> memory_alloc sizeof_task m;
     let m2 = set_task_id t (next_pid s) m1;
     let m3 = set_task_eip t 0 (set_task_ebp t 0 (set_task_esp t 0 m2));
     let m4 = set_task_cr3 t (cpu_cr3 c1) m3;
     let m5 = set_task_next t t m4;
     Some (\<lparr>current_task = t, ready_queue = t, next_pid = next_pid s + 1\<rparr>, c1\<lparr>iflag := True\<rparr>, m5) }"

definition push :: "u32 \<Rightarrow> cpu \<times> mem \<Rightarrow> cpu \<times> mem" where
  "push v = (\<lambda>(c, m). (c\<lparr>esp := esp c - 4\<rparr>, st32 m (esp c - 4) v))"

definition pop :: "cpu \<times> mem \<Rightarrow> u32 \<times> cpu \<times> mem" where
  "pop = (\<lambda>(c, m). (ld32 m (esp c), c\<lparr>esp := esp c + 4\<rparr>, m))"

text \<open>The instructions of \<^verbatim>\<open>_switch_task\<close>, on entry the return address and the two arguments on the stack.\<close>

definition switch_task :: "cpu \<times> mem \<Rightarrow> cpu \<times> mem" where
  "switch_task = (\<lambda>(c, m).
     let (c1, m1) = push (edi c) (push (esi c) (push (ebx c) (push (ebp c) (c, m))));
         eax = ld32 m1 (esp c1 + 20);
         m2 = st32 m1 eax (esp c1);
         c2 = c1\<lparr>esp := ld32 m2 (esp c1 + 24)\<rparr>;
         (r_edi, x3) = pop (c2, m2);
         (r_esi, x4) = pop x3;
         (r_ebx, x5) = pop x4;
         (r_ebp, x6) = pop x5;
         (r_eip, c7, m7) = pop x6
     in (c7\<lparr>edi := r_edi, esi := r_esi, ebx := r_ebx, ebp := r_ebp, eip := r_eip\<rparr>, m7))"

text \<open>
  \<open>eip_val\<close> and \<open>magic\<close> are what the two inline assembly reads give, \<open>ret\<close> the return
  address of the final call; \<open>c\<close> holds the registers at that call.
\<close>

definition task_switch :: "u32 \<Rightarrow> u32 \<Rightarrow> u32 \<Rightarrow> sched \<Rightarrow> cpu \<Rightarrow> mem \<Rightarrow> sched \<times> cpu \<times> mem" where
  "task_switch eip_val magic ret s c m =
     (if current_task s = 0 \<or> task_next m (current_task s) = current_task s then (s, c, m)
      else if magic = 0x12345678 then (s, c, m)
      else let m1 = set_task_eip (current_task s) eip_val m;
               next_task = task_next m1 (current_task s);
               old_task = current_task s;
               s1 = s\<lparr>current_task := next_task\<rparr>;
               c1 = (if task_cr3 m1 old_task \<noteq> task_cr3 m1 (current_task s1)
                     then c\<lparr>cpu_cr3 := task_cr3 m1 (current_task s1)\<rparr> else c);
               x = push ret (push (old_task + 4) (push (task_esp m1 (current_task s1)) (c1, m1)))
           in (s1, switch_task x))"

partial_function (option) tail_loop :: "u32 \<Rightarrow> u32 \<Rightarrow> mem \<Rightarrow> u32 option" where
  "tail_loop ready tail m =
     (if task_next m tail \<noteq> ready then tail_loop ready (task_next m tail) m else Some tail)"

definition create_kernel_thread :: "u32 \<Rightarrow> sched \<Rightarrow> cpu \<Rightarrow> mem \<Rightarrow> (sched \<times> cpu \<times> mem) option" where
  "create_kernel_thread entry_point s c m = do {
     let c1 = c\<lparr>iflag := False\<rparr>;
     (new_task, m1) \<leftarrow> memory_alloc sizeof_task m;
     let m2 = set_task_id new_task (next_pid s) m1;
     let s1 = s\<lparr>next_pid := next_pid s + 1\<rparr>;
     let m3 = set_task_cr3 new_task (task_cr3 m2 (current_task s1)) m2;
     (stack, m4) \<leftarrow> memory_alloc 4096 m3;
     let stack_top = stack + 4096;
     let m5 = st32 m4 (stack_top - 4) entry_point;
     let m6 = st32 m5 (stack_top - 8) 0;
     let m7 = st32 m6 (stack_top - 12) 0;
     let m8 = st32 m7 (stack_top - 16) 0;
     let sp = stack_top - 20;
     let m9 = st32 m8 sp 0;
     let m10 = set_task_eip new_task entry_point (set_task_ebp new_task 0 (set_task_esp new_task sp m9));
     let m11 = set_task_next new_task (ready_queue s1) m10;
     tail \<leftarrow> tail_loop (ready_queue s1) (ready_queue s1) m11;
     let m12 = set_task_next tail new_task m11;
     Some (s1, c1\<lparr>iflag := True\<rparr>, m12) }"

lemmas task_fields = task_id_def task_esp_def task_ebp_def task_eip_def task_cr3_def task_next_def
  set_task_id_def set_task_esp_def set_task_ebp_def set_task_eip_def set_task_cr3_def set_task_next_def

section \<open>Threads\<close>

text \<open>The register contents a thread resumes with.\<close>

record ctx =
  x_esp :: u32
  x_ebp :: u32
  x_ebx :: u32
  x_esi :: u32
  x_edi :: u32
  x_eip :: u32

definition regs :: "cpu \<Rightarrow> ctx" where
  "regs c = \<lparr>x_esp = esp c, x_ebp = ebp c, x_ebx = ebx c, x_esi = esi c, x_edi = edi c, x_eip = eip c\<rparr>"

text \<open>The frame at \<open>p\<close> that \<^verbatim>\<open>switch_task\<close> pops.\<close>

definition frame_at :: "mem \<Rightarrow> nat \<Rightarrow> ctx \<Rightarrow> bool" where
  "frame_at m p x \<longleftrightarrow> x_esp x = of_nat (p + 20) \<and> ld32 m (of_nat p) = x_edi x \<and> ld32 m (of_nat (p + 4)) = x_esi x
     \<and> ld32 m (of_nat (p + 8)) = x_ebx x \<and> ld32 m (of_nat (p + 12)) = x_ebp x \<and> ld32 m (of_nat (p + 16)) = x_eip x"

lemma frame_same_on: "same_on p (p + 20) m m' \<Longrightarrow> frame_at m' p x \<longleftrightarrow> frame_at m p x"
proof -
  assume s: "same_on p (p + 20) m m'"
  have "ld32 m' (of_nat (p + d)) = ld32 m (of_nat (p + d))" if "d + 4 \<le> 20" for d
    using that by (intro ld32_same_on same_on_mono [OF s]) auto
  from this [of 0] this [of 4] this [of 8] this [of 12] this [of 16] show ?thesis by (simp add: frame_at_def)
qed

text \<open>What the switch does, on addresses as numbers.\<close>

lemma switch_task_effect:
  assumes fit: "b + 28 \<le> 2 ^ 32" "t + 4 \<le> 2 ^ 32" "t + 4 \<le> b \<or> b + 28 \<le> t"
    and c: "esp c = of_nat (b + 28)"
    and frame: "frame_at m p x" "p + 20 \<le> 2 ^ 32" "p + 20 \<le> b \<or> b + 28 \<le> p" "p + 20 \<le> t \<or> t + 4 \<le> p"
    and r: "switch_task (push ret (push (of_nat t) (push (of_nat p) (c, m)))) = (c', m')"
  shows "regs c' = x" "cpu_cr3 c' = cpu_cr3 c" "iflag c' = iflag c"
    "ld32 m' (of_nat t) = of_nat b"
    "frame_at m' b \<lparr>x_esp = esp c - 8, x_ebp = ebp c, x_ebx = ebx c, x_esi = esi c, x_edi = edi c, x_eip = ret\<rparr>"
    "hi \<le> 2 ^ 32 \<Longrightarrow> hi \<le> b \<or> b + 28 \<le> lo \<Longrightarrow> hi \<le> t \<or> t + 4 \<le> lo \<Longrightarrow> same_on lo hi m m'"
proof -
  define m1 where "m1 = st32 (st32 (st32 m (of_nat (b + 24)) (of_nat p)) (of_nat (b + 20)) (of_nat t)) (of_nat (b + 16)) ret"
  define m2 where "m2 = st32 (st32 (st32 (st32 m1 (of_nat (b + 12)) (ebp c)) (of_nat (b + 8)) (ebx c)) (of_nat (b + 4)) (esi c)) (of_nat b) (edi c)"
  define m3 where "m3 = st32 m2 (of_nat t) (of_nat b)"
  have adr: "(of_nat (b + 28) :: u32) - 4 = of_nat (b + 24)" "(of_nat (b + 24) :: u32) - 4 = of_nat (b + 20)"
    "(of_nat (b + 20) :: u32) - 4 = of_nat (b + 16)" "(of_nat (b + 16) :: u32) - 4 = of_nat (b + 12)"
    "(of_nat (b + 12) :: u32) - 4 = of_nat (b + 8)" "(of_nat (b + 8) :: u32) - 4 = of_nat (b + 4)"
    "(of_nat (b + 4) :: u32) - 4 = of_nat b" "(of_nat b :: u32) + 20 = of_nat (b + 20)" "(of_nat b :: u32) + 24 = of_nat (b + 24)"
    "(of_nat p :: u32) + 4 = of_nat (p + 4)" "(of_nat (p + 4) :: u32) + 4 = of_nat (p + 8)"
    "(of_nat (p + 8) :: u32) + 4 = of_nat (p + 12)" "(of_nat (p + 12) :: u32) + 4 = of_nat (p + 16)"
    "(of_nat (p + 16) :: u32) + 4 = of_nat (p + 20)" "(of_nat (b + 28) :: u32) - 8 = of_nat (b + 20)"
    "(of_nat (b + 28) :: u32) - 12 = of_nat (b + 16)" "(of_nat (b + 16) :: u32) - 8 = of_nat (b + 8)"
    "(of_nat (b + 16) :: u32) - 12 = of_nat (b + 4)" "(of_nat (b + 16) :: u32) - 16 = of_nat b"
    "4 + (of_nat (b + 16) :: u32) = of_nat (b + 20)" "8 + (of_nat (b + 16) :: u32) = of_nat (b + 24)"
    "8 + (of_nat p :: u32) = of_nat (p + 8)" "12 + (of_nat p :: u32) = of_nat (p + 12)"
    "16 + (of_nat p :: u32) = of_nat (p + 16)" "20 + (of_nat p :: u32) = of_nat (p + 20)"
    "(of_nat p :: u32) + 8 = of_nat (p + 8)" "(of_nat p :: u32) + 12 = of_nat (p + 12)"
    "(of_nat p :: u32) + 16 = of_nat (p + 16)" "(of_nat p :: u32) + 20 = of_nat (p + 20)"
    by simp_all
  have so: "same_on lo hi m m2" if "hi \<le> 2 ^ 32" "hi \<le> b \<or> b + 28 \<le> lo" for lo hi
    unfolding m2_def m1_def using fit(1) that
    by (intro same_on_trans [OF _ st32_same_on] same_on_refl) auto
  have so3: "same_on lo hi m2 m3" if "hi \<le> 2 ^ 32" "hi \<le> t \<or> t + 4 \<le> lo" for lo hi
    unfolding m3_def using fit(2) that by (intro st32_same_on) auto
  note other = ld32_st32_other
  have ld: "ld32 m2 (of_nat (b + 24)) = of_nat p" "ld32 m2 (of_nat (b + 20)) = of_nat t" "ld32 m2 (of_nat (b + 16)) = ret"
    "ld32 m2 (of_nat (b + 12)) = ebp c" "ld32 m2 (of_nat (b + 8)) = ebx c" "ld32 m2 (of_nat (b + 4)) = esi c"
    "ld32 m2 (of_nat b) = edi c"
    unfolding m2_def m1_def using fit(1) by (simp_all add: other del: of_nat_add)
  have ld3: "ld32 m3 (of_nat (b + d)) = ld32 m2 (of_nat (b + d))" if "d + 4 \<le> 28" for d
    using fit that by (intro ld32_same_on so3) auto
  have fr: "frame_at m3 p x"
    using frame(1) frame_same_on [OF so] frame_same_on [OF so3] frame(2-) fit by simp
  have m': "m' = m3" and c': "c' = c\<lparr>esp := of_nat (p + 20), edi := ld32 m3 (of_nat p), esi := ld32 m3 (of_nat (p + 4)),
       ebx := ld32 m3 (of_nat (p + 8)), ebp := ld32 m3 (of_nat (p + 12)), eip := ld32 m3 (of_nat (p + 16))\<rparr>"
    using r ld(1,2) ld3 [of 24]
    by (simp_all add: switch_task_def push_def pop_def c adr Let_def del: of_nat_add flip: m1_def)
      (auto simp add: adr simp del: of_nat_add simp flip: m2_def m3_def)
  show "regs c' = x" "cpu_cr3 c' = cpu_cr3 c" "iflag c' = iflag c"
    using fr by (simp_all add: c' regs_def frame_at_def)
  show "ld32 m' (of_nat t) = of_nat b" by (simp add: m' m3_def)
  show "frame_at m' b \<lparr>x_esp = esp c - 8, x_ebp = ebp c, x_ebx = ebx c, x_esi = esi c, x_edi = edi c, x_eip = ret\<rparr>"
    using ld ld3 [of 0] ld3 [of 4] ld3 [of 8] ld3 [of 12] ld3 [of 16] by (simp add: m' frame_at_def c)
  show "same_on lo hi m m'" if "hi \<le> 2 ^ 32" "hi \<le> b \<or> b + 28 \<le> lo" "hi \<le> t \<or> t + 4 \<le> lo"
    unfolding m' using that by (intro same_on_trans [OF so so3])
qed

section \<open>Regions\<close>

definition apart :: "nat \<times> nat \<Rightarrow> nat \<times> nat \<Rightarrow> bool" where
  "apart r r' \<longleftrightarrow> snd r \<le> fst r' \<or> snd r' \<le> fst r"

text \<open>A region a thread may write: below the heap, or inside one live block.\<close>

definition safe_region :: "blocks \<Rightarrow> nat \<times> nat \<Rightarrow> bool" where
  "safe_region bs r \<longleftrightarrow> fst r \<le> snd r \<and> (snd r \<le> HEAP_LO \<or> (\<exists>(q, n) \<in> live bs. q \<le> fst r \<and> snd r \<le> q + n))"

lemma apart_sym: "apart r r' \<longleftrightarrow> apart r' r"
  by (auto simp: apart_def)

lemma apart_mono: "apart (a, b) r \<Longrightarrow> a \<le> a' \<Longrightarrow> b' \<le> b \<Longrightarrow> apart (a', b') r"
  by (auto simp: apart_def)

lemma safe_bound: "heap_ok m bs \<Longrightarrow> safe_region bs r \<Longrightarrow> snd r \<le> HEAP_HI"
  using live_bounds [of m bs] HEAP_small by (fastforce simp: safe_region_def)

lemma safe_bound32: "heap_ok m bs \<Longrightarrow> safe_region bs r \<Longrightarrow> snd r < 2 ^ 32"
  using safe_bound [of m bs r] HEAP_small by simp

lemma safe_sub: "safe_region bs (a, b) \<Longrightarrow> a \<le> a' \<Longrightarrow> b' \<le> b \<Longrightarrow> a' \<le> b' \<Longrightarrow> safe_region bs (a', b')"
  by (fastforce simp: safe_region_def)

lemma safe_mono: "safe_region bs r \<Longrightarrow> live bs \<subseteq> live bs' \<Longrightarrow> safe_region bs' r"
  by (fastforce simp: safe_region_def)

text \<open>The memory changed only inside the given regions.\<close>

definition only_in :: "(nat \<times> nat) set \<Rightarrow> mem \<Rightarrow> mem \<Rightarrow> bool" where
  "only_in R m m' \<longleftrightarrow> (\<forall>lo hi. hi \<le> 2 ^ 32 \<longrightarrow> (\<forall>r \<in> R. apart r (lo, hi)) \<longrightarrow> same_on lo hi m m')"

lemma only_in_same: "only_in R m m' \<Longrightarrow> (\<And>r. r \<in> R \<Longrightarrow> apart r (lo, hi)) \<Longrightarrow> hi \<le> 2 ^ 32 \<Longrightarrow> same_on lo hi m m'"
  by (simp add: only_in_def)

lemma only_in_mono: "only_in R m m' \<Longrightarrow> R \<subseteq> R' \<Longrightarrow> only_in R' m m'"
  by (auto simp: only_in_def)

lemma only_in_sub: "only_in {(a, b)} m m' \<Longrightarrow> (a', b') \<in> R \<Longrightarrow> a' \<le> a \<Longrightarrow> b \<le> b' \<Longrightarrow> only_in R m m'"
  unfolding only_in_def by (fastforce simp: apart_def)

lemma st32_only_in: "p + 4 \<le> 2 ^ 32 \<Longrightarrow> (a, b) \<in> R \<Longrightarrow> a \<le> p \<Longrightarrow> p + 4 \<le> b \<Longrightarrow> only_in R m (st32 m (of_nat p) v)"
  unfolding only_in_def by (intro allI impI st32_same_on) (auto simp: apart_def)

lemma only_in_refl [simp]: "only_in R m m"
  by (simp add: only_in_def)

lemma only_in_trans: "only_in R m m' \<Longrightarrow> only_in R m' m'' \<Longrightarrow> only_in R m m''"
  unfolding only_in_def by (blast intro: same_on_trans)

text \<open>Writing inside safe regions keeps the heap.\<close>

lemma heap_ok_only_in:
  assumes h: "heap_ok m bs" and safe: "\<And>r. r \<in> R \<Longrightarrow> safe_region bs r" and o: "only_in R m m'"
  shows "heap_ok m' bs"
proof -
  note c = heap_ok_chain(1) [OF h]
  have "chain m' HEAP_LO bs"
  proof (rule chain_cong [OF c])
    fix q n f assume a: "(q, n, f) \<in> set (layout HEAP_LO bs)"
    note b = layout_bounds [OF c a]
    have "apart r (q - 12, q)" if rR: "r \<in> R" for r
    proof (cases "snd r \<le> HEAP_LO")
      case True
      with b show ?thesis by (auto simp: apart_def)
    next
      case False
      then obtain q' n' where l: "(q', n') \<in> live bs" "q' \<le> fst r" "snd r \<le> q' + n'"
        using safe [OF rR] by (auto simp: safe_region_def)
      then have l': "(q', n', False) \<in> set (layout HEAP_LO bs)" by (simp add: live_def live_at_def)
      from layout_disjoint [OF c a l'] l(2,3) b layout_bounds [OF c l'] show ?thesis
        by (auto simp: apart_def)
    qed
    then show "same_on (q - 12) q m m'" using b HEAP_small by (intro only_in_same [OF o]) auto
  qed
  with h show ?thesis by (simp add: heap_ok_def)
qed

text \<open>What an allocation gives the owner of safe regions.\<close>

lemma memory_alloc_fresh:
  assumes "heap_ok m bs" "sz \<noteq> 0" "unat sz \<le> 2 ^ 32 - 4" and ff: "first_fit (align4 (unat sz)) HEAP_LO bs = Some (q, bs')"
  obtains m' n where "memory_alloc sz m = Some (of_nat q, m')" "heap_ok m' bs'" "0 < q" "unat sz \<le> n"
    "live bs' = insert (q, n) (live bs)"
    "\<And>reg. safe_region bs reg \<Longrightarrow> same_on (fst reg) (snd reg) m m'"
    "\<And>reg. safe_region bs reg \<Longrightarrow> apart reg (q, q + n)"
proof -
  from alloc_some [OF assms(1-3) ff] obtain m' where
    a: "memory_alloc sz m = Some (of_nat q, m')" "heap_ok m' bs'" "same_on 0 HEAP_LO m m'" "keeps (live bs) m m'" by auto
  obtain n where n: "align4 (unat sz) \<le> n" "(q, n) \<notin> live bs" "live bs' = insert (q, n) (live bs)"
    using first_fit_live [OF heap_ok_chain(1) [OF assms(1)] ff] by (auto simp: live_def)
  have q: "HEAP_LO + 12 \<le> q" using live_bounds [OF a(2), of q n] n(3) by simp
  have sz: "unat sz \<le> n" using n(1) align4_bounds(1) [of "unat sz"] by simp
  show thesis
  proof (rule that [OF a(1,2) _ sz n(3)])
    show "0 < q" using q by simp
    fix reg assume s: "safe_region bs reg"
    show "same_on (fst reg) (snd reg) m m'"
    proof (cases "snd reg \<le> HEAP_LO")
      case True
      then show ?thesis by (intro same_on_mono [OF a(3)]) auto
    next
      case False
      with s obtain q n where l: "(q, n) \<in> live bs" "q \<le> fst reg" "snd reg \<le> q + n"
        by (auto simp: safe_region_def)
      from l(1) a(4) have "same_on q (q + n) m m'" by (auto simp: keeps_def)
      then show ?thesis using l(2,3) by (rule same_on_mono)
    qed
    show "apart reg (q, q + n)"
    proof (cases "snd reg \<le> HEAP_LO")
      case True
      with q show ?thesis by (auto simp: apart_def)
    next
      case False
      with s obtain q' n' where l: "(q', n') \<in> live bs" "q' \<le> fst reg" "snd reg \<le> q' + n'"
        by (auto simp: safe_region_def)
      moreover from l(1) n(2) have "(q', n') \<noteq> (q, n)" by auto
      ultimately show ?thesis using live_disjoint [OF a(2), of q' n' q n] n(3)
        by (auto simp: apart_def)
    qed
  qed
qed

lemma align4_sizes: "align4 (unat (24 :: u32)) = 24" "align4 (unat (4096 :: u32)) = 4096"
  by (simp_all add: align4_def)

section \<open>The scheduler invariant\<close>

text \<open>A thread: its control block, its stack, and the registers it resumes with when it waits.\<close>

record thread =
  t_tcb :: nat
  t_lo :: nat
  t_hi :: nat
  t_ctx :: ctx

abbreviation tcb :: "thread \<Rightarrow> u32" where "tcb t \<equiv> of_nat (t_tcb t)"

definition tcb_reg :: "thread \<Rightarrow> nat \<times> nat" where "tcb_reg t = (t_tcb t, t_tcb t + 24)"
definition stack_reg :: "thread \<Rightarrow> nat \<times> nat" where "stack_reg t = (t_lo t, t_hi t)"

definition placed :: "blocks \<Rightarrow> thread list \<Rightarrow> bool" where
  "placed bs ths \<longleftrightarrow>
     (\<forall>i < length ths. 0 < t_tcb (ths ! i) \<and> safe_region bs (tcb_reg (ths ! i)) \<and> safe_region bs (stack_reg (ths ! i)))
     \<and> (\<forall>i < length ths. \<forall>j < length ths. apart (tcb_reg (ths ! i)) (stack_reg (ths ! j))
          \<and> (i \<noteq> j \<longrightarrow> apart (tcb_reg (ths ! i)) (tcb_reg (ths ! j)) \<and> apart (stack_reg (ths ! i)) (stack_reg (ths ! j))))"

definition waiting :: "mem \<Rightarrow> thread \<Rightarrow> bool" where
  "waiting m t \<longleftrightarrow> (\<exists>p. task_esp m (tcb t) = of_nat p \<and> t_lo t \<le> p \<and> p + 20 \<le> t_hi t \<and> frame_at m p (t_ctx t))"

text \<open>
  The control blocks form a ring in the order of the list, beginning at the ready queue; thread
  \<open>k\<close> runs and all others wait; all share one page directory.
\<close>

definition sched_rel :: "blocks \<Rightarrow> thread list \<Rightarrow> nat \<Rightarrow> sched \<Rightarrow> cpu \<Rightarrow> mem \<Rightarrow> bool" where
  "sched_rel bs ths k s c m \<longleftrightarrow> heap_ok m bs \<and> placed bs ths \<and> k < length ths
     \<and> current_task s = tcb (ths ! k) \<and> ready_queue s = tcb (ths ! 0)
     \<and> (\<forall>i < length ths. task_next m (tcb (ths ! i)) = tcb (ths ! ((i + 1) mod length ths)))
     \<and> (\<forall>i < length ths. task_cr3 m (tcb (ths ! i)) = cpu_cr3 c)
     \<and> (\<forall>i < length ths. i \<noteq> k \<longrightarrow> waiting m (ths ! i))"

lemma placedD:
  assumes "placed bs ths" "i < length ths"
  shows "0 < t_tcb (ths ! i)" "safe_region bs (tcb_reg (ths ! i))" "safe_region bs (stack_reg (ths ! i))"
    "j < length ths \<Longrightarrow> apart (tcb_reg (ths ! i)) (stack_reg (ths ! j))"
    "j < length ths \<Longrightarrow> i \<noteq> j \<Longrightarrow> apart (tcb_reg (ths ! i)) (tcb_reg (ths ! j))"
    "j < length ths \<Longrightarrow> i \<noteq> j \<Longrightarrow> apart (stack_reg (ths ! i)) (stack_reg (ths ! j))"
  using assms by (auto simp: placed_def)

lemma task_field_same:
  assumes "same_on p (p + 24) m m'"
  shows "task_esp m' (of_nat p) = task_esp m (of_nat p)" "task_next m' (of_nat p) = task_next m (of_nat p)"
    "task_cr3 m' (of_nat p) = task_cr3 m (of_nat p)"
proof -
  have "ld32 m' (of_nat (p + d)) = ld32 m (of_nat (p + d))" if "d + 4 \<le> 24" for d
    using that by (intro ld32_same_on same_on_mono [OF assms]) auto
  from this [of 4] this [of 20] this [of 16]
  show "task_esp m' (of_nat p) = task_esp m (of_nat p)" "task_next m' (of_nat p) = task_next m (of_nat p)"
    "task_cr3 m' (of_nat p) = task_cr3 m (of_nat p)"
    by (simp_all add: task_fields)
qed

lemma waiting_cong:
  assumes "task_esp m' (tcb t) = task_esp m (tcb t)" "same_on (fst (stack_reg t)) (snd (stack_reg t)) m m'" "waiting m t"
  shows "waiting m' t"
proof -
  from assms(3) obtain p where p: "task_esp m (tcb t) = of_nat p" "t_lo t \<le> p" "p + 20 \<le> t_hi t" "frame_at m p (t_ctx t)"
    by (auto simp: waiting_def)
  have "same_on p (p + 20) m m'" using assms(2) p by (auto simp: stack_reg_def intro: same_on_mono)
  with p assms(1) show ?thesis by (auto simp: waiting_def frame_same_on intro!: exI [of _ p])
qed

lemma waiting_same_on:
  assumes "same_on (fst (tcb_reg t)) (snd (tcb_reg t)) m m'" "same_on (fst (stack_reg t)) (snd (stack_reg t)) m m'" "waiting m t"
  shows "waiting m' t"
  using assms(1) by (intro waiting_cong [OF _ assms(2,3)]) (simp add: tcb_reg_def task_field_same)

lemma tcb_inj:
  assumes "heap_ok m bs" "placed bs ths" "i < length ths" "j < length ths" "i \<noteq> j"
  shows "tcb (ths ! i) \<noteq> tcb (ths ! j)"
proof -
  have "t_tcb (ths ! i) < 2 ^ 32" "t_tcb (ths ! j) < 2 ^ 32"
    using safe_bound32 [OF assms(1) placedD(2) [OF assms(2,3)]] safe_bound32 [OF assms(1) placedD(2) [OF assms(2,4)]]
    by (simp_all add: tcb_reg_def)
  with placedD(5) [OF assms(2,3,4,5)] show ?thesis by (subst of_nat_inj32) (auto simp: apart_def tcb_reg_def)
qed

section \<open>Switching\<close>

definition suspend :: "cpu \<Rightarrow> u32 \<Rightarrow> thread \<Rightarrow> thread" where
  "suspend c ret t = t\<lparr>t_ctx := (regs c)\<lparr>x_esp := esp c - 8, x_eip := ret\<rparr>\<rparr>"

lemma suspend_regs [simp]: "tcb (suspend c ret t) = tcb t" "tcb_reg (suspend c ret t) = tcb_reg t"
  "stack_reg (suspend c ret t) = stack_reg t" "t_tcb (suspend c ret t) = t_tcb t"
  by (simp_all add: suspend_def tcb_reg_def stack_reg_def)

lemma placed_snoc:
  assumes pl: "placed bs ths" and mono: "live bs \<subseteq> live bs'" and new: "0 < t_tcb th" "safe_region bs' (tcb_reg th)"
    "safe_region bs' (stack_reg th)" "apart (tcb_reg th) (stack_reg th)"
    and ap: "\<And>i. i < length ths \<Longrightarrow> apart (tcb_reg (ths ! i)) (tcb_reg th)"
    "\<And>i. i < length ths \<Longrightarrow> apart (stack_reg (ths ! i)) (tcb_reg th)"
    "\<And>i. i < length ths \<Longrightarrow> apart (tcb_reg (ths ! i)) (stack_reg th)"
    "\<And>i. i < length ths \<Longrightarrow> apart (stack_reg (ths ! i)) (stack_reg th)"
  shows "placed bs' (ths @ [th])"
proof -
  have sw: "apart (tcb_reg th) (tcb_reg (ths ! i)) \<and> apart (tcb_reg th) (stack_reg (ths ! i)) \<and> apart (stack_reg th) (stack_reg (ths ! i))"
    if "i < length ths" for i using ap(1,2,4) [OF that] by (simp add: apart_sym [of "tcb_reg th"] apart_sym [of "stack_reg th"])
  have old: "0 < t_tcb (ths ! i) \<and> safe_region bs' (tcb_reg (ths ! i)) \<and> safe_region bs' (stack_reg (ths ! i))" if "i < length ths" for i
    using placedD(1-3) [OF pl that] mono by (blast intro: safe_mono)
  have pair: "apart (tcb_reg (ths ! i)) (stack_reg (ths ! j)) \<and> (i \<noteq> j \<longrightarrow> apart (tcb_reg (ths ! i)) (tcb_reg (ths ! j)) \<and> apart (stack_reg (ths ! i)) (stack_reg (ths ! j)))"
    if "i < length ths" "j < length ths" for i j using placedD(4-6) [OF pl that(1)] that(2) by blast
  show ?thesis unfolding placed_def length_append_singleton
  proof (intro conjI allI impI, goal_cases)
    case (4 i j) then show ?case using new(4) sw pair ap(3) by (cases "i = length ths"; cases "j = length ths") (auto simp: nth_append)
  next
    case (5 i j) then show ?case using sw pair ap(1) by (cases "i = length ths"; cases "j = length ths") (auto simp: nth_append)
  next
    case (6 i j) then show ?case using sw pair ap(4) by (cases "i = length ths"; cases "j = length ths") (auto simp: nth_append)
  qed (use new old in \<open>auto simp: nth_append less_Suc_eq\<close>)
qed

lemma placed_cong:
  assumes "placed bs ths" "length ths' = length ths"
    "\<And>i. i < length ths \<Longrightarrow> tcb_reg (ths' ! i) = tcb_reg (ths ! i) \<and> stack_reg (ths' ! i) = stack_reg (ths ! i)"
  shows "placed bs ths'"
  using assms unfolding placed_def by (simp add: tcb_reg_def)

lemma switch_to_next:
  assumes rel: "sched_rel bs ths k s c m" and many: "1 < length ths" and magic: "magic \<noteq> 0x12345678"
    and room: "t_lo (ths ! k) + 28 \<le> unat (esp c)" "unat (esp c) \<le> t_hi (ths ! k)"
    and r: "task_switch eip_val magic ret s c m = (s', c', m')"
  defines "k' \<equiv> (k + 1) mod length ths"
  shows "sched_rel bs (ths[k := suspend c ret (ths ! k)]) k' s' c' m'"
    "regs c' = t_ctx (ths ! k')" "iflag c' = iflag c" "next_pid s' = next_pid s"
    "only_in {tcb_reg (ths ! k), stack_reg (ths ! k)} m m'"
proof -
  note rel' = rel [unfolded sched_rel_def]
  let ?n = "length ths" and ?t = "ths ! k" and ?t' = "ths ! k'"
  have h: "heap_ok m bs" and pl: "placed bs ths" and k: "k < ?n" using rel' by simp_all
  have k': "k' < ?n" "k' \<noteq> k" using many k by (auto simp: k'_def mod_Suc)
  define b where "b = unat (esp c) - 28"
  have b: "esp c = of_nat (b + 28)" "t_lo ?t \<le> b" "b + 28 \<le> t_hi ?t" "b + 28 \<le> 2 ^ 32"
    using room unat_lt2p_u32 [of "esp c"] by (simp_all add: b_def)
  obtain p where p: "task_esp m (tcb ?t') = of_nat p" "t_lo ?t' \<le> p" "p + 20 \<le> t_hi ?t'" "frame_at m p (t_ctx ?t')"
    using rel' k' by (auto simp: waiting_def)
  have small: "t_tcb ?t + 24 < 2 ^ 32" "t_tcb ?t' + 24 < 2 ^ 32" "t_hi ?t' < 2 ^ 32"
    using safe_bound32 [OF h placedD(2) [OF pl k]] safe_bound32 [OF h placedD(2) [OF pl k'(1)]]
      safe_bound32 [OF h placedD(3) [OF pl k'(1)]] by (simp_all add: tcb_reg_def stack_reg_def)
  have ap: "apart (t_tcb ?t, t_tcb ?t + 24) (t_lo ?t, t_hi ?t)" "apart (t_tcb ?t, t_tcb ?t + 24) (t_lo ?t', t_hi ?t')"
    "apart (t_lo ?t, t_hi ?t) (t_lo ?t', t_hi ?t')" "apart (t_tcb ?t, t_tcb ?t + 24) (t_tcb ?t', t_tcb ?t' + 24)"
    using placedD(4,5,6) [OF pl k] k k' by (simp_all add: tcb_reg_def stack_reg_def)
  let ?m1 = "set_task_eip (tcb ?t) eip_val m"
  have m1: "only_in {tcb_reg ?t} m ?m1"
    unfolding set_task_eip_def using small(1) st32_only_in [of "t_tcb ?t + 12" "t_tcb ?t" "t_tcb ?t + 24"]
    by (simp add: tcb_reg_def add.commute)
  have next1: "task_next ?m1 (tcb ?t) = tcb ?t'"
  proof -
    have "task_next ?m1 (tcb ?t) = task_next m (tcb ?t)"
      using ld32_st32_other [of "t_tcb ?t + 12" "t_tcb ?t + 20" m eip_val] small(1)
      by (simp add: set_task_eip_def task_next_def add.commute)
    then show ?thesis using rel' by (simp add: k'_def)
  qed
  have cr3: "task_cr3 ?m1 (tcb ?t) = cpu_cr3 c"
  proof -
    have "task_cr3 ?m1 (tcb ?t) = task_cr3 m (tcb ?t)"
      using ld32_st32_other [of "t_tcb ?t + 12" "t_tcb ?t + 16" m eip_val] small(1)
      by (simp add: set_task_eip_def task_cr3_def add.commute)
    then show ?thesis using rel' by simp
  qed
  have other1: "same_on (t_tcb ?t') (t_tcb ?t' + 24) m ?m1" "same_on p (p + 20) m ?m1"
    using ap p small by (auto intro!: only_in_same [OF m1] simp: tcb_reg_def apart_def)
  note f1 = task_field_same [OF other1(1)]
  have sw: "switch_task (push ret (push (of_nat (t_tcb ?t + 4)) (push (of_nat p) (c, ?m1)))) = (c', m')"
    and s': "s' = s\<lparr>current_task := tcb ?t'\<rparr>"
  proof -
    have "current_task s \<noteq> 0" using rel' placedD(1) [OF pl k] small(1) by (auto simp: of_nat_ne0 simp del: of_nat_eq_0_iff)
    moreover have "task_next m (current_task s) = tcb ?t'" "tcb ?t' \<noteq> current_task s"
      using rel' tcb_inj [OF h pl k'(1) k k'(2)] by (simp_all add: k'_def)
    moreover have "task_cr3 ?m1 (tcb ?t') = cpu_cr3 c" using rel' k' f1 by simp
    ultimately show "switch_task (push ret (push (of_nat (t_tcb ?t + 4)) (push (of_nat p) (c, ?m1)))) = (c', m')"
      "s' = s\<lparr>current_task := tcb ?t'\<rparr>"
      using r magic cr3 next1 f1 p(1) rel' by (auto simp: task_switch_def Let_def add.commute)
  qed
  have fr: "frame_at ?m1 p (t_ctx ?t')" using p(4) frame_same_on [OF other1(2)] by simp
  have sides: "t_tcb ?t + 4 + 4 \<le> 2 ^ 32" "t_tcb ?t + 4 + 4 \<le> b \<or> b + 28 \<le> t_tcb ?t + 4" "p + 20 \<le> 2 ^ 32"
    "p + 20 \<le> b \<or> b + 28 \<le> p" "p + 20 \<le> t_tcb ?t + 4 \<or> t_tcb ?t + 4 + 4 \<le> p"
    using ap b(2,3) p(2,3) small unfolding apart_def fst_conv snd_conv by linarith+
  note effect = switch_task_effect [OF b(4) sides(1,2) b(1) fr sides(3,4,5) sw]
  have e: "regs c' = t_ctx ?t'" "cpu_cr3 c' = cpu_cr3 c" "iflag c' = iflag c" "ld32 m' (of_nat (t_tcb ?t + 4)) = of_nat b"
    "frame_at m' b \<lparr>x_esp = esp c - 8, x_ebp = ebp c, x_ebx = ebx c, x_esi = esi c, x_edi = edi c, x_eip = ret\<rparr>"
    "\<And>lo hi. hi \<le> 2 ^ 32 \<Longrightarrow> hi \<le> b \<or> b + 28 \<le> lo \<Longrightarrow> hi \<le> t_tcb ?t + 4 \<or> t_tcb ?t + 4 + 4 \<le> lo \<Longrightarrow> same_on lo hi ?m1 m'"
    by (rule effect; assumption)+
  show "regs c' = t_ctx (ths ! k')" "iflag c' = iflag c" "next_pid s' = next_pid s"
    by (simp_all add: e s')
  have m1': "only_in {tcb_reg ?t, stack_reg ?t} ?m1 m'"
    unfolding only_in_def by (intro allI impI e(6)) (use b in \<open>auto simp: apart_def tcb_reg_def stack_reg_def\<close>)
  show frame: "only_in {tcb_reg ?t, stack_reg ?t} m m'"
    by (rule only_in_trans [OF only_in_mono [OF m1] m1']) simp
  have other: "same_on (fst (tcb_reg (ths ! i))) (snd (tcb_reg (ths ! i))) m m'"
    "same_on (fst (stack_reg (ths ! i))) (snd (stack_reg (ths ! i))) m m'" if i: "i < ?n" "i \<noteq> k" for i
  proof -
    have a: "apart (tcb_reg ?t) (tcb_reg (ths ! i))" "apart (stack_reg ?t) (tcb_reg (ths ! i))"
      "apart (tcb_reg ?t) (stack_reg (ths ! i))" "apart (stack_reg ?t) (stack_reg (ths ! i))"
      using placedD(4) [OF pl i(1) k] placedD(4-6) [OF pl k i(1)] i(2) by (simp_all add: apart_sym [of "stack_reg ?t" "tcb_reg (ths ! i)"])
    have le: "snd (tcb_reg (ths ! i)) \<le> 2 ^ 32" "snd (stack_reg (ths ! i)) \<le> 2 ^ 32"
      using safe_bound32 [OF h placedD(2) [OF pl i(1)]] safe_bound32 [OF h placedD(3) [OF pl i(1)]] by simp_all
    show "same_on (fst (tcb_reg (ths ! i))) (snd (tcb_reg (ths ! i))) m m'"
      by (rule only_in_same [OF frame _ le(1)]) (use a(1,2) in auto)
    show "same_on (fst (stack_reg (ths ! i))) (snd (stack_reg (ths ! i))) m m'"
      by (rule only_in_same [OF frame _ le(2)]) (use a(3,4) in auto)
  qed
  have own: "ld32 m' (of_nat (t_tcb ?t + d)) = ld32 ?m1 (of_nat (t_tcb ?t + d))" if "8 \<le> d" "d + 4 \<le> 24" for d
    using that ap(1) b small by (intro ld32_same_on e(6)) (auto simp: apart_def)
  have own': "task_next m' (tcb ?t) = tcb ?t'" "task_cr3 m' (tcb ?t) = cpu_cr3 c" "task_esp m' (tcb ?t) = of_nat b"
    using own [of 20] own [of 16] next1 cr3 e(4) by (simp_all add: task_next_def task_cr3_def task_esp_def add.commute)
  let ?ths = "ths[k := suspend c ret ?t]"
  have nx: "task_next m' (tcb (ths ! i)) = tcb (ths ! ((i + 1) mod ?n))" "task_cr3 m' (tcb (ths ! i)) = cpu_cr3 c" if "i < ?n" for i
    using own'(1,2) rel' that task_field_same [OF other(1) [OF that, unfolded tcb_reg_def fst_conv snd_conv]]
    by (cases "i = k"; simp add: k'_def)+
  have tcbs: "tcb (?ths ! i) = tcb (ths ! i)" for i
    using k by (simp add: nth_list_update)
  have wt: "waiting m' (?ths ! i)" if i: "i < ?n" "i \<noteq> k'" for i
  proof (cases "i = k")
    case True
    with e(5) own'(3) b k show ?thesis
      by (auto simp: waiting_def suspend_def regs_def intro!: exI [of _ b])
  next
    case False
    with rel' i show ?thesis using waiting_same_on [OF other [OF i(1) False]] by simp
  qed
  show "sched_rel bs (ths[k := suspend c ret (ths ! k)]) k' s' c' m'"
    unfolding sched_rel_def
  proof (intro conjI allI impI)
    show "heap_ok m' bs"
      by (rule heap_ok_only_in [OF h _ frame]) (use placedD(2,3) [OF pl k] in auto)
    show "placed bs ?ths"
      by (rule placed_cong [OF pl]) (use k in \<open>auto simp: nth_list_update\<close>)
    show "k' < length ?ths" using k' by simp
    show "current_task s' = tcb (?ths ! k')" using k' by (simp add: s')
    show "ready_queue s' = tcb (?ths ! 0)" using rel' tcbs [of 0] k by (simp add: s')
  qed (use nx wt tcbs e(2) in \<open>auto simp: length_list_update\<close>)
qed

section \<open>Starting the scheduler and creating threads\<close>

lemma field_addr: "(of_nat t :: u32) + 4 = of_nat (t + 4)" "(of_nat t :: u32) + 8 = of_nat (t + 8)"
  "(of_nat t :: u32) + 12 = of_nat (t + 12)" "(of_nat t :: u32) + 16 = of_nat (t + 16)" "(of_nat t :: u32) + 20 = of_nat (t + 20)"
  by simp_all

lemma set_fields_only_in:
  assumes "t + 24 \<le> 2 ^ 32" "(t, t + 24) \<in> R"
  shows "only_in R m (set_task_id (of_nat t) v m)" "only_in R m (set_task_esp (of_nat t) v m)"
    "only_in R m (set_task_ebp (of_nat t) v m)" "only_in R m (set_task_eip (of_nat t) v m)"
    "only_in R m (set_task_cr3 (of_nat t) v m)" "only_in R m (set_task_next (of_nat t) v m)"
  unfolding task_fields field_addr using assms(1)
  by (intro st32_only_in [OF _ assms(2)]; simp)+

text \<open>What the fields of a control block are after each was set.\<close>

lemma set_fields_get:
  assumes "t + 24 \<le> 2 ^ 32"
  shows "task_id (set_task_id (of_nat t) v m) (of_nat t) = v"
    "task_esp (set_task_eip (of_nat t) i (set_task_ebp (of_nat t) b (set_task_esp (of_nat t) v m))) (of_nat t) = v"
    "task_cr3 (set_task_eip (of_nat t) i (set_task_ebp (of_nat t) b (set_task_esp (of_nat t) e m))) (of_nat t) = task_cr3 m (of_nat t)"
    "task_id (set_task_eip (of_nat t) i (set_task_ebp (of_nat t) b (set_task_esp (of_nat t) e m))) (of_nat t) = task_id m (of_nat t)"
    "task_cr3 (set_task_cr3 (of_nat t) v m) (of_nat t) = v" "task_id (set_task_cr3 (of_nat t) v m) (of_nat t) = task_id m (of_nat t)"
    "task_next (set_task_next (of_nat t) v m) (of_nat t) = v" "task_id (set_task_next (of_nat t) v m) (of_nat t) = task_id m (of_nat t)"
    "task_esp (set_task_next (of_nat t) v m) (of_nat t) = task_esp m (of_nat t)"
    "task_cr3 (set_task_next (of_nat t) v m) (of_nat t) = task_cr3 m (of_nat t)"
  unfolding task_fields field_addr using assms
  by (simp_all add: ld32_st32_other del: of_nat_add)

lemma tasking_init_rel:
  assumes h: "heap_ok m bs" and stack: "lo \<le> hi" "hi \<le> HEAP_LO" and ff: "first_fit 24 HEAP_LO bs = Some (T, bs')"
  shows "\<exists>s' m'. tasking_init s c m = Some (s', c\<lparr>iflag := True\<rparr>, m')
     \<and> sched_rel bs' [\<lparr>t_tcb = T, t_lo = lo, t_hi = hi, t_ctx = x\<rparr>] 0 s' (c\<lparr>iflag := True\<rparr>) m'
     \<and> next_pid s' = next_pid s + 1 \<and> task_id m' (of_nat T) = next_pid s \<and> same_on lo hi m m'"
proof -
  have sr: "safe_region bs (lo, hi)" using stack by (simp add: safe_region_def)
  obtain m1 n where a: "memory_alloc 24 m = Some (of_nat T, m1)" and f: "heap_ok m1 bs'" "0 < T" "unat (24 :: u32) \<le> n"
    "live bs' = insert (T, n) (live bs)" "same_on lo hi m m1" "apart (lo, hi) (T, T + n)"
    by (rule memory_alloc_fresh [OF h _ _ ff [folded align4_sizes(1)]]) (use sr in auto)
  define t where "t = (of_nat T :: u32)"
  note T = t_def f(2)
  have n: "24 \<le> n" using f(3) by simp
  have tr: "safe_region bs' (T, T + 24)" using f(4) n by (auto simp: safe_region_def)
  then have fit: "T + 24 \<le> 2 ^ 32" using safe_bound32 [OF f(1)] by fastforce
  define m2 where "m2 = set_task_id t (next_pid s) m1"
  define m3 where "m3 = set_task_eip t 0 (set_task_ebp t 0 (set_task_esp t 0 m2))"
  define m4 where "m4 = set_task_cr3 t (cpu_cr3 c) m3"
  define m5 where "m5 = set_task_next t t m4"
  have run: "tasking_init s c m = Some (\<lparr>current_task = t, ready_queue = t, next_pid = next_pid s + 1\<rparr>, c\<lparr>iflag := True\<rparr>, m5)"
    by (simp add: tasking_init_def a m5_def m4_def m3_def m2_def t_def Let_def)
  note so = set_fields_only_in [OF fit, of "{(T, T + 24)}"]
  have o: "only_in {(T, T + 24)} m1 m5"
    unfolding m5_def m4_def m3_def m2_def T(1) by (intro only_in_trans [OF _ so(1)] only_in_trans [OF _ so(2)]
      only_in_trans [OF _ so(3)] only_in_trans [OF _ so(4)] only_in_trans [OF _ so(5)] only_in_trans [OF _ so(6)]) simp_all
  have h5: "heap_ok m5 bs'" by (rule heap_ok_only_in [OF f(1) _ o]) (use tr in simp)
  note g = set_fields_get [OF fit]
  have fields: "task_next m5 t = t" "task_cr3 m5 t = cpu_cr3 c" "task_id m5 t = next_pid s"
    unfolding m5_def m4_def m3_def m2_def T(1) by (simp_all only: g)
  have sr': "safe_region bs' (lo, hi)" by (rule safe_mono [OF sr]) (use f(4) in auto)
  have ap: "apart (T, T + 24) (lo, hi)" using f(6) n by (auto simp: apart_def)
  have "sched_rel bs' [\<lparr>t_tcb = T, t_lo = lo, t_hi = hi, t_ctx = x\<rparr>] 0
      \<lparr>current_task = t, ready_queue = t, next_pid = next_pid s + 1\<rparr> (c\<lparr>iflag := True\<rparr>) m5"
    using h5 tr sr' ap fields T by (simp add: sched_rel_def placed_def tcb_reg_def stack_reg_def)
  moreover have "same_on lo hi m m5"
    using ap stack HEAP_small by (intro same_on_trans [OF f(5)] only_in_same [OF o]) auto
  ultimately show ?thesis using run fields(3) by (auto simp: t_def)
qed

text \<open>The walk to the tail of the ring ends at the last thread.\<close>

lemma tail_loop_last:
  fixes n i :: nat
  assumes ring: "\<And>i. i < n \<Longrightarrow> task_next m (f i) = f ((i + 1) mod n)"
    and inj: "\<And>i. i < n \<Longrightarrow> 0 < i \<Longrightarrow> f i \<noteq> f 0" and i: "i < n"
  shows "tail_loop (f 0) (f i) m = Some (f (n - 1))"
  using i
proof (induction d \<equiv> "n - 1 - i" arbitrary: i)
  case 0
  then have "n = i + 1" by simp
  then have "(i + 1) mod n = 0" "n - 1 = i" by auto
  then show ?case using ring [OF 0(2)] by (subst tail_loop.simps) simp
next
  case (Suc d)
  then have "i + 1 < n" by simp
  moreover from this have "task_next m (f i) = f (i + 1)" using ring [OF Suc(3)] by simp
  moreover have "tail_loop (f 0) (f (i + 1)) m = Some (f (n - 1))" using Suc.hyps(2) \<open>i + 1 < n\<close> by (intro Suc.hyps(1)) auto
  ultimately show ?case using inj [of "i + 1"] by (subst tail_loop.simps) simp
qed

text \<open>The frame \<^verbatim>\<open>create_kernel_thread\<close> lays out on a fresh stack.\<close>

lemma fresh_frame:
  fixes m :: mem and entry :: u32
  assumes "s + 20 \<le> 2 ^ 32"
  defines "m' \<equiv> st32 (st32 (st32 (st32 (st32 m (of_nat (s + 16)) entry) (of_nat (s + 12)) 0) (of_nat (s + 8)) 0) (of_nat (s + 4)) 0) (of_nat s) 0"
  shows "frame_at m' s \<lparr>x_esp = of_nat (s + 20), x_ebp = 0, x_ebx = 0, x_esi = 0, x_edi = 0, x_eip = entry\<rparr>"
    "only_in {(s, s + 20)} m m'"
proof -
  have "ld32 m' (of_nat (s + 16)) = entry" "ld32 m' (of_nat (s + 12)) = 0" "ld32 m' (of_nat (s + 8)) = 0"
    "ld32 m' (of_nat (s + 4)) = 0" "ld32 m' (of_nat s) = 0"
    unfolding m'_def using assms(1) by (simp_all add: ld32_st32_other del: of_nat_add)
  then show "frame_at m' s \<lparr>x_esp = of_nat (s + 20), x_ebp = 0, x_ebx = 0, x_esi = 0, x_edi = 0, x_eip = entry\<rparr>"
    by (simp add: frame_at_def)
  have o: "only_in {(s, s + 20)} m0 (st32 m0 (of_nat (s + d)) v)" if "d + 4 \<le> 20" for m0 d v
    using assms(1) that by (intro st32_only_in [where a = s and b = "s + 20"]) auto
  have o0: "only_in {(s, s + 20)} m0 (st32 m0 (of_nat s) v)" for m0 v using o [of 0] by simp
  show "only_in {(s, s + 20)} m m'"
    unfolding m'_def by (intro only_in_trans [OF _ o0] only_in_trans [OF _ o] only_in_refl) simp_all
qed

lemma create_thread_rel:
  fixes entry :: u32
  assumes rel: "sched_rel bs ths k s c m"
    and ff: "first_fit 24 HEAP_LO bs = Some (T, bs1)" "first_fit 4096 HEAP_LO bs1 = Some (K, bs2)"
  defines "th \<equiv> \<lparr>t_tcb = T, t_lo = K, t_hi = K + 4096,
      t_ctx = \<lparr>x_esp = of_nat (K + 4096), x_ebp = 0, x_ebx = 0, x_esi = 0, x_edi = 0, x_eip = entry\<rparr>\<rparr>"
  shows "\<exists>m'. create_kernel_thread entry s c m = Some (s\<lparr>next_pid := next_pid s + 1\<rparr>, c\<lparr>iflag := True\<rparr>, m')
      \<and> sched_rel bs2 (ths @ [th]) k (s\<lparr>next_pid := next_pid s + 1\<rparr>) (c\<lparr>iflag := True\<rparr>) m'
      \<and> task_id m' (of_nat T) = next_pid s
      \<and> (\<forall>i < length ths. same_on (fst (stack_reg (ths ! i))) (snd (stack_reg (ths ! i))) m m')"
proof -
  note rel' = rel [unfolded sched_rel_def]
  let ?n = "length ths"
  have h: "heap_ok m bs" and pl: "placed bs ths" and k: "k < ?n" using rel' by simp_all
  define t where "t = (of_nat T :: u32)"
  define k4 where "k4 = (of_nat K :: u32)"
  obtain m1 n1 where a1: "memory_alloc 24 m = Some (of_nat T, m1)" and f1: "heap_ok m1 bs1" "unat (24 :: u32) \<le> n1" "live bs1 = insert (T, n1) (live bs)"
    "\<And>reg. safe_region bs reg \<Longrightarrow> same_on (fst reg) (snd reg) m m1"
    "\<And>reg. safe_region bs reg \<Longrightarrow> apart reg (T, T + n1)" and T0: "0 < T"
    by (rule memory_alloc_fresh [OF h _ _ ff(1) [folded align4_sizes(1)]]) auto
  note T = t_def T0
  have n1: "24 \<le> n1" using f1(2) by simp
  have tr: "safe_region bs1 (T, T + 24)" using f1(3) n1 by (auto simp: safe_region_def)
  then have fit: "T + 24 < 2 ^ 32" using safe_bound32 [OF f1(1)] by fastforce
  then have fit': "T + 24 \<le> 2 ^ 32" by simp
  define m2 where "m2 = set_task_id t (next_pid s) m1"
  define m3 where "m3 = set_task_cr3 t (task_cr3 m2 (current_task s)) m2"
  note so = set_fields_only_in [OF fit', of "{(T, T + 24)}"]
  have o13: "only_in {(T, T + 24)} m1 m3" unfolding m3_def m2_def T(1)
    by (rule only_in_trans [OF so(1) so(5)]) simp_all
  have h3: "heap_ok m3 bs1" by (rule heap_ok_only_in [OF f1(1) _ o13]) (use tr in simp)
  obtain m4 n2 where a2: "memory_alloc 4096 m3 = Some (of_nat K, m4)" and f2: "heap_ok m4 bs2" "unat (4096 :: u32) \<le> n2" "live bs2 = insert (K, n2) (live bs1)"
    "\<And>reg. safe_region bs1 reg \<Longrightarrow> same_on (fst reg) (snd reg) m3 m4"
    "\<And>reg. safe_region bs1 reg \<Longrightarrow> apart reg (K, K + n2)" and K0: "0 < K"
    by (rule memory_alloc_fresh [OF h3 _ _ ff(2) [folded align4_sizes(2)]]) auto
  note K = k4_def K0
  have n2: "4096 \<le> n2" using f2(2) by simp
  have kr: "safe_region bs2 (K, K + 4096)" using f2(3) n2 by (auto simp: safe_region_def)
  have tr2: "safe_region bs2 (T, T + 24)" by (rule safe_mono [OF tr]) (use f2(3) in auto)
  have fitK: "K + 4096 < 2 ^ 32" using safe_bound32 [OF f2(1) kr] by simp
  have TK: "apart (T, T + 24) (K, K + 4096)" using f2(5) [OF tr] n2 by (auto simp: apart_def)
  let ?S = "K + 4076" and ?last = "ths ! (?n - 1)"
  define m9 where "m9 = st32 (st32 (st32 (st32 (st32 m4 (of_nat (?S + 16)) entry) (of_nat (?S + 12)) 0) (of_nat (?S + 8)) 0) (of_nat (?S + 4)) 0) (of_nat ?S) 0"
  define m10 where "m10 = set_task_eip t entry (set_task_ebp t 0 (set_task_esp t (of_nat ?S) m9))"
  define m11 where "m11 = set_task_next t (ready_queue s) m10"
  define m12 where "m12 = set_task_next (tcb ?last) t m11"
  have sadr: "k4 + 4096 - 4 = of_nat (?S + 16)" "k4 + 4096 - 8 = of_nat (?S + 12)" "k4 + 4096 - 12 = of_nat (?S + 8)"
    "k4 + 4096 - 16 = of_nat (?S + 4)" "k4 + 4096 - 20 = of_nat ?S" "k4 + 4096 = of_nat (?S + 20)"
    by (simp_all add: K(1))
  have s20: "?S + 20 = K + 4096" by simp
  have frame: "frame_at m9 ?S (t_ctx th)" "only_in {(?S, K + 4096)} m4 m9"
    using fresh_frame [of ?S m4 entry, folded m9_def, unfolded s20] fitK by (simp_all add: th_def del: of_nat_add)
  let ?R = "{(T, T + 24), (K, K + 4096)}"
  note so' = set_fields_only_in [OF fit' insertI1]
  have o4: "only_in ?R m4 m11"
  proof -
    have "only_in ?R m4 m9" by (rule only_in_sub [OF frame(2), where a' = K and b' = "K + 4096"]) auto
    moreover have "only_in ?R m9 m11" unfolding m11_def m10_def T(1)
      by (rule only_in_trans [OF only_in_trans [OF only_in_trans [OF so'(2) so'(3)] so'(4)] so'(6)])
    ultimately show ?thesis by (rule only_in_trans)
  qed
  have old: "same_on (fst r) (snd r) m m11" if r: "safe_region bs r" for r
  proof -
    have b: "snd r \<le> 2 ^ 32" using safe_bound32 [OF h r] by simp
    have r1: "safe_region bs1 r" by (rule safe_mono [OF r]) (use f1(3) in auto)
    have "same_on (fst r) (snd r) m1 m3"
      by (rule only_in_same [OF o13]) (use f1(5) [OF r] n1 b in \<open>auto simp: apart_def\<close>)
    moreover have "same_on (fst r) (snd r) m4 m11"
      by (rule only_in_same [OF o4]) (use f1(5) [OF r] f2(5) [OF r1] n1 n2 b in \<open>auto simp: apart_def\<close>)
    ultimately show ?thesis using f1(4) [OF r] f2(4) [OF r1] by (meson same_on_trans)
  qed
  have oldi: "same_on (fst (tcb_reg (ths ! i))) (snd (tcb_reg (ths ! i))) m m11"
    "same_on (fst (stack_reg (ths ! i))) (snd (stack_reg (ths ! i))) m m11" if "i < ?n" for i
    using placedD(2,3) [OF pl that] by (auto intro: old)
  have g11: "task_next m11 (tcb (ths ! i)) = tcb (ths ! ((i + 1) mod ?n))" "task_cr3 m11 (tcb (ths ! i)) = cpu_cr3 c"
    "task_esp m11 (tcb (ths ! i)) = task_esp m (tcb (ths ! i))" if "i < ?n" for i
    using rel' that task_field_same [OF oldi(1) [OF that, unfolded tcb_reg_def fst_conv snd_conv]] by simp_all
  have cur: "task_cr3 m2 (current_task s) = cpu_cr3 c"
  proof -
    have ap: "apart (T, T + 24) (tcb_reg (ths ! k))" using f1(5) [OF placedD(2) [OF pl k]] n1 by (auto simp: apart_def)
    have "only_in {(T, T + 24)} m1 m2" unfolding m2_def T(1) by (rule so(1)) simp
    then have "same_on (fst (tcb_reg (ths ! k))) (snd (tcb_reg (ths ! k))) m1 m2"
      by (rule only_in_same) (use ap safe_bound32 [OF h placedD(2) [OF pl k]] in auto)
    with f1(4) [OF placedD(2) [OF pl k]] have "same_on (fst (tcb_reg (ths ! k))) (snd (tcb_reg (ths ! k))) m m2"
      by (rule same_on_trans)
    then show ?thesis using rel' k by (simp add: tcb_reg_def task_field_same)
  qed
  note g = set_fields_get [OF fit']
  have new11: "task_next m11 t = ready_queue s" "task_esp m11 t = of_nat ?S"
    unfolding m11_def m10_def T(1) by (simp_all only: g)
  have new3: "task_cr3 m3 t = cpu_cr3 c" "task_id m3 t = next_pid s"
    unfolding m3_def cur unfolding m2_def T(1) by (simp_all only: g)
  have new9: "same_on T (T + 24) m3 m9"
  proof (rule same_on_trans)
    show "same_on T (T + 24) m3 m4" using f2(4) [OF tr] by simp
    show "same_on T (T + 24) m4 m9" by (rule only_in_same [OF frame(2)]) (use TK fit in \<open>auto simp: apart_def\<close>)
  qed
  have new: "task_cr3 m11 t = cpu_cr3 c" "task_id m11 t = next_pid s"
  proof -
    have "task_id m9 t = task_id m3 t"
      using ld32_same_on [OF same_on_mono [OF new9, of T "T + 4"]] by (simp add: task_id_def T(1))
    then show "task_cr3 m11 t = cpu_cr3 c" "task_id m11 t = next_pid s"
      using task_field_same(3) [OF new9] new3 unfolding m11_def m10_def T(1) by (simp_all only: g)
  qed
  have lastn: "?n - 1 < ?n" using k by simp
  have lfit: "t_tcb ?last + 24 < 2 ^ 32" using safe_bound32 [OF h placedD(2) [OF pl lastn]] by (simp add: tcb_reg_def)
  have tail: "tail_loop (ready_queue s) (ready_queue s) m11 = Some (tcb ?last)"
  proof -
    have "tail_loop (tcb (ths ! 0)) (tcb (ths ! 0)) m11 = Some (tcb ?last)"
    proof (rule tail_loop_last [of ?n m11 "\<lambda>i. tcb (ths ! i)" 0])
      show "tcb (ths ! i) \<noteq> tcb (ths ! 0)" if "i < ?n" "0 < i" for i
        using that by (intro tcb_inj [OF h pl]) auto
    qed (use g11(1) k in auto)
    then show ?thesis using rel' by simp
  qed
  have run: "create_kernel_thread entry s c m = Some (s\<lparr>next_pid := next_pid s + 1\<rparr>, c\<lparr>iflag := True\<rparr>, m12)"
    using a1 a2 tail
    by (simp add: create_kernel_thread_def Let_def m12_def m11_def m10_def m9_def T(1) [symmetric] add.commute [of "of_nat K" 4076] flip: m2_def m3_def)
  have o12: "only_in {(t_tcb ?last + 20, t_tcb ?last + 24)} m11 m12"
    unfolding m12_def set_task_next_def field_addr
    by (rule st32_only_in [where a = "t_tcb ?last + 20" and b = "t_tcb ?last + 24"]) (use lfit in simp_all)
  have lap: "apart (t_tcb ?last + 20, t_tcb ?last + 24) r" if "apart (tcb_reg ?last) r" for r
    using that by (auto simp: apart_def tcb_reg_def)
  have newap: "apart (tcb_reg (ths ! i)) (T, T + 24)" "apart (stack_reg (ths ! i)) (T, T + 24)"
    "apart (tcb_reg (ths ! i)) (K, K + 4096)" "apart (stack_reg (ths ! i)) (K, K + 4096)" if "i < ?n" for i
  proof -
    have s1: "safe_region bs1 (tcb_reg (ths ! i))" "safe_region bs1 (stack_reg (ths ! i))"
      by (rule safe_mono [OF placedD(2) [OF pl that]], use f1(3) in auto, rule safe_mono [OF placedD(3) [OF pl that]], use f1(3) in auto)
    show "apart (tcb_reg (ths ! i)) (T, T + 24)" "apart (stack_reg (ths ! i)) (T, T + 24)"
      "apart (tcb_reg (ths ! i)) (K, K + 4096)" "apart (stack_reg (ths ! i)) (K, K + 4096)"
      using f1(5) [OF placedD(2) [OF pl that]] f1(5) [OF placedD(3) [OF pl that]] f2(5) [OF s1(1)] f2(5) [OF s1(2)] n1 n2
      by (auto simp: apart_def)
  qed
  have st12: "same_on (fst (stack_reg (ths ! i))) (snd (stack_reg (ths ! i))) m11 m12" if "i < ?n" for i
    by (rule only_in_same [OF o12]) (use placedD(4) [OF pl lastn that] lap safe_bound32 [OF h placedD(3) [OF pl that]] in auto)
  have tc12: "same_on (t_tcb (ths ! i)) (t_tcb (ths ! i) + 24) m11 m12" if i: "i < ?n - 1" for i
  proof (rule only_in_same [OF o12])
    have "i < ?n" using i by simp
    then show "t_tcb (ths ! i) + 24 \<le> 2 ^ 32" using safe_bound32 [OF h placedD(2) [OF pl, of i]] by (simp add: tcb_reg_def)
    show "apart r (t_tcb (ths ! i), t_tcb (ths ! i) + 24)" if "r \<in> {(t_tcb ?last + 20, t_tcb ?last + 24)}" for r
      using that lap placedD(5) [OF pl lastn \<open>i < ?n\<close>] i by (simp add: tcb_reg_def)
  qed
  have new12: "same_on T (T + 24) m11 m12" "same_on K (K + 4096) m11 m12"
    by (rule only_in_same [OF o12], use newap(1,3) [OF lastn] lap fit fitK in auto)+
  note gl = set_fields_get [of "t_tcb ?last"]
  have g12: "task_next m12 (tcb (ths ! i)) = (if i = ?n - 1 then t else tcb (ths ! (i + 1)))"
    "task_cr3 m12 (tcb (ths ! i)) = cpu_cr3 c" "task_esp m12 (tcb (ths ! i)) = task_esp m (tcb (ths ! i))" if i: "i < ?n" for i
  proof -
    have "task_next m12 (tcb (ths ! i)) = (if i = ?n - 1 then t else tcb (ths ! (i + 1)))
        \<and> task_cr3 m12 (tcb (ths ! i)) = cpu_cr3 c \<and> task_esp m12 (tcb (ths ! i)) = task_esp m (tcb (ths ! i))"
    proof (cases "i = ?n - 1")
      case True
      then show ?thesis using lfit g11 [OF lastn] gl(7,9,10) by (simp add: m12_def)
    next
      case False
      with i have "i < ?n - 1" by simp
      then show ?thesis using i g11 [OF i] task_field_same [OF tc12, of i] by simp
    qed
    then show "task_next m12 (tcb (ths ! i)) = (if i = ?n - 1 then t else tcb (ths ! (i + 1)))"
      "task_cr3 m12 (tcb (ths ! i)) = cpu_cr3 c" "task_esp m12 (tcb (ths ! i)) = task_esp m (tcb (ths ! i))" by simp_all
  qed
  have gn: "task_next m12 t = tcb (ths ! 0)" "task_cr3 m12 t = cpu_cr3 c" "task_esp m12 t = of_nat ?S" "task_id m12 t = next_pid s"
    using task_field_same [OF new12(1)] ld32_same_on [OF same_on_mono [OF new12(1), of T "T + 4"]] new new11 rel'
    by (simp_all add: T(1) task_id_def)
  let ?ths = "ths @ [th]"
  have th: "t_tcb th = T" "tcb_reg th = (T, T + 24)" "stack_reg th = (K, K + 4096)"
    by (simp_all add: th_def tcb_reg_def stack_reg_def)
  have bs2: "live bs \<subseteq> live bs2" using f1(3) f2(3) by auto
  have pl2: "placed bs2 ?ths"
    by (rule placed_snoc [OF pl bs2]) (use tr2 kr T(2) TK newap in \<open>simp_all add: th\<close>)
  have h12: "heap_ok m12 bs2"
  proof -
    have "heap_ok m11 bs2" by (rule heap_ok_only_in [OF f2(1) _ o4]) (use tr2 kr in auto)
    moreover have "safe_region bs2 (tcb_reg ?last)" using safe_mono [OF placedD(2) [OF pl lastn] bs2] .
    then have "safe_region bs2 (t_tcb ?last + 20, t_tcb ?last + 24)"
      unfolding tcb_reg_def by (rule safe_sub) simp_all
    ultimately show ?thesis by (intro heap_ok_only_in [OF _ _ o12]) auto
  qed
  have wt: "waiting m12 (ths ! i)" if i: "i < ?n" "i \<noteq> k" for i
  proof -
    have "waiting m (ths ! i)" using rel' i by simp
    then show ?thesis by (rule waiting_cong [OF g12(3) [OF i(1)] same_on_trans [OF oldi(2) [OF i(1)] st12 [OF i(1)]]])
  qed
  have "same_on ?S (?S + 20) m9 m12"
  proof (rule same_on_trans)
    have "only_in {(T, T + 24)} m9 m11" unfolding m11_def m10_def T(1)
      by (rule only_in_trans [OF only_in_trans [OF only_in_trans [OF so(2) so(3)] so(4)] so(6)]) simp_all
    then show "same_on ?S (?S + 20) m9 m11" by (rule only_in_same) (use TK fitK in \<open>auto simp: apart_def\<close>)
    show "same_on ?S (?S + 20) m11 m12" by (rule same_on_mono [OF new12(2)]) simp_all
  qed
  then have wn: "waiting m12 th"
    using frame(1) gn(3) by (auto simp: waiting_def th frame_same_on T(1) th_def intro!: exI [of _ ?S])
  have "sched_rel bs2 ?ths k (s\<lparr>next_pid := next_pid s + 1\<rparr>) (c\<lparr>iflag := True\<rparr>) m12"
    unfolding sched_rel_def
  proof (intro conjI allI impI)
    show "current_task (s\<lparr>next_pid := next_pid s + 1\<rparr>) = tcb (?ths ! k)"
      "ready_queue (s\<lparr>next_pid := next_pid s + 1\<rparr>) = tcb (?ths ! 0)"
      using rel' k by (cases "ths = []"; simp add: nth_append)+
    fix i assume i: "i < length ?ths"
    show "task_next m12 (tcb (?ths ! i)) = tcb (?ths ! ((i + 1) mod length ?ths))"
      using i g12(1) [of i] gn(1) k by (cases "i = ?n"; cases "i = ?n - 1") (auto simp: nth_append th T(1))
    show "task_cr3 m12 (tcb (?ths ! i)) = cpu_cr3 (c\<lparr>iflag := True\<rparr>)"
      using i g12(2) [of i] gn(2) by (cases "i = ?n") (auto simp: nth_append th T(1))
    show "waiting m12 (?ths ! i)" if "i \<noteq> k"
      using i that wt [of i] wn by (cases "i = ?n") (auto simp: nth_append)
  qed (use h12 pl2 k in auto)
  with run gn(4) [unfolded t_def] st12 oldi(2) show ?thesis by (blast intro: same_on_trans)
qed

section \<open>Runs of the scheduler\<close>

text \<open>
  Between two switches the running thread computes: it may change its registers, its own stack,
  memory of nobody, and the heap through the allocator, but no control block and no stack of
  another thread.
\<close>

definition thread_work :: "thread list \<Rightarrow> nat \<Rightarrow> cpu \<Rightarrow> mem \<Rightarrow> blocks \<Rightarrow> cpu \<Rightarrow> mem \<Rightarrow> bool" where
  "thread_work ths k c m bs' c' m' \<longleftrightarrow> heap_ok m' bs' \<and> placed bs' ths \<and> cpu_cr3 c' = cpu_cr3 c
     \<and> (\<forall>i < length ths. same_on (fst (tcb_reg (ths ! i))) (snd (tcb_reg (ths ! i))) m m'
          \<and> (i \<noteq> k \<longrightarrow> same_on (fst (stack_reg (ths ! i))) (snd (stack_reg (ths ! i))) m m'))"

text \<open>The stack of the running thread has room for the switch.\<close>

definition stack_room :: "cpu \<Rightarrow> thread \<Rightarrow> bool" where
  "stack_room c t \<longleftrightarrow> t_lo t + 28 \<le> unat (esp c) \<and> unat (esp c) \<le> t_hi t"

inductive sched_run ::
  "thread list \<Rightarrow> nat \<Rightarrow> sched \<Rightarrow> cpu \<Rightarrow> mem \<Rightarrow> nat \<Rightarrow> blocks \<Rightarrow> thread list \<Rightarrow> nat \<Rightarrow> sched \<Rightarrow> cpu \<Rightarrow> mem \<Rightarrow> bool"
  for ths0 k0 s0 c0 m0 where
  run_start: "sched_rel bs ths0 k0 s0 c0 m0 \<Longrightarrow> sched_run ths0 k0 s0 c0 m0 0 bs ths0 k0 s0 c0 m0"
| run_work: "sched_run ths0 k0 s0 c0 m0 n bs ths k s c m \<Longrightarrow> thread_work ths k c m bs' c' m' \<Longrightarrow>
    sched_run ths0 k0 s0 c0 m0 n bs' ths k s c' m'"
| run_switch: "sched_run ths0 k0 s0 c0 m0 n bs ths k s c m \<Longrightarrow> stack_room c (ths ! k) \<Longrightarrow> magic \<noteq> 0x12345678 \<Longrightarrow>
    task_switch eip_val magic ret s c m = (s', c', m') \<Longrightarrow>
    sched_run ths0 k0 s0 c0 m0 (Suc n) bs (ths[k := suspend c ret (ths ! k)]) ((k + 1) mod length ths) s' c' m'"

lemma work_rel:
  assumes "sched_rel bs ths k s c m" "thread_work ths k c m bs' c' m'"
  shows "sched_rel bs' ths k s c' m'"
proof -
  have f: "task_next m' (tcb (ths ! i)) = task_next m (tcb (ths ! i))" "task_cr3 m' (tcb (ths ! i)) = task_cr3 m (tcb (ths ! i))"
    if "i < length ths" for i
    using assms(2) that by (auto simp: thread_work_def tcb_reg_def task_field_same)
  have w: "waiting m' (ths ! i)" if "i < length ths" "i \<noteq> k" for i
  proof -
    have "waiting m (ths ! i)" using assms(1) that by (simp add: sched_rel_def)
    with assms(2) that show ?thesis by (intro waiting_same_on [of "ths ! i" m m']) (simp_all add: thread_work_def)
  qed
  show ?thesis using assms f w by (simp add: sched_rel_def thread_work_def)
qed

lemma run_rel:
  assumes "sched_run ths0 k0 s0 c0 m0 n bs ths k s c m" "1 < length ths0"
  shows "sched_rel bs ths k s c m \<and> length ths = length ths0 \<and> k = (k0 + n) mod length ths0
     \<and> (\<forall>i < length ths0. (\<forall>d < n. i \<noteq> (k0 + d) mod length ths0) \<longrightarrow> ths ! i = ths0 ! i)"
  using assms(1)
proof (induction rule: sched_run.induct)
  case (run_start bs)
  then show ?case by (simp add: sched_rel_def)
next
  case (run_work n bs ths k s c m bs' c' m')
  then show ?case using work_rel by blast
next
  case (run_switch n bs ths k s c m magic eip_val ret s' c' m')
  then have ih: "sched_rel bs ths k s c m" "length ths = length ths0" "k = (k0 + n) mod length ths0"
    "\<And>i. i < length ths0 \<Longrightarrow> \<forall>d < n. i \<noteq> (k0 + d) mod length ths0 \<Longrightarrow> ths ! i = ths0 ! i"
    and room: "t_lo (ths ! k) + 28 \<le> unat (esp c)" "unat (esp c) \<le> t_hi (ths ! k)"
    by (auto simp: stack_room_def)
  have "sched_rel bs (ths[k := suspend c ret (ths ! k)]) ((k + 1) mod length ths) s' c' m'"
    using switch_to_next(1) [OF ih(1) _ run_switch.hyps(3) room run_switch.hyps(4)] assms(2) ih(2) by simp
  moreover have "(k + 1) mod length ths = (k0 + Suc n) mod length ths0" using ih(2,3) by (simp add: mod_Suc_eq)
  moreover have "ths[k := suspend c ret (ths ! k)] ! i = ths0 ! i"
    if "i < length ths0" "\<forall>d < Suc n. i \<noteq> (k0 + d) mod length ths0" for i
  proof -
    have "i \<noteq> k" using ih(3) that(2) by blast
    moreover have "ths ! i = ths0 ! i" using ih(4) [OF that(1)] that(2) by simp
    ultimately show ?thesis by simp
  qed
  ultimately show ?case using ih(2) by simp
qed

text \<open>
  (C7) One call of \<^verbatim>\<open>task_switch\<close> implements one round-robin step on the abstract
  list of threads: the registers of the running thread are what it will resume with (its stack pointer behind
  the pushed arguments), the processor holds exactly the registers the next
  thread in the ring was suspended with, the invariant holds again for that thread, and nothing but the old
  thread's control block and stack was written. With a single thread, or before the scheduler
  was set up, nothing happens.
\<close>

theorem task_switch_round_robin:
  assumes "sched_rel bs ths k s c m" "stack_room c (ths ! k)" "magic \<noteq> 0x12345678"
    "task_switch eip_val magic ret s c m = (s', c', m')"
  shows "if length ths = 1 then (s', c', m') = (s, c, m)
     else let k' = (k + 1) mod length ths
       in sched_rel bs (ths[k := suspend c ret (ths ! k)]) k' s' c' m' \<and> regs c' = t_ctx (ths ! k')
          \<and> next_pid s' = next_pid s \<and> only_in {tcb_reg (ths ! k), stack_reg (ths ! k)} m m'"
proof (cases "length ths = 1")
  case True
  then have "k = 0" using assms(1) by (simp add: sched_rel_def)
  with True assms(1,4) show ?thesis by (auto simp: sched_rel_def task_switch_def)
next
  case False
  with assms(1) have many: "1 < length ths" by (cases ths) (auto simp: sched_rel_def)
  note sw = switch_to_next [OF assms(1) many assms(3) assms(2) [unfolded stack_room_def, THEN conjunct1]
    assms(2) [unfolded stack_room_def, THEN conjunct2] assms(4)]
  with False show ?thesis by (simp only: if_False Let_def)
qed

text \<open>
  (C20) Whenever the heap has room for a control block, \<^verbatim>\<open>tasking_init\<close> returns and
  establishes the invariant with the calling thread as the only one; and whenever it has room
  for a control block and a stack, \<^verbatim>\<open>create_kernel_thread\<close> returns (the walk along the ring
  ends), appends a thread with a fresh identifier that will enter its entry point with cleared registers at
  the top of its own 4 KB stack, keeps the running thread and leaves all stacks alone.
\<close>

theorem threads_created:
  assumes "heap_ok m0 bs0" "lo \<le> hi" "hi \<le> HEAP_LO" "first_fit 24 HEAP_LO bs0 = Some (T0, bs1)"
    and "sched_rel bs ths k s c m" "first_fit 24 HEAP_LO bs = Some (T, bs')" "first_fit 4096 HEAP_LO bs' = Some (K, bs2)"
  shows "(\<exists>s' m'. tasking_init s0 c0 m0 = Some (s', c0\<lparr>iflag := True\<rparr>, m')
        \<and> sched_rel bs1 [\<lparr>t_tcb = T0, t_lo = lo, t_hi = hi, t_ctx = x\<rparr>] 0 s' (c0\<lparr>iflag := True\<rparr>) m'
        \<and> task_id m' (of_nat T0) = next_pid s0 \<and> same_on lo hi m0 m')
    \<and> (\<exists>m'. create_kernel_thread entry s c m = Some (s\<lparr>next_pid := next_pid s + 1\<rparr>, c\<lparr>iflag := True\<rparr>, m')
        \<and> sched_rel bs2 (ths @ [\<lparr>t_tcb = T, t_lo = K, t_hi = K + 4096, t_ctx =
              \<lparr>x_esp = of_nat (K + 4096), x_ebp = 0, x_ebx = 0, x_esi = 0, x_edi = 0, x_eip = entry\<rparr>\<rparr>]) k
            (s\<lparr>next_pid := next_pid s + 1\<rparr>) (c\<lparr>iflag := True\<rparr>) m'
        \<and> task_id m' (of_nat T) = next_pid s
        \<and> (\<forall>i < length ths. same_on (fst (stack_reg (ths ! i))) (snd (stack_reg (ths ! i))) m m'))"
  using tasking_init_rel [OF assms(1-4), of s0 c0 x] create_thread_rel [OF assms(5-7), of entry] by blast

text \<open>
  (C19) Every thread gets the processor after at most as many switches as there are other threads, with exactly
  the registers it was suspended with: thread \<open>(k + d) mod n\<close> is the one that runs after \<open>d\<close> switches, whatever the threads
  that run in between do with their own registers, stacks and heap blocks, and the scheduler's
  data structure is intact then.
\<close>

theorem scheduler_round_robin:
  assumes "1 < length ths" "Suc n < length ths"
    "sched_run ths k s c m n bs' ths' k' s' c' m'" "stack_room c' (ths' ! k')" "magic \<noteq> 0x12345678"
    "task_switch eip_val magic ret s' c' m' = (s2, c2, m2)"
  shows "k' = (k + n) mod length ths \<and> regs c2 = t_ctx (ths ! ((k + Suc n) mod length ths))
     \<and> (\<exists>bs2 ths2. sched_rel bs2 ths2 ((k + Suc n) mod length ths) s2 c2 m2 \<and> length ths2 = length ths)"
proof -
  note r = run_rel [OF assms(3,1)]
  note r2 = run_rel [OF run_switch [OF assms(3-6)] assms(1)]
  have k: "k < length ths"
    using assms(3) by (induction rule: sched_run.induct) (simp_all add: sched_rel_def)
  let ?j = "(k + Suc n) mod length ths"
  have "regs c2 = t_ctx (ths' ! ((k' + 1) mod length ths'))"
  proof (rule switch_to_next(2) [OF _ _ assms(5) _ _ assms(6)])
    show "sched_rel bs' ths' k' s' c' m'" using r by blast
    show "1 < length ths'" using r assms(1) by simp
  qed (use assms(4) in \<open>simp_all add: stack_room_def\<close>)
  moreover have j: "(k' + 1) mod length ths' = ?j" using r by (simp add: mod_Suc_eq)
  moreover have "ths' ! ?j = ths ! ?j"
  proof -
    have "?j \<noteq> (k + d) mod length ths" if "d < n" for d
    proof
      assume "?j = (k + d) mod length ths"
      then have "length ths dvd k + Suc n - (k + d)" using that by (intro mod_eq_dvd_iff_nat [THEN iffD1]) auto
      then have "length ths \<le> Suc n - d" using that by (auto dest: dvd_imp_le)
      then show False using that assms(2) by simp
    qed
    then have nd: "\<forall>d < n. ?j \<noteq> (k + d) mod length ths" by blast
    have "?j < length ths" using assms(1) by (intro mod_less_divisor) linarith
    then show ?thesis using r nd by blast
  qed
  ultimately have "regs c2 = t_ctx (ths ! ?j)" by simp
  moreover have "sched_rel bs' (ths'[k' := suspend c' ret (ths' ! k')]) ?j s2 c2 m2"
    "length (ths'[k' := suspend c' ret (ths' ! k')]) = length ths" "k' = (k + n) mod length ths"
    using r r2 [THEN conjunct1, unfolded j] by simp_all
  ultimately show ?thesis by blast
qed

section \<open>A scheduler with two threads\<close>

definition sample_cpu :: cpu where
  "sample_cpu = \<lparr>esp = 0x8FF00, ebp = 0x8FF40, ebx = 3, esi = 4, edi = 5, eip = 0x1200, cpu_cr3 = 0x9000, iflag = True\<rparr>"

definition main_thread :: thread where
  "main_thread = \<lparr>t_tcb = 1048588, t_lo = 0x80000, t_hi = 0x90000, t_ctx = regs sample_cpu\<rparr>"

definition worker_thread :: thread where
  "worker_thread = \<lparr>t_tcb = 1048624, t_lo = 1048660, t_hi = 1052756,
     t_ctx = \<lparr>x_esp = of_nat 1052756, x_ebp = 0, x_ebx = 0, x_esi = 0, x_edi = 0, x_eip = 0x5000\<rparr>\<rparr>"

lemma sample_fits:
  "first_fit 24 HEAP_LO [(1048564, True)] = Some (1048588, [(24, False), (1048528, True)])"
  "first_fit 24 HEAP_LO [(24, False), (1048528, True)] = Some (1048624, [(24, False), (24, False), (1048492, True)])"
  "first_fit 4096 HEAP_LO [(24, False), (24, False), (1048492, True)]
     = Some (1048660, [(24, False), (24, False), (4096, False), (1044384, True)])"
  by (simp_all add: HEAP_LO_def)

lemma sample_low: "(0x80000 :: nat) \<le> 0x90000" "(0x90000 :: nat) \<le> HEAP_LO"
  by (simp_all add: HEAP_LO_def)

lemma sample_iflag: "sample_cpu\<lparr>iflag := True\<rparr> = sample_cpu"
  by (simp add: sample_cpu_def)

lemma sample_one: "\<exists>s m. sched_rel [(24, False), (1048528, True)] [main_thread] 0 s sample_cpu m"
  using tasking_init_rel [OF memory_init_heap [of "\<lambda>_. 0"] sample_low sample_fits(1),
      of "\<lparr>current_task = 0, ready_queue = 0, next_pid = 1\<rparr>" sample_cpu "regs sample_cpu"]
  unfolding sample_iflag main_thread_def by blast

lemma sample_two:
  "\<exists>s m. sched_rel [(24, False), (24, False), (4096, False), (1044384, True)] [main_thread, worker_thread] 0 s sample_cpu m"
proof -
  obtain s m where "sched_rel [(24, False), (1048528, True)] [main_thread] 0 s sample_cpu m" using sample_one by blast
  from create_thread_rel [OF this sample_fits(2,3), of "0x5000"] show ?thesis
    unfolding sample_iflag worker_thread_def by (auto simp del: of_nat_add)
qed

lemma sample_room: "stack_room sample_cpu main_thread"
  by (simp add: stack_room_def sample_cpu_def main_thread_def)

theorem threads_created_witness:
  "\<exists>s m m'. create_kernel_thread 0x5000 s sample_cpu m = Some (s\<lparr>next_pid := next_pid s + 1\<rparr>, sample_cpu\<lparr>iflag := True\<rparr>, m')
     \<and> task_id m' (of_nat 1048624) = next_pid s"
proof -
  obtain s m where "sched_rel [(24, False), (1048528, True)] [main_thread] 0 s sample_cpu m" using sample_one by blast
  from threads_created [OF memory_init_heap sample_low sample_fits(1) this sample_fits(2,3)] show ?thesis by blast
qed

theorem task_switch_round_robin_witness:
  "\<exists>s m s' c' m'. task_switch 0x1100 0 0x1300 s sample_cpu m = (s', c', m') \<and> regs c' = t_ctx worker_thread
     \<and> sched_rel [(24, False), (24, False), (4096, False), (1044384, True)] [suspend sample_cpu 0x1300 main_thread, worker_thread] 1 s' c' m'"
proof -
  obtain s m where r: "sched_rel [(24, False), (24, False), (4096, False), (1044384, True)] [main_thread, worker_thread] 0 s sample_cpu m"
    using sample_two by blast
  obtain s' c' m' where t: "task_switch 0x1100 0 0x1300 s sample_cpu m = (s', c', m')" by (metis prod_cases3)
  have "regs c' = t_ctx worker_thread \<and> sched_rel [(24, False), (24, False), (4096, False), (1044384, True)]
      [suspend sample_cpu 0x1300 main_thread, worker_thread] 1 s' c' m'"
    using task_switch_round_robin [OF r _ _ t] sample_room by (simp add: Let_def)
  with t show ?thesis by blast
qed

theorem scheduler_round_robin_witness:
  "\<exists>s m s2 c2 m2. task_switch 0x1100 0 0x1300 s sample_cpu m = (s2, c2, m2) \<and> regs c2 = t_ctx worker_thread"
proof -
  obtain s m where r: "sched_rel [(24, False), (24, False), (4096, False), (1044384, True)] [main_thread, worker_thread] 0 s sample_cpu m"
    using sample_two by blast
  obtain s' c' m' where t: "task_switch 0x1100 0 0x1300 s sample_cpu m = (s', c', m')" by (metis prod_cases3)
  have "regs c' = t_ctx worker_thread"
    using scheduler_round_robin [OF _ _ run_start [OF r] _ _ t] sample_room by simp
  with t show ?thesis by blast
qed

end
