(* ===== verification/Bh_Isr.thy ===== *)
theory Bh_Isr
  imports Bh_Timer Bh_Task
begin

text \<open>
  The interrupt handlers, \<^verbatim>\<open>kernel/isr.c\<close>, with what the stubs of
  \<^verbatim>\<open>kernel/isr_stub.S\<close> pass to them. The page-fault handler never returns: its value is
  the screen it halts with. The timer interrupt leads through the driver into the scheduler;
  whether its end-of-interrupt is sent depends on the thread that gets the processor.
\<close>

section \<open>Handlers\<close>

definition isr14_handler :: "u32 \<Rightarrow> vga \<Rightarrow> vga option" where
  "isr14_handler faulting_address v = do {
     let v1 = vga_set_color VGA_WHITE VGA_RED v;
     (_, v2) \<leftarrow> printf (lit ([CHR 0x0A] @ ''*** KERNEL PANIC ***'' @ [CHR 0x0A])) [] v1;
     (_, v3) \<leftarrow> printf (lit (''Page Fault (Exception 14) at Virtual Address: 0x%x'' @ [CHR 0x0A])) [Arg_int faulting_address] v2;
     (_, v4) \<leftarrow> printf (lit (''System Halted.'' @ [CHR 0x0A])) [] v3;
     Some v4 }"

text \<open>
  \<open>ret\<close> is the return address inside \<^verbatim>\<open>task_switch\<close>, where a suspended thread resumes; the
  handler goes on to its end-of-interrupt only if the thread that runs now returns there, be it
  the same thread or one that was suspended in its own timer interrupt.
\<close>

definition irq0_handler ::
  "'p ports \<Rightarrow> u32 \<Rightarrow> u32 \<Rightarrow> u32 \<Rightarrow> timer \<Rightarrow> sched \<Rightarrow> cpu \<Rightarrow> mem \<Rightarrow> 'p \<Rightarrow> (timer \<times> sched \<times> cpu \<times> mem \<times> 'p) option" where
  "irq0_handler P eip_val magic ret t s c m d = do {
     (t1, s1, c1, m1) \<leftarrow> timer_callback (\<lambda>(s, c, m). Some (task_switch eip_val magic ret s c m)) t (s, c, m);
     let d1 = (if current_task s1 = current_task s \<or> eip c1 = ret then p_outb P 0x20 0x20 d else d);
     Some (t1, s1, c1, m1, d1) }"

definition irq1_handler :: "'p ports \<Rightarrow> kbd \<Rightarrow> 'p \<Rightarrow> kbd \<times> 'p" where
  "irq1_handler P k d =
     (let (scancode, d1) = p_inb P 0x60 d;
          k1 = keyboard_handle_scancode scancode k
      in (k1, p_outb P 0x20 0x20 d1))"

definition isr128_handler :: "u32 \<Rightarrow> arg \<Rightarrow> u32 \<Rightarrow> vga \<Rightarrow> vga option" where
  "isr128_handler syscall_num arg1 arg2 v =
     (if syscall_num = 1
      then do { (_, v1) \<leftarrow> printf (lit (''[Syscall] Ring 3 says: %s'' @ [CHR 0x0A])) [arg1] v; Some v1 }
      else do { (_, v1) \<leftarrow> printf (lit (''[Syscall] Unknown syscall requested from User Space: %d'' @ [CHR 0x0A]))
                   [Arg_int syscall_num] v; Some v1 })"

section \<open>Texts\<close>

lemma render_plain: "37 \<notin> set f \<Longrightarrow> render f args = Some f"
  by (induction f) auto

lemma render_append: "37 \<notin> set f \<Longrightarrow> render (f @ g) args = map_option (\<lambda>s. f @ s) (render g args)"
  by (cases "render g args"; induction f) auto

lemma length_ascii [simp]: "length (ascii s) = length s"
  by (simp add: ascii_def)

lemma render_Percent: "render (37 # d # g) args = (case render_conv d args of None \<Rightarrow> None
    | Some (s, args') \<Rightarrow> map_option ((@) s) (render g args'))"
  by simp

text \<open>Printing a format that renders.\<close>

lemma printf_lit:
  assumes "0 \<notin> set (ascii f)" "render (ascii f) args = Some s"
  shows "printf (lit f) args v = Some (of_nat (length s), fold vga_putchar s v)"
  using printf_render [OF assms(1), of args v] assms(2) by (simp add: lit_def)

lemma of_char_u8: "(of_char c :: u8) = of_char d \<longleftrightarrow> c = d"
proof
  assume "(of_char c :: u8) = of_char d"
  then have "unat (of_char c :: u8) = unat (of_char d :: u8)" by simp
  moreover have "unat (of_char x :: u8) = of_char x" for x
    using of_char_of [of "of_char x :: nat"] by (simp add: of_char_def unat_of_nat)
  ultimately have "(of_char c :: nat) = of_char d" by simp
  then show "c = d" by (simp only: of_char_eq_iff)
qed simp

lemma ascii_mem: "0 \<in> set (ascii f) \<longleftrightarrow> CHR 0x00 \<in> set f" "37 \<in> set (ascii f) \<longleftrightarrow> CHR 0x25 \<in> set f"
proof -
  have z: "(0 :: u8) = of_char x \<longleftrightarrow> x = CHR 0x00" and p: "(37 :: u8) = of_char x \<longleftrightarrow> x = CHR 0x25" for x
    using of_char_u8 [of "CHR 0x00" x] of_char_u8 [of "CHR 0x25" x] by auto
  show "0 \<in> set (ascii f) \<longleftrightarrow> CHR 0x00 \<in> set f" "37 \<in> set (ascii f) \<longleftrightarrow> CHR 0x25 \<in> set f"
    by (simp_all only: ascii_def set_map image_iff z p) blast+
qed

lemma ascii_append: "ascii (f @ g) = ascii f @ ascii g"
  by (simp add: ascii_def)

lemma printf_text:
  assumes "CHR 0x00 \<notin> set f" "CHR 0x25 \<notin> set f"
  shows "printf (lit f) args v = Some (of_nat (length f), fold vga_putchar (ascii f) v)"
  using printf_lit [OF _ render_plain] assms ascii_mem by simp

text \<open>One conversion between plain texts.\<close>

lemma printf_conv1:
  assumes "CHR 0x00 \<notin> set f" "CHR 0x25 \<notin> set f" "CHR 0x00 \<notin> set g" "CHR 0x25 \<notin> set g" "c \<noteq> CHR 0x00"
    "render_conv (of_char c) args = Some (s, [])"
  shows "printf (lit (f @ CHR 0x25 # c # g)) args v
     = Some (of_nat (length f + length s + length g), fold vga_putchar (ascii f @ s @ ascii g) v)"
proof -
  have "ascii (f @ CHR 0x25 # c # g) = ascii f @ 37 # of_char c # ascii g" by (simp add: ascii_def)
  then have r: "render (ascii (f @ CHR 0x25 # c # g)) args = Some (ascii f @ s @ ascii g)"
    using assms by (simp only: render_append [OF _] render_Percent ascii_mem) (simp add: ascii_mem render_append render_plain)
  have "0 \<notin> set (ascii (f @ CHR 0x25 # c # g))" using assms by (simp add: ascii_mem)
  from printf_lit [OF this r] show ?thesis by (simp add: add.assoc)
qed

section \<open>Properties\<close>

text \<open>
  The page-fault handler prints the panic screen in white on red and halts there. The
  address is printed with two prefixes, since both the format and the conversion write
  \<^verbatim>\<open>0x\<close>.
\<close>

theorem page_fault_panic:
  "isr14_handler fa v = Some (fold vga_putchar
     ([10] @ ascii ''*** KERNEL PANIC ***'' @ [10]
      @ ascii ''Page Fault (Exception 14) at Virtual Address: 0x'' @ ascii ''0x'' @ numeral_str 16 (unat fa) @ [10]
      @ ascii ''System Halted.'' @ [10]) (v\<lparr>current_color := 0x4F\<rparr>))"
proof -
  have 1: "printf (lit ([CHR 0x0A] @ ''*** KERNEL PANIC ***'' @ [CHR 0x0A])) [] v
      = Some (22, fold vga_putchar ([10] @ ascii ''*** KERNEL PANIC ***'' @ [10]) v)" for v
    by (subst printf_text) (simp_all add: ascii_def)
  have 2: "printf (lit (''Page Fault (Exception 14) at Virtual Address: 0x'' @ CHR 0x25 # CHR ''x'' # [CHR 0x0A])) [Arg_int fa] v
      = Some (of_nat (48 + length (ascii ''0x'' @ numeral_str 16 (unat fa)) + 1),
          fold vga_putchar (ascii ''Page Fault (Exception 14) at Virtual Address: 0x'' @ (ascii ''0x'' @ numeral_str 16 (unat fa)) @ ascii [CHR 0x0A]) v)" for v
    by (subst printf_conv1 [where s = "ascii ''0x'' @ numeral_str 16 (unat fa)"]) (simp_all add: render_conv_def)
  have 3: "printf (lit (''System Halted.'' @ [CHR 0x0A])) [] v = Some (15, fold vga_putchar (ascii ''System Halted.'' @ [10]) v)" for v
    by (subst printf_text) (simp_all add: ascii_def)
  have c: "vga_set_color VGA_WHITE VGA_RED v = v\<lparr>current_color := 0x4F\<rparr>"
    by (simp add: vga_set_color_def vga_color_defs)
  have nl: "ascii [CHR 0x0A] = [10]" by (simp add: ascii_def)
  show ?thesis
    unfolding isr14_handler_def c Let_def 1 3 using 2 by (simp add: nl)
qed

text \<open>
  The system call router: number 1 prints the string its argument points to, or
  \<^verbatim>\<open>(null)\<close>; any other number is reported, as a signed decimal, and nothing else happens.
  A pointer that is no string is undefined behaviour: the handler does not check it.
\<close>

theorem syscall_router:
  "isr128_handler n arg1 arg2 v =
     (if n = 1 then (case arg_str arg1 of None \<Rightarrow> None
        | Some obj \<Rightarrow> map_option (\<lambda>s. fold vga_putchar (ascii ''[Syscall] Ring 3 says: '' @ s @ [10]) v) (cstring obj))
      else Some (fold vga_putchar (ascii ''[Syscall] Unknown syscall requested from User Space: ''
              @ int_text (sint n) @ [10]) v))"
proof -
  have nl: "ascii [CHR 0x0A] = [10]" by (simp add: ascii_def)
  have r0: "0 \<notin> set (ascii (f @ CHR 0x25 # c # [CHR 0x0A]))" if "CHR 0x00 \<notin> set f" "c \<noteq> CHR 0x00" for f c
    using that by (simp add: ascii_mem)
  have S: "printf (lit (''[Syscall] Ring 3 says: '' @ CHR 0x25 # CHR ''s'' # [CHR 0x0A])) [arg1] v =
      (case arg_str arg1 of None \<Rightarrow> None | Some obj \<Rightarrow> (case cstring obj of None \<Rightarrow> None
        | Some s \<Rightarrow> Some (of_nat (23 + length s + 1), fold vga_putchar (ascii ''[Syscall] Ring 3 says: '' @ s @ [10]) v)))"
  proof (cases "\<exists>obj s. arg_str arg1 = Some obj \<and> cstring obj = Some s")
    case True
    then obtain obj s where o: "arg_str arg1 = Some obj" "cstring obj = Some s" by blast
    then have "render_conv (of_char (CHR ''s'')) [arg1] = Some (s, [])" by (simp add: render_conv_def)
    with o show ?thesis by (subst printf_conv1 [where s = s]) (simp_all add: nl)
  next
    case False
    then have "render_conv 115 [arg1] = None"
      by (cases "arg_str arg1"; cases "cstring (the (arg_str arg1))") (auto simp: render_conv_def)
    moreover have "ascii (''[Syscall] Ring 3 says: '' @ CHR 0x25 # CHR ''s'' # [CHR 0x0A]) = ascii ''[Syscall] Ring 3 says: '' @ 37 # 115 # [10]"
      by (simp add: ascii_def)
    ultimately have "render (ascii (''[Syscall] Ring 3 says: '' @ CHR 0x25 # CHR ''s'' # [CHR 0x0A])) [arg1] = None"
      by (simp only: render_append [OF _] render_Percent ascii_mem) (simp add: ascii_mem render_append)
    then have "printf (lit (''[Syscall] Ring 3 says: '' @ CHR 0x25 # CHR ''s'' # [CHR 0x0A])) [arg1] v = None"
      using printf_render [OF r0, of "''[Syscall] Ring 3 says: ''" "CHR ''s''" "[arg1]" v] by (simp add: lit_def)
    with False show ?thesis by (auto split: option.split)
  qed
  have U: "printf (lit (''[Syscall] Unknown syscall requested from User Space: '' @ CHR 0x25 # CHR ''d'' # [CHR 0x0A])) [Arg_int n] v =
      Some (of_nat (53 + length (int_text (sint n)) + 1),
        fold vga_putchar (ascii ''[Syscall] Unknown syscall requested from User Space: '' @ int_text (sint n) @ [10]) v)"
    by (subst printf_conv1 [where s = "int_text (sint n)"]) (simp_all add: render_conv_def nl)
  show ?thesis
    using S U by (auto simp: isr128_handler_def split: option.split)
qed

text \<open>
  (C31) The timer interrupt in a system with several threads: the tick counts, the next thread of the
  ring gets the processor with the interrupt flag of the interrupted one, and the controller is
  acknowledged exactly if that thread was itself suspended in a timer
  interrupt. A thread that runs for the first time leaves the interrupt unacknowledged; since
  interrupt gates clear the flag, no interrupt is delivered to it any more.
\<close>

theorem irq0_round_robin:
  assumes "sched_rel bs ths k s c m" "1 < length ths" "stack_room c (ths ! k)" "magic \<noteq> 0x12345678"
  defines "nxt \<equiv> ths ! ((k + 1) mod length ths)"
  shows "\<exists>s' c' m'. irq0_handler P eip_val magic ret t s c m d
        = Some (t\<lparr>tick := tick t + 1\<rparr>, s', c', m', if x_eip (t_ctx nxt) = ret then p_outb P 0x20 0x20 d else d)
      \<and> regs c' = t_ctx nxt \<and> iflag c' = iflag c
      \<and> sched_rel bs (ths[k := suspend c ret (ths ! k)]) ((k + 1) mod length ths) s' c' m'"
proof -
  obtain s' c' m' where r: "task_switch eip_val magic ret s c m = (s', c', m')" by (metis prod_cases3)
  note sw = switch_to_next [OF assms(1,2,4) assms(3) [unfolded stack_room_def, THEN conjunct1]
    assms(3) [unfolded stack_room_def, THEN conjunct2] r]
  have k: "k < length ths" "(k + 1) mod length ths < length ths" "(k + 1) mod length ths \<noteq> k"
    using assms(1,2) by (auto simp: sched_rel_def mod_Suc)
  have ne: "current_task s' \<noteq> current_task s"
    using tcb_inj [of m bs ths "(k + 1) mod length ths" k] assms(1) k sw(1)
    by (auto simp: sched_rel_def nth_list_update)
  have "eip c' = x_eip (t_ctx nxt)" using arg_cong [OF sw(2), of x_eip] by (simp add: nxt_def regs_def)
  with ne r sw show ?thesis
    by (auto simp: irq0_handler_def timer_callback_def nxt_def)
qed

theorem irq0_round_robin_witness:
  "\<exists>s m s' c' m'. irq0_handler \<lparr>p_inb = \<lambda>_ d. (0, d), p_outb = \<lambda>p v d. d @ [(p, v)], p_inw = \<lambda>_ d. (0, d), p_outw = \<lambda>_ _ d. d\<rparr>
       0x1100 0 0x1300 \<lparr>tick = 7, current_freq = 100\<rparr> s sample_cpu m []
     = Some (\<lparr>tick = 8, current_freq = 100\<rparr>, s', c', m', []) \<and> eip c' = 0x5000"
proof -
  obtain s m where r: "sched_rel [(24, False), (24, False), (4096, False), (1044384, True)] [main_thread, worker_thread] 0 s sample_cpu m"
    using sample_two by blast
  from irq0_round_robin [OF r, of 0
      "\<lparr>p_inb = \<lambda>_ d. (0, d), p_outb = \<lambda>p v d. d @ [(p, v)], p_inw = \<lambda>_ d. (0, d), p_outw = \<lambda>_ _ d. d\<rparr>"
      "0x1100" "0x1300" "\<lparr>tick = 7, current_freq = 100\<rparr>" "[]"] sample_room
  obtain s' c' m' where i: "irq0_handler \<lparr>p_inb = \<lambda>_ d. (0, d), p_outb = \<lambda>p v d. d @ [(p, v)], p_inw = \<lambda>_ d. (0, d), p_outw = \<lambda>_ _ d. d\<rparr>
       0x1100 0 0x1300 \<lparr>tick = 7, current_freq = 100\<rparr> s sample_cpu m []
     = Some (\<lparr>tick = 8, current_freq = 100\<rparr>, s', c', m', [])" "regs c' = t_ctx worker_thread"
    by (auto simp: worker_thread_def)
  from i(2) have "eip c' = 0x5000" by (auto simp: worker_thread_def regs_def)
  with i(1) show ?thesis by blast
qed

end
