(* ===== verification/Bh_Paging.thy ===== *)
theory Bh_Paging
  imports Bh_Mem
begin

text \<open>
  Virtual memory, \<^verbatim>\<open>kernel/paging.c\<close>: the page directory and the first page table
  are built in the flat memory, inside two raw buffers whose addresses are parameters. The
  two-level translation of the processor is the specification: it reads the tables as the
  hardware does, from the address in the control register.
\<close>

section \<open>State and operations\<close>

record paging =
  page_directory :: u32
  first_page_table :: u32
  cr3 :: u32
  cr0 :: u32

definition load_page_directory :: "u32 \<Rightarrow> paging \<Rightarrow> paging" where
  "load_page_directory pd s = s\<lparr>cr3 := pd\<rparr>"

definition enable_paging :: "paging \<Rightarrow> paging" where
  "enable_paging s = s\<lparr>cr0 := cr0 s OR 0x80000000\<rparr>"

text \<open>\<^verbatim>\<open>for (i ...) table[i] = entry(i)\<close>, \<open>n\<close> rounds from \<open>i\<close>.\<close>

fun table_loop :: "(nat \<Rightarrow> u32) \<Rightarrow> u32 \<Rightarrow> nat \<Rightarrow> nat \<Rightarrow> mem \<Rightarrow> mem" where
  "table_loop entry table 0 i m = m"
| "table_loop entry table (Suc n) i m = table_loop entry table n (Suc i) (st32 m (table + 4 * of_nat i) (entry i))"

definition align_page :: "u32 \<Rightarrow> u32" where
  "align_page raw = (raw + 4095) AND NOT 4095"

definition paging_init :: "u32 \<Rightarrow> u32 \<Rightarrow> paging \<Rightarrow> mem \<Rightarrow> paging \<times> mem" where
  "paging_init page_directory_raw first_page_table_raw s m =
     (let pd = align_page page_directory_raw;
          pt = align_page first_page_table_raw;
          s1 = s\<lparr>page_directory := pd, first_page_table := pt\<rparr>;
          m1 = table_loop (\<lambda>i. 0x00000002) pd 1024 0 m;
          m2 = table_loop (\<lambda>i. (of_nat i * 4096) OR 3) pt 1024 0 m1;
          m3 = st32 m2 pd (pt OR 3)
      in (enable_paging (load_page_directory pd s1), m3))"

section \<open>What the processor does\<close>

text \<open>
  Translation of a linear address with 4 KB pages; \<^const>\<open>None\<close> is a page fault. Accesses
  from ring 3 need the user bit, and for writing the write bit, in both entries; accesses from
  ring 0 need only present entries (the write-protect bit of \<^verbatim>\<open>cr0\<close> is never set).
\<close>

definition entry_permits :: "bool \<Rightarrow> bool \<Rightarrow> u32 \<Rightarrow> bool" where
  "entry_permits user wr e \<longleftrightarrow> e AND 1 \<noteq> 0 \<and> (user \<longrightarrow> e AND 4 \<noteq> 0 \<and> (wr \<longrightarrow> e AND 2 \<noteq> 0))"

definition mmu :: "paging \<Rightarrow> mem \<Rightarrow> bool \<Rightarrow> bool \<Rightarrow> u32 \<Rightarrow> u32 option" where
  "mmu s m user wr va =
     (if cr0 s AND 0x80000000 = 0 then Some va
      else let pde = ld32 m ((cr3 s AND 0xFFFFF000) + 4 * drop_bit 22 va)
      in if \<not> entry_permits user wr pde then None
         else let pte = ld32 m ((pde AND 0xFFFFF000) + 4 * (drop_bit 12 va AND 0x3FF))
         in if \<not> entry_permits user wr pte then None
            else Some ((pte AND 0xFFFFF000) OR (va AND 0xFFF)))"

section \<open>Lemmas\<close>

lemma high_mask: "(0xFFFFF000 :: u32) = NOT (mask 12)" "NOT (4095 :: u32) = NOT (mask 12)"
  by (simp_all add: mask_eq_exp_minus_1)

lemma align_page_mask: "align_page raw = (raw + 4095) AND NOT (mask 12)"
  by (simp only: align_page_def high_mask)

lemma unat_not_mask12: "unat ((w :: u32) AND NOT (mask 12)) = unat w div 4096 * 4096"
proof -
  have "w AND NOT (mask 12) = push_bit 12 (drop_bit 12 w)"
    by (rule bit_word_eqI) (auto simp: bit_simps)
  moreover have "take_bit 32 (unat w div 4096 * 4096) = unat w div 4096 * 4096"
    using unat_lt2p_u32 [of w] by (intro take_bit_nat_eq_self) (simp add: le_less_trans [OF div_times_less_eq_dividend])
  ultimately show ?thesis
    by (simp only: unsigned_push_bit_eq unat_drop_bit_eq) (simp add: drop_bit_eq_div push_bit_eq_mult)
qed

lemma align_page_bounds:
  assumes "unat raw + 8192 \<le> 2 ^ 32"
  shows "unat raw \<le> unat (align_page raw)" "unat (align_page raw) + 4096 \<le> unat raw + 8192"
    "4096 dvd unat (align_page raw)"
proof -
  have "unat (raw + 4095) = unat raw + 4095" using assms by (simp add: unat_word_ariths)
  then have a: "unat (align_page raw) = (unat raw + 4095) div 4096 * 4096"
    by (simp only: align_page_mask unat_not_mask12)
  show "unat raw \<le> unat (align_page raw)" "unat (align_page raw) + 4096 \<le> unat raw + 8192"
    "4096 dvd unat (align_page raw)"
    unfolding a by (linarith, linarith, simp)
qed

lemma permits_bits: "entry_permits user wr e \<longleftrightarrow> bit e 0 \<and> (user \<longrightarrow> bit e 2 \<and> (wr \<longrightarrow> bit e 1))"
  using bit_iff_and_push_bit_not_eq_0 [of e 0] bit_iff_and_push_bit_not_eq_0 [of e 1] bit_iff_and_push_bit_not_eq_0 [of e 2]
  by (simp add: entry_permits_def push_bit_eq_mult)

lemma bit_three: "bit (3 :: u32) n \<longleftrightarrow> n < 2"
proof -
  have "(3 :: u32) = mask 2" by (simp add: mask_eq_exp_minus_1)
  then show ?thesis by (simp only: bit_mask_iff possible_bit_word) auto
qed

text \<open>An entry for the page at \<open>a\<close> with the flags present and writable.\<close>

lemma entry_three:
  assumes "a = (b :: u32) AND NOT (mask 12)"
  shows "(a OR 3) AND 0xFFFFF000 = a" "entry_permits user wr (a OR 3) \<longleftrightarrow> \<not> user"
proof -
  have low: "\<not> bit a n" if "n < 12" for n using that by (simp add: assms bit_simps)
  show "(a OR 3) AND 0xFFFFF000 = a"
    unfolding high_mask
  proof (rule bit_word_eqI)
    fix n assume "n < LENGTH(32)"
    then show "bit ((a OR 3) AND NOT (mask 12)) n = bit a n"
      using low [of n] bit_three [of n]
      by (cases "n < 12") (auto simp only: bit_or_iff bit_and_iff bit_not_iff bit_mask_iff possible_bit_word)
  qed
  show "entry_permits user wr (a OR 3) \<longleftrightarrow> \<not> user"
    by (simp add: permits_bits bit_or_iff bit_three low)
qed

text \<open>Filling a table: its entries afterwards, and what stays.\<close>

lemma table_addr: "(of_nat p :: u32) + 4 * of_nat i = of_nat (p + 4 * i)"
  by simp

lemma table_loop_same_on:
  assumes "p + 4 * (i + n) \<le> 2 ^ 32" "hi \<le> 2 ^ 32" "hi \<le> p + 4 * i \<or> p + 4 * (i + n) \<le> lo"
  shows "same_on lo hi m (table_loop f (of_nat p) n i m)"
  using assms
proof (induction n arbitrary: i m)
  case (Suc n)
  show ?case unfolding table_loop.simps table_addr
    by (rule same_on_trans [OF st32_same_on Suc.IH]) (use Suc.prems in auto)
qed simp

lemma table_loop_entry:
  assumes "p + 4 * (i + n) \<le> 2 ^ 32" "i \<le> j" "j < i + n"
  shows "ld32 (table_loop f (of_nat p) n i m) (of_nat (p + 4 * j)) = f j"
  using assms
proof (induction n arbitrary: i m)
  case (Suc n)
  show ?case
  proof (cases "j = i")
    case True
    have "ld32 (table_loop f (of_nat p) n (Suc i) (st32 m (of_nat (p + 4 * i)) (f i))) (of_nat (p + 4 * i))
        = ld32 (st32 m (of_nat (p + 4 * i)) (f i)) (of_nat (p + 4 * i))"
      by (rule ld32_same_on [OF table_loop_same_on]) (use Suc.prems in auto)
    with True show ?thesis unfolding table_loop.simps table_addr by simp
  next
    case False
    then show ?thesis unfolding table_loop.simps table_addr by (intro Suc.IH) (use Suc.prems in auto)
  qed
qed simp

section \<open>Properties\<close>

text \<open>The two raw buffers lie in the address space and do not overlap.\<close>

definition raw_buffers :: "u32 \<Rightarrow> u32 \<Rightarrow> bool" where
  "raw_buffers pd_raw pt_raw \<longleftrightarrow> unat pd_raw + 8192 \<le> 2 ^ 32 \<and> unat pt_raw + 8192 \<le> 2 ^ 32
     \<and> (unat pd_raw + 8192 \<le> unat pt_raw \<or> unat pt_raw + 8192 \<le> unat pd_raw)"

lemma paging_tables:
  assumes raw: "raw_buffers pd_raw pt_raw" and r: "paging_init pd_raw pt_raw s m = (s', m')"
  defines "pd \<equiv> align_page pd_raw" and "pt \<equiv> align_page pt_raw"
  shows "s' = s\<lparr>page_directory := pd, first_page_table := pt, cr3 := pd, cr0 := cr0 s OR 0x80000000\<rparr>"
    "j < 1024 \<Longrightarrow> ld32 m' (pd + 4 * of_nat j) = (if j = 0 then pt OR 3 else 2)"
    "j < 1024 \<Longrightarrow> ld32 m' (pt + 4 * of_nat j) = of_nat j * 4096 OR 3"
    "hi \<le> 2 ^ 32 \<Longrightarrow> hi \<le> unat pd_raw \<or> unat pd_raw + 8192 \<le> lo \<Longrightarrow> hi \<le> unat pt_raw \<or> unat pt_raw + 8192 \<le> lo
      \<Longrightarrow> same_on lo hi m m'"
proof -
  define p where "p = unat pd"
  define t where "t = unat pt"
  have pdp: "pd = of_nat p" "pt = of_nat t" by (simp_all add: p_def t_def)
  have b: "unat pd_raw \<le> p" "p + 4096 \<le> unat pd_raw + 8192" "unat pt_raw \<le> t" "t + 4096 \<le> unat pt_raw + 8192"
    "unat pd_raw + 8192 \<le> 2 ^ 32" "unat pt_raw + 8192 \<le> 2 ^ 32"
    using raw align_page_bounds(1,2) [of pd_raw] align_page_bounds(1,2) [of pt_raw]
    by (simp_all add: raw_buffers_def p_def t_def pd_def pt_def)
  have apart: "p + 4096 \<le> t \<or> t + 4096 \<le> p" using raw b by (auto simp: raw_buffers_def)
  have fit: "p + 4096 \<le> 2 ^ 32" "t + 4096 \<le> 2 ^ 32" using b by linarith+
  define m1 where "m1 = table_loop (\<lambda>i. 2) (of_nat p) 1024 0 m"
  define m2 where "m2 = table_loop (\<lambda>i. of_nat i * 4096 OR 3) (of_nat t) 1024 0 m1"
  have m': "m' = st32 m2 (of_nat p) (pt OR 3)"
    and s': "s' = s\<lparr>page_directory := pd, first_page_table := pt, cr3 := pd, cr0 := cr0 s OR 0x80000000\<rparr>"
    using r by (simp_all add: paging_init_def Let_def m1_def m2_def flip: pd_def pt_def pdp)
      (simp add: enable_paging_def load_page_directory_def)
  show "s' = s\<lparr>page_directory := pd, first_page_table := pt, cr3 := pd, cr0 := cr0 s OR 0x80000000\<rparr>" by (rule s')
  have k1: "same_on lo hi m m1" if "hi \<le> 2 ^ 32" "hi \<le> p \<or> p + 4096 \<le> lo" for lo hi
    unfolding m1_def by (rule table_loop_same_on) (use fit that in auto)
  have k2: "same_on lo hi m1 m2" if "hi \<le> 2 ^ 32" "hi \<le> t \<or> t + 4096 \<le> lo" for lo hi
    unfolding m2_def by (rule table_loop_same_on) (use fit that in auto)
  have k3: "same_on lo hi m2 m'" if "hi \<le> 2 ^ 32" "hi \<le> p \<or> p + 4 \<le> lo" for lo hi
    unfolding m' by (rule st32_same_on) (use fit that in auto)
  show "same_on lo hi m m'" if "hi \<le> 2 ^ 32" "hi \<le> unat pd_raw \<or> unat pd_raw + 8192 \<le> lo"
      "hi \<le> unat pt_raw \<or> unat pt_raw + 8192 \<le> lo"
    by (rule same_on_trans [OF k1 same_on_trans [OF k2 k3]]) (use b that in auto)
  show "ld32 m' (pd + 4 * of_nat j) = (if j = 0 then pt OR 3 else 2)" if "j < 1024"
  proof (cases "j = 0")
    case True
    then show ?thesis by (simp add: m' pdp)
  next
    case False
    have "ld32 m' (of_nat (p + 4 * j)) = ld32 m2 (of_nat (p + 4 * j))"
      by (rule ld32_same_on [OF k3]) (use False fit that in auto)
    also have "\<dots> = ld32 m1 (of_nat (p + 4 * j))"
      by (rule ld32_same_on [OF k2]) (use apart fit that in auto)
    also have "\<dots> = 2" unfolding m1_def by (rule table_loop_entry) (use fit that in auto)
    finally show ?thesis using False by (simp add: pdp)
  qed
  show "ld32 m' (pt + 4 * of_nat j) = of_nat j * 4096 OR 3" if "j < 1024"
  proof -
    have "ld32 m' (of_nat (t + 4 * j)) = ld32 m2 (of_nat (t + 4 * j))"
      by (rule ld32_same_on [OF k3]) (use apart fit that in auto)
    also have "\<dots> = of_nat j * 4096 OR 3" unfolding m2_def by (rule table_loop_entry) (use fit that in auto)
    finally show ?thesis by (simp add: pdp)
  qed
qed

lemma identity_entry:
  assumes "(va :: u32) < 0x400000"
  defines "i \<equiv> unat (drop_bit 12 va AND 0x3FF)"
  shows "i < 1024" "drop_bit 12 va AND 0x3FF = of_nat i" "(of_nat i :: u32) * 4096 = va AND NOT (mask 12)"
    "drop_bit 22 va = 0"
proof -
  have m: "(0x3FF :: u32) = mask 10" by (simp add: mask_eq_exp_minus_1)
  have v: "unat va < 2 ^ 22" using assms(1) by (simp add: word_less_nat_alt)
  then have "unat (drop_bit 22 va) = 0" by (subst unat_drop_bit_eq) (simp add: drop_bit_eq_div)
  then show "drop_bit 22 va = 0" by (simp only: unsigned_eq_0_iff)
  have "unat (drop_bit 12 va AND 0x3FF) = unat va div 4096 mod 1024"
    unfolding m take_bit_eq_mask [symmetric] unsigned_take_bit_eq unat_drop_bit_eq
    by (simp add: drop_bit_eq_div take_bit_eq_mod)
  with v have i: "i = unat va div 4096" by (simp add: i_def)
  with v show "i < 1024" by simp
  show "drop_bit 12 va AND 0x3FF = of_nat i" by (simp add: i_def)
  have "unat (va AND NOT (mask 12)) = i * 4096" by (simp only: unat_not_mask12 i)
  then have "va AND NOT (mask 12) = of_nat (i * 4096)" by (metis of_nat_unat ucast_id)
  then show "(of_nat i :: u32) * 4096 = va AND NOT (mask 12)" by simp
qed

lemma upper_entry:
  assumes "0x400000 \<le> (va :: u32)"
  defines "j \<equiv> unat (drop_bit 22 va)"
  shows "0 < j" "j < 1024" "drop_bit 22 va = of_nat j"
proof -
  have j: "j = unat va div 2 ^ 22" unfolding j_def by (subst unat_drop_bit_eq) (simp add: drop_bit_eq_div)
  have "2 ^ 22 \<le> unat va" using assms(1) by (simp add: word_le_nat_alt)
  then show "0 < j" by (simp add: j div_greater_zero_iff)
  show "j < 1024" using unat_lt2p_u32 [of va] by (simp add: j)
  show "drop_bit 22 va = of_nat j" by (simp add: j_def)
qed

lemma entry_two: "\<not> entry_permits user wr 2"
  by (simp add: entry_permits_def)

lemma identity_map:
  assumes "raw_buffers pd_raw pt_raw" "paging_init pd_raw pt_raw s m = (s', m')"
    "same_on (unat pd_raw) (unat pd_raw + 8192) m' m''" "same_on (unat pt_raw) (unat pt_raw + 8192) m' m''"
  shows "mmu s' m'' user wr va = (if va < 0x400000 \<and> \<not> user then Some va else None)
    \<and> (\<forall>lo hi. hi \<le> 2 ^ 32 \<and> (hi \<le> unat pd_raw \<or> unat pd_raw + 8192 \<le> lo) \<and> (hi \<le> unat pt_raw \<or> unat pt_raw + 8192 \<le> lo)
         \<longrightarrow> same_on lo hi m m')"
proof -
  note t = paging_tables [OF assms(1,2)]
  have ld: "ld32 m'' (align_page raw + 4 * of_nat j) = ld32 m' (align_page raw + 4 * of_nat j)"
    if "j < 1024" "raw = pd_raw \<or> raw = pt_raw" for raw j
  proof -
    have b: "unat raw + 8192 \<le> 2 ^ 32" using assms(1) that(2) by (auto simp: raw_buffers_def)
    have "same_on (unat (align_page raw) + 4 * j) (unat (align_page raw) + 4 * j + 4) m' m''"
      using align_page_bounds(1,2) [OF b] that assms(3,4) by (auto intro: same_on_mono)
    from ld32_same_on [OF this] show ?thesis by simp
  qed
  have dir: "ld32 m'' (align_page pd_raw + 4 * of_nat j) = (if j = 0 then align_page pt_raw OR 3 else 2)" if "j < 1024" for j
    using ld [OF that] t(2) [OF that] by simp
  have tab: "ld32 m'' (align_page pt_raw + 4 * of_nat j) = of_nat j * 4096 OR 3" if "j < 1024" for j
    using ld [OF that] t(3) [OF that] by simp
  have cr0: "(c OR 0x80000000) AND 0x80000000 \<noteq> (0 :: u32)" for c
    using bit_iff_and_push_bit_not_eq_0 [of "c OR 0x80000000" 31] by (simp add: push_bit_eq_mult bit_or_iff bit_numeral_rec)
  have pd: "align_page pd_raw AND 0xFFFFF000 = align_page pd_raw"
    by (simp only: align_page_mask high_mask and.assoc and.idem)
  note pt = entry_three [OF align_page_mask [of pt_raw]]
  have "mmu s' m'' user wr va = (if va < 0x400000 \<and> \<not> user then Some va else None)"
  proof (cases "va < 0x400000")
    case True
    note i = identity_entry [OF True]
    define a where "a = (drop_bit 12 va AND 0x3FF) * 4096"
    have a: "a = va AND NOT (mask 12)" using i(2,3) by (simp add: a_def)
    note e = entry_three [OF a]
    have off: "a OR va AND 0xFFF = va"
      unfolding a by (simp add: mask_eq_exp_minus_1 flip: bit.conj_disj_distrib)
    have t0: "ld32 m'' (align_page pt_raw + 4 * (drop_bit 12 va AND 0x3FF)) = a OR 3"
      using tab [OF i(1)] by (simp add: a_def)
    show ?thesis
      using dir [of 0] True by (simp add: mmu_def t(1) cr0 pd i(4) pt e Let_def off t0)
  next
    case False
    then have "0x400000 \<le> va" by simp
    note j = upper_entry [OF this]
    show ?thesis
      using dir [OF j(2)] j(1) False by (simp add: mmu_def t(1) cr0 pd entry_two flip: j(3))
  qed
  with t(4) show ?thesis by blast
qed

lemma raw_sample: "raw_buffers 0x8000 0xB000"
  by (simp add: raw_buffers_def)

text \<open>
  (C27) After \<^verbatim>\<open>paging_init\<close>, and in every later memory that has the same two tables, paging is on and the
  supervisor sees the first 4 MB mapped to themselves, readable and writable; every other address
  faults, and so does every access from ring 3, since no entry has the user bit. Nothing
  outside the two raw buffers was written.
\<close>

theorem paging_identity_map:
  assumes "raw_buffers pd_raw pt_raw" "paging_init pd_raw pt_raw s m = (s', m')"
    "same_on (unat pd_raw) (unat pd_raw + 8192) m' m''" "same_on (unat pt_raw) (unat pt_raw + 8192) m' m''"
  shows "mmu s' m'' user wr va = (if va < 0x400000 \<and> \<not> user then Some va else None)
    \<and> (\<forall>lo hi. hi \<le> 2 ^ 32 \<and> (hi \<le> unat pd_raw \<or> unat pd_raw + 8192 \<le> lo) \<and> (hi \<le> unat pt_raw \<or> unat pt_raw + 8192 \<le> lo)
         \<longrightarrow> same_on lo hi m m')"
  using assms by (rule identity_map)

theorem paging_identity_map_witness:
  "let (s', m') = paging_init 0x8000 0xB000 \<lparr>page_directory = 0, first_page_table = 0, cr3 = 0, cr0 = 0x11\<rparr> (\<lambda>_. 7)
   in mmu s' m' False True 0xB8000 = Some 0xB8000 \<and> mmu s' m' True False 0x1000 = None
      \<and> mmu s' m' False True 0xFFFFF000 = None \<and> same_on 0 0x8000 (\<lambda>_. 7) m'"
  using paging_identity_map [OF raw_sample surjective_pairing same_on_refl same_on_refl,
      of "\<lparr>page_directory = 0, first_page_table = 0, cr3 = 0, cr0 = 0x11\<rparr>" "\<lambda>_. 7"]
  by (simp add: case_prod_beta)

end
