(* ===== verification/Bh_Fat16.thy ===== *)
theory Bh_Fat16
  imports Bh_Ata
begin

text \<open>
  The FAT16 driver, \<^verbatim>\<open>fs/fat16.c\<close> and \<^verbatim>\<open>fs/fat16.h\<close>, over any sector
  store (the ATA driver is one: \<^const>\<open>ata_io\<close>). The driver's static variables are the record
  \<open>fat_vars\<close>; the state of an operation adds the disk and the console. A value
  \<^const>\<open>None\<close> is a hang of the disk, an access outside a C object or a division by zero. The
  two walks along a cluster chain are \<^theory_text>\<open>partial_function\<close>s, because a cyclic chain
  need not end.
\<close>

section \<open>State and buffers\<close>

definition FAT16_ATTR_READ_ONLY :: u8 where [simp]: "FAT16_ATTR_READ_ONLY = 0x01"
definition FAT16_ATTR_HIDDEN :: u8 where [simp]: "FAT16_ATTR_HIDDEN = 0x02"
definition FAT16_ATTR_SYSTEM :: u8 where [simp]: "FAT16_ATTR_SYSTEM = 0x04"
definition FAT16_ATTR_VOLUME_ID :: u8 where [simp]: "FAT16_ATTR_VOLUME_ID = 0x08"
definition FAT16_ATTR_DIRECTORY :: u8 where [simp]: "FAT16_ATTR_DIRECTORY = 0x10"
definition FAT16_ATTR_ARCHIVE :: u8 where [simp]: "FAT16_ATTR_ARCHIVE = 0x20"
definition FAT16_ATTR_LONG_NAME :: u8 where [simp]: "FAT16_ATTR_LONG_NAME = 0x0F"

record fat_vars =
  fat_start_lba :: u32
  root_dir_start_lba :: u32
  data_start_lba :: u32
  root_dir_sectors :: u32
  bytes_per_sector :: u16
  sectors_per_cluster :: u8
  root_entry_count :: u16
  fat_size_sectors :: u16
  num_fats :: u8

record 'd fs =
  vars :: fat_vars
  dev :: 'd
  scr :: vga

definition read_sec :: "'d sector_io \<Rightarrow> u32 \<Rightarrow> 'd fs \<Rightarrow> (bytes \<times> 'd fs) option" where
  "read_sec io lba s = do { (b, d) \<leftarrow> sec_read io lba (dev s); Some (b, s\<lparr>dev := d\<rparr>) }"

definition write_sec :: "'d sector_io \<Rightarrow> u32 \<Rightarrow> bytes \<Rightarrow> 'd fs \<Rightarrow> 'd fs option" where
  "write_sec io lba b s = do { d \<leftarrow> sec_write io lba b (dev s); Some (s\<lparr>dev := d\<rparr>) }"

definition say :: "string \<Rightarrow> arg list \<Rightarrow> 'd fs \<Rightarrow> 'd fs option" where
  "say fmt args s = do { (_, v) \<leftarrow> printf (lit fmt) args (scr s); Some (s\<lparr>scr := v\<rparr>) }"

text \<open>The packed little-endian fields of a buffer.\<close>

definition rd16 :: "bytes \<Rightarrow> nat \<Rightarrow> u16 option" where
  "rd16 b p = do { lo \<leftarrow> aget b p; hi \<leftarrow> aget b (p + 1); Some (word_of_bytes lo hi) }"

definition wr16 :: "bytes \<Rightarrow> nat \<Rightarrow> u16 \<Rightarrow> bytes option" where
  "wr16 b p v = do { b1 \<leftarrow> aput b p (ucast v); aput b1 (p + 1) (ucast (drop_bit 8 v)) }"

definition rd32 :: "bytes \<Rightarrow> nat \<Rightarrow> u32 option" where
  "rd32 b p = do { lo \<leftarrow> rd16 b p; hi \<leftarrow> rd16 b (p + 2); Some (ucast lo OR push_bit 16 (ucast hi)) }"

definition wr32 :: "bytes \<Rightarrow> nat \<Rightarrow> u32 \<Rightarrow> bytes option" where
  "wr32 b p v = do { b1 \<leftarrow> wr16 b p (ucast v); wr16 b1 (p + 2) (ucast (drop_bit 16 v)) }"

section \<open>Helpers of the driver\<close>

definition cluster_to_lba :: "fat_vars \<Rightarrow> u16 \<Rightarrow> u32" where
  "cluster_to_lba g cluster = data_start_lba g + (ucast cluster - 2) * ucast (sectors_per_cluster g)"

definition fat_read_entry :: "'d sector_io \<Rightarrow> u16 \<Rightarrow> 'd fs \<Rightarrow> (u16 \<times> 'd fs) option" where
  "fat_read_entry io cluster s =
     (let fat_offset = ucast cluster * 2 :: u32;
          fat_sector = fat_start_lba (vars s) + fat_offset div 512;
          entry_offset = fat_offset mod 512
      in do { (buf, s1) \<leftarrow> read_sec io fat_sector s;
              v \<leftarrow> rd16 buf (unat entry_offset);
              Some (v, s1) })"

text \<open>The loop over the FAT copies: \<open>n\<close> copies from copy \<open>f\<close> on.\<close>

fun fat_write_loop :: "'d sector_io \<Rightarrow> nat \<Rightarrow> nat \<Rightarrow> u32 \<Rightarrow> nat \<Rightarrow> u16 \<Rightarrow> 'd fs \<Rightarrow> 'd fs option" where
  "fat_write_loop io 0 f sector_off entry_offset v s = Some s"
| "fat_write_loop io (Suc n) f sector_off entry_offset v s =
     (let sector = fat_start_lba (vars s) + of_nat f * ucast (fat_size_sectors (vars s)) + sector_off
      in do { (buf, s1) \<leftarrow> read_sec io sector s;
              buf1 \<leftarrow> wr16 buf entry_offset v;
              s2 \<leftarrow> write_sec io sector buf1 s1;
              fat_write_loop io n (Suc f) sector_off entry_offset v s2 })"

definition fat_write_entry :: "'d sector_io \<Rightarrow> u16 \<Rightarrow> u16 \<Rightarrow> 'd fs \<Rightarrow> 'd fs option" where
  "fat_write_entry io cluster v s =
     (let fat_offset = ucast cluster * 2 :: u32
      in fat_write_loop io (unat (num_fats (vars s))) 0 (fat_offset div 512) (unat (fat_offset mod 512)) v s)"

text \<open>The scan of \<^verbatim>\<open>fat_alloc_cluster\<close>, from cluster \<open>c\<close> up to 2047.\<close>

function fat_alloc_loop :: "'d sector_io \<Rightarrow> nat \<Rightarrow> 'd fs \<Rightarrow> (u16 \<times> 'd fs) option" where
  "fat_alloc_loop io c s =
     (if c < 2048 then (case fat_read_entry io (of_nat c) s of
          None \<Rightarrow> None
        | Some (e, s1) \<Rightarrow> if e = 0 then Some (of_nat c, s1) else fat_alloc_loop io (Suc c) s1)
      else Some (0, s))"
  by pat_completeness auto
termination by (relation "measure (\<lambda>(io, c, s). 2048 - c)") auto

declare fat_alloc_loop.simps [simp del]

definition fat_alloc_cluster :: "'d sector_io \<Rightarrow> 'd fs \<Rightarrow> (u16 \<times> 'd fs) option" where
  "fat_alloc_cluster io s = fat_alloc_loop io 2 s"

text \<open>8.3 names: \<open>fat_name\<close> is eleven bytes at offset \<open>p\<close> of an object.\<close>

definition fat_upper :: "u8 \<Rightarrow> u8" where
  "fat_upper c = (if c \<ge> 97 \<and> c \<le> 122 then c - 32 else c)"

function fat_base_loop :: "bytes \<Rightarrow> bytes \<Rightarrow> nat \<Rightarrow> nat \<Rightarrow> nat \<Rightarrow> (bytes \<times> nat) option" where
  "fat_base_loop input fat_name p i j = (case aget input i of
     None \<Rightarrow> None
   | Some c \<Rightarrow>
       if c \<noteq> 0 \<and> c \<noteq> 46 \<and> j < 8 then (case aput fat_name (p + j) (fat_upper c) of
           None \<Rightarrow> None
         | Some fat_name' \<Rightarrow> fat_base_loop input fat_name' p (Suc i) (Suc j))
       else Some (fat_name, i))"
  by pat_completeness auto
termination by (relation "measure (\<lambda>(input, fat_name, p, i, j). 8 - j)") auto

function fat_ext_loop :: "bytes \<Rightarrow> bytes \<Rightarrow> nat \<Rightarrow> nat \<Rightarrow> nat \<Rightarrow> bytes option" where
  "fat_ext_loop input fat_name p i j = (case aget input i of
     None \<Rightarrow> None
   | Some c \<Rightarrow>
       if c \<noteq> 0 \<and> j < 11 then (case aput fat_name (p + j) (fat_upper c) of
           None \<Rightarrow> None
         | Some fat_name' \<Rightarrow> fat_ext_loop input fat_name' p (Suc i) (Suc j))
       else Some fat_name)"
  by pat_completeness auto
termination by (relation "measure (\<lambda>(input, fat_name, p, i, j). 11 - j)") auto

declare fat_base_loop.simps [simp del] fat_ext_loop.simps [simp del]

definition to_fat_name :: "bytes \<Rightarrow> bytes \<Rightarrow> nat \<Rightarrow> bytes option" where
  "to_fat_name input fat_name p = do {
     n0 \<leftarrow> memset fat_name p 32 11;
     (n1, i) \<leftarrow> fat_base_loop input n0 p 0 0;
     c \<leftarrow> aget input i;
     if c = 46 then fat_ext_loop input n1 p (Suc i) 8 else Some n1 }"

text \<open>The comparison with the eleven bytes at offset \<open>p\<close> of a directory sector.\<close>

fun fat_cmp_loop :: "bytes \<Rightarrow> bytes \<Rightarrow> nat \<Rightarrow> nat \<Rightarrow> nat \<Rightarrow> bool option" where
  "fat_cmp_loop fat_name sector p 0 i = Some True"
| "fat_cmp_loop fat_name sector p (Suc n) i = do {
     a \<leftarrow> aget fat_name i;
     b \<leftarrow> aget sector (p + i);
     if a \<noteq> b then Some False else fat_cmp_loop fat_name sector p n (Suc i) }"

definition fat_name_match :: "bytes \<Rightarrow> bytes \<Rightarrow> nat \<Rightarrow> bool option" where
  "fat_name_match input sector p = do {
     fat_name \<leftarrow> to_fat_name input (replicate 11 0) 0;
     fat_cmp_loop fat_name sector p 11 0 }"
section \<open>Walking the root directory\<close>

text \<open>
  The nested loop all directory operations share: read each sector of the root directory, run
  the body on its sixteen entries; the body gives \<open>Inl\<close> to leave both loops with a result
  (\<^verbatim>\<open>return\<close>, \<^verbatim>\<open>goto done\<close>) or \<open>Inr\<close> to go on. It gets the sector's
  number and contents and the offset of the entry.
\<close>

function dir_entries ::
  "(u32 \<Rightarrow> bytes \<Rightarrow> nat \<Rightarrow> 'a \<Rightarrow> 'd fs \<Rightarrow> (('r + 'a) \<times> 'd fs) option) \<Rightarrow> u32 \<Rightarrow> bytes \<Rightarrow> nat \<Rightarrow> 'a \<Rightarrow> 'd fs \<Rightarrow>
   (('r + 'a) \<times> 'd fs) option" where
  "dir_entries body s sector i acc st =
     (if i < 16 then (case body s sector (32 * i) acc st of
          None \<Rightarrow> None
        | Some (Inl r, st1) \<Rightarrow> Some (Inl r, st1)
        | Some (Inr acc1, st1) \<Rightarrow> dir_entries body s sector (Suc i) acc1 st1)
      else Some (Inr acc, st))"
  by pat_completeness auto
termination by (relation "measure (\<lambda>(body, s, sector, i, acc, st). 16 - i)") auto

declare dir_entries.simps [simp del]

text \<open>\<open>n\<close> is \<^verbatim>\<open>root_dir_sectors\<close>, which no body changes.\<close>

function dir_loop ::
  "'d sector_io \<Rightarrow> (u32 \<Rightarrow> bytes \<Rightarrow> nat \<Rightarrow> 'a \<Rightarrow> 'd fs \<Rightarrow> (('r + 'a) \<times> 'd fs) option) \<Rightarrow> u32 \<Rightarrow> u32 \<Rightarrow> 'a \<Rightarrow> 'd fs \<Rightarrow>
   (('r + 'a) \<times> 'd fs) option" where
  "dir_loop io body n s acc st =
     (if s < n then (case read_sec io (root_dir_start_lba (vars st) + s) st of
          None \<Rightarrow> None
        | Some (sector, st1) \<Rightarrow> (case dir_entries body s sector 0 acc st1 of
            None \<Rightarrow> None
          | Some (Inl r, st2) \<Rightarrow> Some (Inl r, st2)
          | Some (Inr acc1, st2) \<Rightarrow> dir_loop io body n (s + 1) acc1 st2))
      else Some (Inr acc, st))"
  by pat_completeness auto
termination
  by (relation "measure (\<lambda>(io, body, n, s, acc, st). unat n - unat s)") (auto simp: unat_inc word_less_nat_alt)

declare dir_loop.simps [simp del]

definition dir_scan ::
  "'d sector_io \<Rightarrow> (u32 \<Rightarrow> bytes \<Rightarrow> nat \<Rightarrow> 'a \<Rightarrow> 'd fs \<Rightarrow> (('r + 'a) \<times> 'd fs) option) \<Rightarrow> 'a \<Rightarrow> 'd fs \<Rightarrow>
   (('r + 'a) \<times> 'd fs) option" where
  "dir_scan io body acc st = dir_loop io body (root_dir_sectors (vars st)) 0 acc st"

section \<open>fat16_init\<close>

definition fat16_init :: "'d sector_io \<Rightarrow> 'd fs \<Rightarrow> (int \<times> 'd fs) option" where
  "fat16_init io s = do {
     (sector, s1) \<leftarrow> read_sec io 0 s;
     bps \<leftarrow> rd16 sector 11;
     if bps \<noteq> 512 then do {
       s2 \<leftarrow> say (''[FAT16] ERROR: Unsupported sector size %u'' @ [CHR 0x0A]) [Arg_int (ucast bps)] s1;
       Some (- 1, s2) }
     else do {
       spc \<leftarrow> aget sector 13;
       reserved \<leftarrow> rd16 sector 14;
       nf \<leftarrow> aget sector 16;
       rec \<leftarrow> rd16 sector 17;
       fsz \<leftarrow> rd16 sector 22;
       let start = (ucast reserved :: u32);
       let root = start + ucast nf * ucast fsz;
       let rsec = (ucast rec * 32 + 511) div 512;
       let g = \<lparr>fat_start_lba = start, root_dir_start_lba = root, data_start_lba = root + rsec,
                root_dir_sectors = rsec, bytes_per_sector = bps, sectors_per_cluster = spc,
                root_entry_count = rec, fat_size_sectors = fsz, num_fats = nf\<rparr>;
       s2 \<leftarrow> say (''> FAT16 initialized. Data starts at LBA %u.'' @ [CHR 0x0A])
              [Arg_int (data_start_lba g)] (s1\<lparr>vars := g\<rparr>);
       Some (0, s2) } }"

section \<open>fat16_list_root\<close>

text \<open>Copying the non-blank characters \<open>j, \<dots>, hi - 1\<close> of an entry's name.\<close>

function name_copy :: "bytes \<Rightarrow> nat \<Rightarrow> nat \<Rightarrow> nat \<Rightarrow> bytes \<Rightarrow> nat \<Rightarrow> (bytes \<times> nat) option" where
  "name_copy sector p j hi name n =
     (if j < hi then (case aget sector (p + j) of
          None \<Rightarrow> None
        | Some c \<Rightarrow>
            if c \<noteq> 32 then (case aput name n c of
                None \<Rightarrow> None | Some name' \<Rightarrow> name_copy sector p (Suc j) hi name' (Suc n))
            else name_copy sector p (Suc j) hi name n)
      else Some (name, n))"
  by pat_completeness auto
termination by (relation "measure (\<lambda>(sector, p, j, hi, name, n). hi - j)") auto

declare name_copy.simps [simp del]

text \<open>
  The local array \<^verbatim>\<open>name\<close> lies at the stack address \<open>name_addr\<close>; its bytes behind the
  terminator are indeterminate and never read.
\<close>

definition list_body ::
  "u32 \<Rightarrow> u32 \<Rightarrow> bytes \<Rightarrow> nat \<Rightarrow> int \<Rightarrow> 'd fs \<Rightarrow> ((int + int) \<times> 'd fs) option" where
  "list_body name_addr s sector p file_count st = do {
     c \<leftarrow> aget sector p;
     attr \<leftarrow> aget sector (p + 11);
     if c = 0 then Some (Inl file_count, st)
     else if c = 0xE5 then Some (Inr file_count, st)
     else if attr AND FAT16_ATTR_VOLUME_ID \<noteq> 0 then Some (Inr file_count, st)
     else if attr AND FAT16_ATTR_LONG_NAME \<noteq> 0 then Some (Inr file_count, st)
     else do {
       (name1, n1) \<leftarrow> name_copy sector p 0 8 (replicate 13 0) 0;
       e \<leftarrow> aget sector (p + 8);
       (name2, n2) \<leftarrow> (if e \<noteq> 32 then do {
                           nm \<leftarrow> aput name1 n1 46;
                           name_copy sector p 8 11 nm (Suc n1) }
                        else Some (name1, n1));
       name \<leftarrow> aput name2 n2 0;
       size \<leftarrow> rd32 sector (p + 28);
       st1 \<leftarrow> say (''  %-13s %u bytes'' @ [CHR 0x0A]) [Arg_ptr name_addr name, Arg_int size] st;
       Some (Inr (file_count + 1), st1) } }"

definition fat16_list_root :: "'d sector_io \<Rightarrow> u32 \<Rightarrow> 'd fs \<Rightarrow> 'd fs option" where
  "fat16_list_root io name_addr st = do {
     (r, st1) \<leftarrow> dir_scan io (list_body name_addr) 0 st;
     if (case r of Inl n \<Rightarrow> n | Inr n \<Rightarrow> n) = 0
     then say (''  (empty directory)'' @ [CHR 0x0A]) [] st1
     else Some st1 }"

section \<open>fat16_read_file\<close>

text \<open>The sectors of one cluster, into the caller's buffer.\<close>

function read_cluster ::
  "'d sector_io \<Rightarrow> u32 \<Rightarrow> u32 \<Rightarrow> u32 \<Rightarrow> u8 \<Rightarrow> u8 \<Rightarrow> u32 \<Rightarrow> bytes \<Rightarrow> 'd fs \<Rightarrow> ((u32 \<times> bytes) \<times> 'd fs) option" where
  "read_cluster io lba file_size buf_size spc sec bytes_read buffer st =
     (if sec < spc \<and> bytes_read < file_size then (case read_sec io (lba + ucast sec) st of
          None \<Rightarrow> None
        | Some (tmp, st1) \<Rightarrow>
            let c1 = file_size - bytes_read;
                c2 = (if c1 > 512 then 512 else c1);
                to_copy = (if bytes_read + c2 > buf_size then buf_size - bytes_read else c2)
            in (case memcpy buffer (unat bytes_read) tmp 0 (unat to_copy) of
                  None \<Rightarrow> None
                | Some buffer1 \<Rightarrow>
                    read_cluster io lba file_size buf_size spc (sec + 1) (bytes_read + to_copy) buffer1 st1))
      else Some ((bytes_read, buffer), st))"
  by pat_completeness auto
termination
  by (relation "measure (\<lambda>(io, lba, fs, bs, spc, sec, br, b, st). unat spc - unat sec)")
    (auto simp: unat_inc word_less_nat_alt)

declare read_cluster.simps [simp del]

partial_function (option) read_chain ::
  "'d sector_io \<Rightarrow> u32 \<Rightarrow> u32 \<Rightarrow> u16 \<Rightarrow> u32 \<Rightarrow> bytes \<Rightarrow> 'd fs \<Rightarrow> ((u32 \<times> bytes) \<times> 'd fs) option" where
  "read_chain io file_size buf_size cluster bytes_read buffer st =
     (if 2 \<le> cluster \<and> cluster < 0xFFF8 \<and> bytes_read < file_size then do {
        ((br, buffer1), st1) \<leftarrow> read_cluster io (cluster_to_lba (vars st) cluster) file_size buf_size
            (sectors_per_cluster (vars st)) 0 bytes_read buffer st;
        (next_cluster, st2) \<leftarrow> fat_read_entry io cluster st1;
        read_chain io file_size buf_size next_cluster br buffer1 st2 }
      else Some ((bytes_read, buffer), st))"

definition read_body ::
  "'d sector_io \<Rightarrow> bytes \<Rightarrow> bytes \<Rightarrow> u32 \<Rightarrow> u32 \<Rightarrow> bytes \<Rightarrow> nat \<Rightarrow> unit \<Rightarrow> 'd fs \<Rightarrow> (((int \<times> bytes) + unit) \<times> 'd fs) option" where
  "read_body io name buffer buf_size s sector p u st = do {
     c \<leftarrow> aget sector p;
     if c = 0 then Some (Inl (- 1, buffer), st)
     else if c = 0xE5 then Some (Inr (), st)
     else do {
       m \<leftarrow> fat_name_match name sector p;
       if \<not> m then Some (Inr (), st)
       else do {
         cluster \<leftarrow> rd16 sector (p + 26);
         file_size \<leftarrow> rd32 sector (p + 28);
         ((n, buffer1), st1) \<leftarrow> read_chain io file_size buf_size cluster 0 buffer st;
         Some (Inl (sint n, buffer1), st1) } } }"

definition fat16_read_file ::
  "'d sector_io \<Rightarrow> bytes \<Rightarrow> bytes \<Rightarrow> u32 \<Rightarrow> 'd fs \<Rightarrow> ((int \<times> bytes) \<times> 'd fs) option" where
  "fat16_read_file io name buffer buf_size st = do {
     (r, st1) \<leftarrow> dir_scan io (read_body io name buffer buf_size) () st;
     Some (case r of Inl x \<Rightarrow> x | Inr _ \<Rightarrow> (- 1, buffer), st1) }"

section \<open>fat16_delete_file\<close>

partial_function (option) delete_chain :: "'d sector_io \<Rightarrow> u16 \<Rightarrow> 'd fs \<Rightarrow> 'd fs option" where
  "delete_chain io cluster st =
     (if 2 \<le> cluster \<and> cluster < 0xFFF8 then do {
        (next_cluster, st1) \<leftarrow> fat_read_entry io cluster st;
        st2 \<leftarrow> fat_write_entry io cluster 0 st1;
        delete_chain io next_cluster st2 }
      else Some st)"

definition delete_body ::
  "'d sector_io \<Rightarrow> bytes \<Rightarrow> u32 \<Rightarrow> bytes \<Rightarrow> nat \<Rightarrow> unit \<Rightarrow> 'd fs \<Rightarrow> ((int + unit) \<times> 'd fs) option" where
  "delete_body io name s sector p u st = do {
     c \<leftarrow> aget sector p;
     if c = 0 then Some (Inl (- 1), st)
     else if c = 0xE5 then Some (Inr (), st)
     else do {
       m \<leftarrow> fat_name_match name sector p;
       if \<not> m then Some (Inr (), st)
       else do {
         cluster \<leftarrow> rd16 sector (p + 26);
         st1 \<leftarrow> delete_chain io cluster st;
         sector1 \<leftarrow> aput sector p 0xE5;
         st2 \<leftarrow> write_sec io (root_dir_start_lba (vars st1) + s) sector1 st1;
         Some (Inl 0, st2) } } }"

definition fat16_delete_file :: "'d sector_io \<Rightarrow> bytes \<Rightarrow> 'd fs \<Rightarrow> (int \<times> 'd fs) option" where
  "fat16_delete_file io name st = do {
     (r, st1) \<leftarrow> dir_scan io (delete_body io name) () st;
     Some (case r of Inl n \<Rightarrow> n | Inr _ \<Rightarrow> - 1, st1) }"

section \<open>fat16_write_file\<close>

text \<open>The sectors of one cluster: zero-filled, with the data that reaches them.\<close>

function write_cluster ::
  "'d sector_io \<Rightarrow> u32 \<Rightarrow> bytes \<Rightarrow> u32 \<Rightarrow> u32 \<Rightarrow> u8 \<Rightarrow> u8 \<Rightarrow> 'd fs \<Rightarrow> 'd fs option" where
  "write_cluster io lba data sz offset spc sec st =
     (if sec < spc then
        let data_offset = offset + ucast sec * 512;
            c1 = sz - data_offset;
            to_copy = (if c1 > 512 then 512 else c1)
        in (case memset (replicate 512 0) 0 0 512 of
              None \<Rightarrow> None
            | Some buf0 \<Rightarrow>
              (case (if data_offset < sz then memcpy buf0 0 data (unat data_offset) (unat to_copy) else Some buf0) of
                 None \<Rightarrow> None
               | Some buf \<Rightarrow> (case write_sec io (lba + ucast sec) buf st of
                     None \<Rightarrow> None
                   | Some st1 \<Rightarrow> write_cluster io lba data sz offset spc (sec + 1) st1)))
      else Some st)"
  by pat_completeness auto
termination
  by (relation "measure (\<lambda>(io, lba, data, sz, offset, spc, sec, st). unat spc - unat sec)")
    (auto simp: unat_inc word_less_nat_alt)

text \<open>The allocation loop; \<open>None\<close> inside the option is the early exit on a full disk.\<close>

function write_clusters ::
  "'d sector_io \<Rightarrow> bytes \<Rightarrow> u32 \<Rightarrow> u32 \<Rightarrow> u32 \<Rightarrow> u32 \<Rightarrow> u16 \<Rightarrow> u16 \<Rightarrow> 'd fs \<Rightarrow> (u16 option \<times> 'd fs) option" where
  "write_clusters io data sz cluster_bytes needed c first_cluster prev_cluster st =
     (if c < needed then (case fat_alloc_cluster io st of
          None \<Rightarrow> None
        | Some (cluster, st1) \<Rightarrow>
          if cluster = 0 then Some (None, st1)
          else (case fat_write_entry io cluster 0xFFFF st1 of
              None \<Rightarrow> None
            | Some st2 \<Rightarrow>
              (case (if prev_cluster \<noteq> 0 then fat_write_entry io prev_cluster cluster st2 else Some st2) of
                 None \<Rightarrow> None
               | Some st3 \<Rightarrow>
                 (case write_cluster io (cluster_to_lba (vars st3) cluster) data sz (c * cluster_bytes)
                        (sectors_per_cluster (vars st3)) 0 st3 of
                    None \<Rightarrow> None
                  | Some st4 \<Rightarrow> write_clusters io data sz cluster_bytes needed (c + 1)
                        (if c = 0 then cluster else first_cluster) cluster st4))))
      else Some (Some first_cluster, st))"
  by pat_completeness auto
termination
  by (relation "measure (\<lambda>(io, data, sz, cb, needed, c, f, p, st). unat needed - unat c)")
    (auto simp: unat_inc word_less_nat_alt)

declare write_cluster.simps [simp del] write_clusters.simps [simp del]

definition write_body ::
  "'d sector_io \<Rightarrow> bytes \<Rightarrow> u16 \<Rightarrow> u32 \<Rightarrow> u32 \<Rightarrow> bytes \<Rightarrow> nat \<Rightarrow> unit \<Rightarrow> 'd fs \<Rightarrow> ((int + unit) \<times> 'd fs) option" where
  "write_body io name first_cluster sz s sector p u st = do {
     c \<leftarrow> aget sector p;
     if c = 0 \<or> c = 0xE5 then do {
       e0 \<leftarrow> memset sector p 0 32;
       e1 \<leftarrow> to_fat_name name e0 p;
       e2 \<leftarrow> aput e1 (p + 11) FAT16_ATTR_ARCHIVE;
       e3 \<leftarrow> wr16 e2 (p + 26) first_cluster;
       e4 \<leftarrow> wr32 e3 (p + 28) sz;
       st1 \<leftarrow> write_sec io (root_dir_start_lba (vars st) + s) e4 st;
       Some (Inl 0, st1) }
     else Some (Inr (), st) }"

definition fat16_write_file :: "'d sector_io \<Rightarrow> bytes \<Rightarrow> bytes \<Rightarrow> u32 \<Rightarrow> 'd fs \<Rightarrow> (int \<times> 'd fs) option" where
  "fat16_write_file io name data sz st = do {
     (_, st1) \<leftarrow> fat16_delete_file io name st;
     let cluster_bytes = ucast (sectors_per_cluster (vars st1)) * 512;
     needed0 \<leftarrow> (if cluster_bytes = 0 then None else Some ((sz + cluster_bytes - 1) div cluster_bytes));
     let clusters_needed = (if needed0 = 0 then 1 else needed0);
     (r, st2) \<leftarrow> write_clusters io data sz cluster_bytes clusters_needed 0 0 0 st1;
     (case r of
        None \<Rightarrow> do { st3 \<leftarrow> say (''[FAT16] ERROR: Disk full!'' @ [CHR 0x0A]) [] st2; Some (- 1, st3) }
      | Some first_cluster \<Rightarrow> do {
          (d, st3) \<leftarrow> dir_scan io (write_body io name first_cluster sz) () st2;
          (case d of
             Inl n \<Rightarrow> Some (n, st3)
           | Inr _ \<Rightarrow> do {
               st4 \<leftarrow> say (''[FAT16] ERROR: Root directory full!'' @ [CHR 0x0A]) [] st3;
               Some (- 1, st4) }) }) }"

end
