(* ===== verification/Bh_FatSim.thy ===== *)
theory Bh_FatSim
  imports Bh_Fat16
begin

text \<open>
  The file system on an ideal disk. \<open>ram_io\<close> is the sector store that is just the list of the
  sectors; every driver operation that succeeds on it has the same result on every store that
  meets the contract \<^const>\<open>sector_store\<close>, in particular on the ATA driver. The functional
  properties are therefore proved on \<open>ram_io\<close> and carried over.
\<close>

definition ram_io :: "bytes list sector_io" where
  "ram_io = \<lparr>sec_read = (\<lambda>lba D. if unat lba < length D then Some (D ! unat lba, D) else None),
     sec_write = (\<lambda>lba b D. if unat lba < length D \<and> length b = 512 then Some (D[unat lba := b]) else None)\<rparr>"

interpretation ram: sector_store ram_io "\<lambda>_. True" "\<lambda>D. D"
  by unfold_locales (auto simp: ram_io_def)

text \<open>A state over a store and the state over the ideal disk it stands for.\<close>

definition same_fs :: "('d \<Rightarrow> bool) \<Rightarrow> ('d \<Rightarrow> bytes list) \<Rightarrow> 'd fs \<Rightarrow> bytes list fs \<Rightarrow> bool" where
  "same_fs ready sectors s r \<longleftrightarrow>
     vars s = vars r \<and> scr s = scr r \<and> ready (dev s) \<and> sectors (dev s) = dev r"

definition sim0 :: "('s \<Rightarrow> 'r \<Rightarrow> bool) \<Rightarrow> 's option \<Rightarrow> 'r option \<Rightarrow> bool" where
  "sim0 R x y \<longleftrightarrow> (\<forall>r. y = Some r \<longrightarrow> (\<exists>s. x = Some s \<and> R s r))"

definition sim :: "('s \<Rightarrow> 'r \<Rightarrow> bool) \<Rightarrow> ('x \<times> 's) option \<Rightarrow> ('x \<times> 'r) option \<Rightarrow> bool" where
  "sim R x y \<longleftrightarrow> (\<forall>v r. y = Some (v, r) \<longrightarrow> (\<exists>s. x = Some (v, s) \<and> R s r))"

lemma sim_base [simp]: "sim R x None" "sim0 R x0 None" "sim R (Some (v, s)) (Some (v, r)) \<longleftrightarrow> R s r" "sim0 R (Some s) (Some r) \<longleftrightarrow> R s r"
  by (auto simp: sim_def sim0_def)

lemma sim_bind:
  "sim R x y \<Longrightarrow> (\<And>v s r. R s r \<Longrightarrow> sim R (f (v, s)) (g (v, r))) \<Longrightarrow> sim R (x \<bind> f) (y \<bind> g)"
  by (cases y) (fastforce simp: sim_def)+

lemma sim_bind':
  "sim0 R x y \<Longrightarrow> (\<And>s r. R s r \<Longrightarrow> sim R (f s) (g r)) \<Longrightarrow> sim R (x \<bind> f) (y \<bind> g)"
  by (cases y) (fastforce simp: sim_def sim0_def)+

lemma sim0_bind:
  "sim R x y \<Longrightarrow> (\<And>v s r. R s r \<Longrightarrow> sim0 R (f (v, s)) (g (v, r))) \<Longrightarrow> sim0 R (x \<bind> f) (y \<bind> g)"
  by (cases y) (fastforce simp: sim_def sim0_def)+

lemma sim0_bind':
  "sim0 R x y \<Longrightarrow> (\<And>s r. R s r \<Longrightarrow> sim0 R (f s) (g r)) \<Longrightarrow> sim0 R (x \<bind> f) (y \<bind> g)"
  by (cases y) (fastforce simp: sim0_def)+

lemma sim_pure:
  "(\<And>v. sim R (f v) (g v)) \<Longrightarrow> sim R (x \<bind> f) (x \<bind> g)"
  "(\<And>v. sim0 R (f' v) (g' v)) \<Longrightarrow> sim0 R (x \<bind> f') (x \<bind> g')"
  by (cases x; simp)+

lemma sim_if:
  "(c \<Longrightarrow> sim R a b) \<Longrightarrow> (\<not> c \<Longrightarrow> sim R a' b') \<Longrightarrow> sim R (if c then a else a') (if c then b else b')"
  "(c \<Longrightarrow> sim0 R e f) \<Longrightarrow> (\<not> c \<Longrightarrow> sim0 R e' f') \<Longrightarrow> sim0 R (if c then e else e') (if c then f else f')"
  by simp_all

lemma simE: "sim R x y \<Longrightarrow> y = Some (v, r) \<Longrightarrow> (\<And>s. x = Some (v, s) \<Longrightarrow> R s r \<Longrightarrow> thesis) \<Longrightarrow> thesis"
  by (auto simp: sim_def)

lemma sim0E: "sim0 R x y \<Longrightarrow> y = Some r \<Longrightarrow> (\<And>s. x = Some s \<Longrightarrow> R s r \<Longrightarrow> thesis) \<Longrightarrow> thesis"
  by (auto simp: sim0_def)

lemma case_bind: "(case x of None \<Rightarrow> None | Some y \<Rightarrow> f y) = x \<bind> f"
  by (cases x) simp_all

section \<open>Every operation, on any store\<close>

context sector_store
begin

abbreviation R where "R \<equiv> same_fs ready sectors"

lemma read_sec_sim: "R s r \<Longrightarrow> sim R (read_sec io lba s) (read_sec ram_io lba r)"
  using sec_read_law [of "dev s" lba] by (auto simp: sim_def same_fs_def read_sec_def ram_io_def)

lemma write_sec_sim: "R s r \<Longrightarrow> sim0 R (write_sec io lba b s) (write_sec ram_io lba b r)"
  using sec_write_law [of "dev s" lba b] by (auto simp: sim0_def same_fs_def write_sec_def ram_io_def)

lemma say_sim: "R s r \<Longrightarrow> sim0 R (say fmt args s) (say fmt args r)"
  by (auto simp: sim0_def same_fs_def say_def split: Option.bind_splits)

lemma vars_eq: "R s r \<Longrightarrow> vars s = vars r"
  by (simp add: same_fs_def)

text \<open>Binding, with the equality of the static variables at hand in the continuation.\<close>

lemma fs_bind:
  "sim R x y \<Longrightarrow> (\<And>v s r. R s r \<Longrightarrow> vars s = vars r \<Longrightarrow> sim R (f (v, s)) (g (v, r))) \<Longrightarrow> sim R (x \<bind> f) (y \<bind> g)"
  "sim0 R x' y' \<Longrightarrow> (\<And>s r. R s r \<Longrightarrow> vars s = vars r \<Longrightarrow> sim R (f' s) (g' r)) \<Longrightarrow> sim R (x' \<bind> f') (y' \<bind> g')"
  using vars_eq by (blast intro: sim_bind sim_bind')+

lemma fs_bind0:
  "sim R x y \<Longrightarrow> (\<And>v s r. R s r \<Longrightarrow> vars s = vars r \<Longrightarrow> sim0 R (f (v, s)) (g (v, r))) \<Longrightarrow> sim0 R (x \<bind> f) (y \<bind> g)"
  "sim0 R x' y' \<Longrightarrow> (\<And>s r. R s r \<Longrightarrow> vars s = vars r \<Longrightarrow> sim0 R (f' s) (g' r)) \<Longrightarrow> sim0 R (x' \<bind> f') (y' \<bind> g')"
  using vars_eq by (blast intro: sim0_bind sim0_bind')+

lemmas fs_sim = fs_bind fs_bind0 sim_pure sim_if read_sec_sim write_sec_sim say_sim

lemma fat_read_entry_sim: "R s r \<Longrightarrow> sim R (fat_read_entry io c s) (fat_read_entry ram_io c r)"
  unfolding fat_read_entry_def Let_def
  by (frule vars_eq) (assumption | rule fs_sim | simp)+

lemma fat_write_loop_sim:
  "R s r \<Longrightarrow> sim0 R (fat_write_loop io n f so eo v s) (fat_write_loop ram_io n f so eo v r)"
proof (induction n arbitrary: f s r)
  case (Suc n)
  show ?case
    by (insert Suc.prems, frule vars_eq, simp only: fat_write_loop.simps Let_def)
      (assumption | rule Suc.IH | rule fs_sim | simp only: prod.case)+
qed simp

lemma fat_write_entry_sim: "R s r \<Longrightarrow> sim0 R (fat_write_entry io c v s) (fat_write_entry ram_io c v r)"
  unfolding fat_write_entry_def Let_def by (simp add: vars_eq fat_write_loop_sim)

lemma fs_cases:
  "(\<And>a. z = Inl a \<Longrightarrow> sim R (f1 a) (g1 a)) \<Longrightarrow> (\<And>b. z = Inr b \<Longrightarrow> sim R (f2 b) (g2 b)) \<Longrightarrow>
   sim R (case z of Inl a \<Rightarrow> f1 a | Inr b \<Rightarrow> f2 b) (case z of Inl a \<Rightarrow> g1 a | Inr b \<Rightarrow> g2 b)"
  "(y = None \<Longrightarrow> sim R f3 g3) \<Longrightarrow> (\<And>b. y = Some b \<Longrightarrow> sim R (f4 b) (g4 b)) \<Longrightarrow>
   sim R (case y of None \<Rightarrow> f3 | Some b \<Rightarrow> f4 b) (case y of None \<Rightarrow> g3 | Some b \<Rightarrow> g4 b)"
  by (cases z; simp) (cases y; simp)

lemma fat_alloc_loop_sim: "R s r \<Longrightarrow> sim R (fat_alloc_loop io c s) (fat_alloc_loop ram_io c r)"
proof (induction "2048 - c" arbitrary: c s r rule: less_induct)
  case less
  note IH = less.hyps
  show ?case
  proof (cases "c < 2048")
    case True
    then have "2048 - Suc c < 2048 - c" by simp
    note IH = less.hyps [OF this]
    show ?thesis
      by (insert less.prems True, subst (1 2) fat_alloc_loop.simps, simp only: case_bind if_True)
        (assumption | rule IH | rule fs_sim fat_read_entry_sim | simp only: prod.case sim_base)+
  next
    case False
    with less.prems show ?thesis by (subst (1 2) fat_alloc_loop.simps) simp
  qed
qed

lemma fat_alloc_cluster_sim: "R s r \<Longrightarrow> sim R (fat_alloc_cluster io s) (fat_alloc_cluster ram_io r)"
  unfolding fat_alloc_cluster_def by (rule fat_alloc_loop_sim)

lemma dir_entries_sim:
  assumes "\<And>p acc s r. R s r \<Longrightarrow> sim R (body sn sector p acc s) (body' sn sector p acc r)"
  shows "R s r \<Longrightarrow> sim R (dir_entries body sn sector i acc s) (dir_entries body' sn sector i acc r)"
proof (induction "16 - i" arbitrary: i acc s r rule: less_induct)
  case less
  show ?case
  proof (cases "i < 16")
    case True
    then have "16 - Suc i < 16 - i" by simp
    note IH = less.hyps [OF this]
    show ?thesis
      by (insert less.prems True, subst (1 2) dir_entries.simps, simp only: case_bind if_True)
        (assumption | rule IH | rule fs_sim fs_cases assms | simp only: prod.case sim_base)+
  next
    case False
    with less.prems show ?thesis by (subst (1 2) dir_entries.simps) simp
  qed
qed

lemma dir_loop_sim:
  assumes "\<And>sn sector p acc s r. R s r \<Longrightarrow> sim R (body sn sector p acc s) (body' sn sector p acc r)"
  shows "R s r \<Longrightarrow> sim R (dir_loop io body n sn acc s) (dir_loop ram_io body' n sn acc r)"
proof (induction "unat n - unat sn" arbitrary: sn acc s r rule: less_induct)
  case less
  show ?case
  proof (cases "sn < n")
    case True
    then have "unat n - unat (sn + 1) < unat n - unat sn" by (simp add: unat_inc word_less_nat_alt)
    note IH = less.hyps [OF this]
    show ?thesis
      by (insert less.prems True, frule vars_eq, subst (1 2) dir_loop.simps, simp only: case_bind if_True)
        (assumption | rule IH | rule fs_sim fs_cases dir_entries_sim assms | simp only: prod.case sim_base)+
  next
    case False
    with less.prems show ?thesis by (subst (1 2) dir_loop.simps) simp
  qed
qed

lemma dir_scan_sim:
  assumes "\<And>sn sector p acc s r. R s r \<Longrightarrow> sim R (body sn sector p acc s) (body' sn sector p acc r)"
  shows "R s r \<Longrightarrow> sim R (dir_scan io body acc s) (dir_scan ram_io body' acc r)"
  unfolding dir_scan_def using dir_loop_sim [of body body', OF assms] by (simp add: vars_eq)

lemma read_cluster_sim:
  "R s r \<Longrightarrow> sim R (read_cluster io lba fsz bsz spc sec br buf s) (read_cluster ram_io lba fsz bsz spc sec br buf r)"
proof (induction "unat spc - unat sec" arbitrary: sec br buf s r rule: less_induct)
  case less
  show ?case
  proof (cases "sec < spc \<and> br < fsz")
    case True
    then have "unat spc - unat (sec + 1) < unat spc - unat sec" by (auto simp: unat_inc word_less_nat_alt)
    note IH = less.hyps [OF this]
    show ?thesis
      by (insert less.prems True, subst (1 2) read_cluster.simps, simp only: case_bind Let_def simp_thms if_True)
        (assumption | rule IH | rule fs_sim | simp only: prod.case)+
  next
    case False
    with less.prems show ?thesis by (subst (1 2) read_cluster.simps) (simp only: if_False sim_base)
  qed
qed

lemma write_cluster_sim:
  "R s r \<Longrightarrow> sim0 R (write_cluster io lba data sz off spc sec s) (write_cluster ram_io lba data sz off spc sec r)"
proof (induction "unat spc - unat sec" arbitrary: sec s r rule: less_induct)
  case less
  show ?case
  proof (cases "sec < spc")
    case True
    then have "unat spc - unat (sec + 1) < unat spc - unat sec" by (auto simp: unat_inc word_less_nat_alt)
    note IH = less.hyps [OF this]
    show ?thesis
      by (insert less.prems True, subst (1 2) write_cluster.simps, simp only: case_bind Let_def if_True)
        (assumption | rule IH | rule fs_sim | simp only: prod.case)+
  next
    case False
    with less.prems show ?thesis by (subst (1 2) write_cluster.simps) simp
  qed
qed

lemma write_clusters_sim:
  "R s r \<Longrightarrow> sim R (write_clusters io data sz cb nd c f p s) (write_clusters ram_io data sz cb nd c f p r)"
proof (induction "unat nd - unat c" arbitrary: c f p s r rule: less_induct)
  case less
  show ?case
  proof (cases "c < nd")
    case True
    then have "unat nd - unat (c + 1) < unat nd - unat c" by (auto simp: unat_inc word_less_nat_alt)
    note IH = less.hyps [OF this]
    have opt: "sim0 R (if b then fat_write_entry io x y s else Some s) (if b then fat_write_entry ram_io x y r else Some r)"
      if "R s r" for b x y s r using that by (simp add: fat_write_entry_sim)
    show ?thesis
      by (insert less.prems True, subst (1 2) write_clusters.simps, simp only: case_bind if_True)
        (assumption | rule IH opt | rule fs_sim fat_alloc_cluster_sim fat_write_entry_sim write_cluster_sim
          | simp only: prod.case sim_base)+
  next
    case False
    with less.prems show ?thesis by (subst (1 2) write_clusters.simps) simp
  qed
qed

text \<open>The two chain walks: what they give on the ideal disk they give on the store.\<close>

lemma read_chain_sim: "R s r \<Longrightarrow> sim R (read_chain io fsz bsz cl br buf s) (read_chain ram_io fsz bsz cl br buf r)"
proof -
  have "\<forall>s. R s r \<longrightarrow> (\<exists>s'. read_chain io fsz bsz cl br buf s = Some (v, s') \<and> R s' r')"
    if "read_chain ram_io fsz bsz cl br buf r = Some (v, r')" for v r'
  proof -
    let ?P = "\<lambda>io' fsz bsz cl br buf r y. io' = ram_io \<longrightarrow>
        (\<forall>s. R s r \<longrightarrow> (\<exists>s'. read_chain io fsz bsz cl br buf s = Some (fst y, s') \<and> R s' (snd y)))"
    have "?P ram_io fsz bsz cl br buf r (v, r')"
      using _ that
    proof (rule read_chain.raw_induct [where P = ?P])
      fix f and io' :: "bytes list sector_io" and fsz bsz cl br buf r y
      assume IH: "\<And>io' fsz bsz cl br buf r y. f io' fsz bsz cl br buf r = Some y \<Longrightarrow> ?P io' fsz bsz cl br buf r y"
        and eq: "(if 2 \<le> cl \<and> cl < 0xFFF8 \<and> br < fsz then do {
            ((br', buffer1), st1) \<leftarrow> read_cluster io' (cluster_to_lba (vars r) cl) fsz bsz
                (sectors_per_cluster (vars r)) 0 br buf r;
            (next_cluster, st2) \<leftarrow> fat_read_entry io' cl st1;
            f io' fsz bsz next_cluster br' buffer1 st2 }
          else Some ((br, buf), r)) = Some y"
      have IH': "\<exists>s'. read_chain io fsz bsz cl br buf s = Some (fst y, s') \<and> R s' (snd y)"
        if "f ram_io fsz bsz cl br buf r = Some y" "R s r" for fsz bsz cl br buf r y s
        using IH [OF that(1)] that(2) by simp
      have "\<exists>s'. read_chain io fsz bsz cl br buf s = Some (fst y, s') \<and> R s' (snd y)"
        if io': "io' = ram_io" and s: "R s r" for s
      proof (cases "2 \<le> cl \<and> cl < 0xFFF8 \<and> br < fsz")
        case True
        from eq obtain br' b1 r1 nc r2 where
          rc: "read_cluster ram_io (cluster_to_lba (vars r) cl) fsz bsz (sectors_per_cluster (vars r)) 0 br buf r
             = Some ((br', b1), r1)"
          and fe: "fat_read_entry ram_io cl r1 = Some (nc, r2)" and rest: "f ram_io fsz bsz nc br' b1 r2 = Some y"
          using True unfolding io' by (auto split: Option.bind_splits)
        from simE [OF read_cluster_sim [OF s] rc] obtain s1 where
          s1: "read_cluster io (cluster_to_lba (vars r) cl) fsz bsz (sectors_per_cluster (vars r)) 0 br buf s
             = Some ((br', b1), s1)" "R s1 r1" by blast
        from simE [OF fat_read_entry_sim [OF s1(2)] fe] obtain s2 where
          s2: "fat_read_entry io cl s1 = Some (nc, s2)" "R s2 r2" by blast
        show ?thesis
          using IH' [OF rest s2(2)] s1(1) s2(1) True vars_eq [OF s] by (subst read_chain.simps) simp
      next
        case False
        with eq s show ?thesis by (subst read_chain.simps) auto
      qed
      then show "?P io' fsz bsz cl br buf r y" by simp
    qed
    then show ?thesis by simp
  qed
  then show "R s r \<Longrightarrow> ?thesis" by (auto simp: sim_def)
qed

lemma delete_chain_sim: "R s r \<Longrightarrow> sim0 R (delete_chain io cl s) (delete_chain ram_io cl r)"
proof -
  have "\<forall>s. R s r \<longrightarrow> (\<exists>s'. delete_chain io cl s = Some s' \<and> R s' r')"
    if "delete_chain ram_io cl r = Some r'" for r'
  proof -
    let ?P = "\<lambda>io' cl r y. io' = ram_io \<longrightarrow> (\<forall>s. R s r \<longrightarrow> (\<exists>s'. delete_chain io cl s = Some s' \<and> R s' y))"
    have "?P ram_io cl r r'"
      using _ that
    proof (rule delete_chain.raw_induct [where P = ?P])
      fix f and io' :: "bytes list sector_io" and cl r y
      assume IH: "\<And>io' cl r y. f io' cl r = Some y \<Longrightarrow> ?P io' cl r y"
        and eq: "(if 2 \<le> cl \<and> cl < 0xFFF8 then do {
            (next_cluster, st1) \<leftarrow> fat_read_entry io' cl r;
            st2 \<leftarrow> fat_write_entry io' cl 0 st1;
            f io' next_cluster st2 } else Some r) = Some y"
      have "\<exists>s'. delete_chain io cl s = Some s' \<and> R s' y" if io': "io' = ram_io" and s: "R s r" for s
      proof (cases "2 \<le> cl \<and> cl < 0xFFF8")
        case True
        from eq obtain nc r1 r2 where fe: "fat_read_entry ram_io cl r = Some (nc, r1)"
          and fw: "fat_write_entry ram_io cl 0 r1 = Some r2" and rest: "f ram_io nc r2 = Some y"
          using True unfolding io' by (auto split: Option.bind_splits)
        from simE [OF fat_read_entry_sim [OF s] fe] obtain s1 where
          s1: "fat_read_entry io cl s = Some (nc, s1)" "R s1 r1" by blast
        from sim0E [OF fat_write_entry_sim [OF s1(2)] fw] obtain s2 where
          s2: "fat_write_entry io cl 0 s1 = Some s2" "R s2 r2" by blast
        show ?thesis
          using IH [OF rest] s2(2) s1(1) s2(1) True by (subst delete_chain.simps) simp
      next
        case False
        with eq s show ?thesis by (subst delete_chain.simps) auto
      qed
      then show "?P io' cl r y" by simp
    qed
    then show ?thesis by simp
  qed
  then show "R s r \<Longrightarrow> ?thesis" by (auto simp: sim0_def)
qed

text \<open>The public operations.\<close>

lemma read_file_sim:
  "R s r \<Longrightarrow> sim R (fat16_read_file io name buf bsz s) (fat16_read_file ram_io name buf bsz r)"
proof -
  have body: "sim R (read_body io name buf bsz sn sector p u s) (read_body ram_io name buf bsz sn sector p u r)"
    if "R s r" for sn sector p u s r
    by (insert that, unfold read_body_def)
      (assumption | rule fs_sim read_chain_sim | simp only: prod.case sim_base case_prod_beta fst_conv snd_conv)+
  show "R s r \<Longrightarrow> ?thesis"
    unfolding fat16_read_file_def
    by (assumption | rule fs_sim dir_scan_sim body | simp only: prod.case sim_base)+
qed

lemma delete_file_sim: "R s r \<Longrightarrow> sim R (fat16_delete_file io name s) (fat16_delete_file ram_io name r)"
proof -
  have body: "sim R (delete_body io name sn sector p u s) (delete_body ram_io name sn sector p u r)"
    if "R s r" for sn sector p u s r
    by (insert that, unfold delete_body_def)
      (assumption | rule fs_sim delete_chain_sim | simp only: prod.case sim_base)+
  show "R s r \<Longrightarrow> ?thesis"
    unfolding fat16_delete_file_def
    by (assumption | rule fs_sim dir_scan_sim body | simp only: prod.case sim_base)+
qed

lemma write_file_sim:
  "R s r \<Longrightarrow> sim R (fat16_write_file io name data sz s) (fat16_write_file ram_io name data sz r)"
proof -
  have body: "sim R (write_body io name fc sz sn sector p u s) (write_body ram_io name fc sz sn sector p u r)"
    if "R s r" for fc sn sector p u s r
    by (insert that, frule vars_eq, unfold write_body_def)
      (assumption | rule fs_sim | simp only: prod.case sim_base)+
  show "R s r \<Longrightarrow> ?thesis"
    unfolding fat16_write_file_def Let_def
    by (assumption | rule fs_sim fs_cases dir_scan_sim delete_file_sim write_clusters_sim body
        | simp only: prod.case sim_base)+
qed

lemma list_root_sim:
  "R s r \<Longrightarrow> sim0 R (fat16_list_root io na s) (fat16_list_root ram_io na r)"
proof -
  have body: "sim R (list_body na sn sector p n s) (list_body na sn sector p n r)"
    if "R s r" for sn sector p n s r
    by (insert that, unfold list_body_def)
      (assumption | rule fs_sim | simp only: prod.case sim_base case_prod_beta fst_conv snd_conv)+
  show "R s r \<Longrightarrow> ?thesis"
    unfolding fat16_list_root_def
    by (assumption | rule fs_sim dir_scan_sim body | simp only: prod.case sim_base)+
qed

lemma init_sim: "R s r \<Longrightarrow> sim R (fat16_init io s) (fat16_init ram_io r)"
proof -
  have upd: "R s r \<Longrightarrow> R (s\<lparr>vars := g\<rparr>) (r\<lparr>vars := g\<rparr>)" for g s r by (simp add: same_fs_def)
  show "R s r \<Longrightarrow> ?thesis"
    unfolding fat16_init_def Let_def
    by (assumption | rule upd fs_sim | simp only: prod.case sim_base)+
qed

end

end
