(* ===== verification/Bh_FatTable.thy ===== *)
theory Bh_FatTable
  imports Bh_FatSim
begin

text \<open>
  The file allocation table on the ideal disk: what reading, writing and allocating an entry do,
  as functions on the list of the sectors. \<open>fat_entry\<close> is the table the FAT copies encode;
  \<open>fat_set\<close> updates it in every copy.
\<close>

section \<open>Words in buffers\<close>

definition get16 :: "bytes \<Rightarrow> nat \<Rightarrow> u16" where
  "get16 b p = word_of_bytes (b ! p) (b ! (p + 1))"

definition put16 :: "bytes \<Rightarrow> nat \<Rightarrow> u16 \<Rightarrow> bytes" where
  "put16 b p v = b[p := ucast v, p + 1 := ucast (drop_bit 8 v)]"

lemma word_of_bytes_split [simp]: "word_of_bytes (ucast v) (ucast (drop_bit 8 v)) = v"
  unfolding word_of_bytes_def by (rule bit_word_eqI) (auto simp: bit_simps)

lemma rd16_in: "p + 1 < length b \<Longrightarrow> rd16 b p = Some (get16 b p)"
  by (simp add: rd16_def get16_def)

lemma wr16_in: "p + 1 < length b \<Longrightarrow> wr16 b p v = Some (put16 b p v)"
  by (simp add: wr16_def put16_def)

lemma length_put16 [simp]: "length (put16 b p v) = length b"
  by (simp add: put16_def)

lemma get16_put16: "p + 1 < length b \<Longrightarrow> get16 (put16 b p v) p = v"
  by (simp add: get16_def put16_def)

lemma get16_put16_other: "q + 1 < p \<or> p + 1 < q \<Longrightarrow> get16 (put16 b p v) q = get16 b q"
  by (auto simp: get16_def put16_def)

lemma nth_put16_other: "i \<noteq> p \<Longrightarrow> i \<noteq> p + 1 \<Longrightarrow> put16 b p v ! i = b ! i"
  by (simp add: put16_def)

section \<open>The layout of the volume\<close>

definition disk_ok :: "bytes list \<Rightarrow> bool" where
  "disk_ok D \<longleftrightarrow> (\<forall>s \<in> set D. length s = 512) \<and> length D \<le> 2 ^ 28"

text \<open>The sector that holds the entry of cluster \<open>c\<close> in FAT copy \<open>k\<close>, and the place in it.\<close>

definition fsec :: "fat_vars \<Rightarrow> nat \<Rightarrow> u16 \<Rightarrow> nat" where
  "fsec g k c = unat (fat_start_lba g) + k * unat (fat_size_sectors g) + unat c div 256"

definition foff :: "u16 \<Rightarrow> nat" where
  "foff c = 2 * (unat c mod 256)"

definition fat_entry :: "fat_vars \<Rightarrow> bytes list \<Rightarrow> nat \<Rightarrow> u16 \<Rightarrow> u16" where
  "fat_entry g D k c = get16 (D ! fsec g k c) (foff c)"

text \<open>Copies of the table that cover the scanned clusters, the root directory, the data.\<close>

definition layout_ok :: "fat_vars \<Rightarrow> bytes list \<Rightarrow> bool" where
  "layout_ok g D \<longleftrightarrow> disk_ok D
     \<and> 1 \<le> unat (num_fats g) \<and> 8 \<le> unat (fat_size_sectors g) \<and> 1 \<le> unat (sectors_per_cluster g)
     \<and> unat (root_dir_start_lba g) = unat (fat_start_lba g) + unat (num_fats g) * unat (fat_size_sectors g)
     \<and> unat (data_start_lba g) = unat (root_dir_start_lba g) + unat (root_dir_sectors g)
     \<and> unat (data_start_lba g) \<le> length D"

definition in_fat :: "fat_vars \<Rightarrow> u16 \<Rightarrow> bool" where
  "in_fat g c \<longleftrightarrow> unat c div 256 < unat (fat_size_sectors g)"

definition fat_set1 :: "fat_vars \<Rightarrow> nat \<Rightarrow> u16 \<Rightarrow> u16 \<Rightarrow> bytes list \<Rightarrow> bytes list" where
  "fat_set1 g k c v D = D[fsec g k c := put16 (D ! fsec g k c) (foff c) v]"

definition fat_set :: "fat_vars \<Rightarrow> u16 \<Rightarrow> u16 \<Rightarrow> bytes list \<Rightarrow> bytes list" where
  "fat_set g c v D = fold (\<lambda>k. fat_set1 g k c v) [0..<unat (num_fats g)] D"

lemma disk_ok_sector: "disk_ok D \<Longrightarrow> i < length D \<Longrightarrow> length (D ! i) = 512"
  by (simp add: disk_ok_def)

lemma disk_ok_update: "disk_ok D \<Longrightarrow> length b = 512 \<Longrightarrow> disk_ok (D[i := b])"
  using set_update_subset_insert [of D i b] by (auto simp: disk_ok_def)

lemma layout_ok_cong: "layout_ok g D \<Longrightarrow> disk_ok D' \<Longrightarrow> length D' = length D \<Longrightarrow> layout_ok g D'"
  by (simp add: layout_ok_def)

lemma copy_bound: "k < n \<Longrightarrow> x < f \<Longrightarrow> k * f + x < n * (f :: nat)"
proof -
  assume "k < n" "x < f"
  then have "k * f + x < Suc k * f" by simp
  also have "\<dots> \<le> n * f" using \<open>k < n\<close> by (intro mult_le_mono1) simp
  finally show ?thesis .
qed

lemma fsec_bound:
  assumes "layout_ok g D" "in_fat g c" "k < unat (num_fats g)"
  shows "unat (fat_start_lba g) \<le> fsec g k c" "fsec g k c < unat (root_dir_start_lba g)" "fsec g k c < length D"
proof -
  show "unat (fat_start_lba g) \<le> fsec g k c" by (simp add: fsec_def)
  have "k * unat (fat_size_sectors g) + unat c div 256 < unat (num_fats g) * unat (fat_size_sectors g)"
    using assms(2,3) by (intro copy_bound) (simp_all add: in_fat_def)
  then show "fsec g k c < unat (root_dir_start_lba g)" "fsec g k c < length D"
    using assms(1) by (simp_all add: layout_ok_def fsec_def)
qed

lemma fsec_inj:
  assumes "in_fat g c" "in_fat g c'" "fsec g k c = fsec g k' c'"
  shows "k = k' \<and> unat c div 256 = unat c' div 256"
proof -
  let ?f = "unat (fat_size_sectors g)"
  have e: "k * ?f + unat c div 256 = k' * ?f + unat c' div 256" using assms(3) by (simp add: fsec_def)
  have lt: "unat c div 256 < ?f" "unat c' div 256 < ?f" using assms(1,2) by (simp_all add: in_fat_def)
  have "(k * ?f + unat c div 256) div ?f = k" "(k' * ?f + unat c' div 256) div ?f = k'"
    using lt by simp_all
  with e show ?thesis by simp
qed

lemma foff_bound: "foff c + 1 < 512"
proof -
  have "unat c mod 256 < 256" by simp
  then show ?thesis unfolding foff_def by linarith
qed

section \<open>Reading and writing an entry\<close>

lemma entry_address:
  "(ucast (c :: u16) * 2 :: u32) div 512 = of_nat (unat c div 256)" "unat ((ucast c * 2 :: u32) mod 512) = foff c"
proof -
  have c: "unat c < 65536" using unsigned_less [of c] by simp
  then have "unat (ucast c :: u32) = unat c" by (simp add: unsigned_ucast_eq take_bit_nat_eq_self)
  with c have u: "unat (ucast c * 2 :: u32) = 2 * unat c" by (simp add: unat_word_ariths)
  have "unat ((ucast c * 2 :: u32) div 512) = unat c div 256" by (simp add: unat_div u)
  then show "(ucast (c :: u16) * 2 :: u32) div 512 = of_nat (unat c div 256)"
    by (metis of_nat_unat ucast_id)
  show "unat ((ucast c * 2 :: u32) mod 512) = foff c"
    by (simp add: unat_mod u foff_def mod_mult_mult1 [of 2 _ 256, simplified])
qed

lemma ram_read: "unat lba < length (dev s) \<Longrightarrow> read_sec ram_io lba s = Some (dev s ! unat lba, s)"
  by (simp add: read_sec_def ram_io_def)

lemma ram_write: "unat lba < length (dev s) \<Longrightarrow> length b = 512 \<Longrightarrow> write_sec ram_io lba b s = Some (s\<lparr>dev := (dev s)[unat lba := b]\<rparr>)"
  by (simp add: write_sec_def ram_io_def)

lemma fsec_word:
  assumes "layout_ok g D" "in_fat g c" "k < unat (num_fats g)"
  shows "unat (fat_start_lba g + of_nat k * ucast (fat_size_sectors g) + of_nat (unat c div 256)) = fsec g k c"
proof -
  have "fsec g k c < 2 ^ 32" using fsec_bound(3) [OF assms] assms(1) by (simp add: layout_ok_def disk_ok_def)
  moreover have "fat_start_lba g + of_nat k * ucast (fat_size_sectors g) + of_nat (unat c div 256) = of_nat (fsec g k c)"
    by (simp add: fsec_def)
  ultimately show ?thesis by (simp only: unat_of_nat32)
qed

lemma read_entry:
  assumes "layout_ok (vars s) (dev s)" "in_fat (vars s) c"
  shows "fat_read_entry ram_io c s = Some (fat_entry (vars s) (dev s) 0 c, s)"
proof -
  have k: "0 < unat (num_fats (vars s))" using assms(1) by (simp add: layout_ok_def)
  note f = fsec_bound(3) [OF assms k] fsec_word [OF assms k]
  have "length (dev s ! fsec (vars s) 0 c) = 512"
    using assms(1) f(1) by (intro disk_ok_sector) (simp_all add: layout_ok_def)
  with f foff_bound [of c] show ?thesis
    by (simp add: fat_read_entry_def Let_def entry_address ram_read rd16_in fat_entry_def)
qed

lemma fat_set1_ok:
  assumes "layout_ok g D" "in_fat g c" "k < unat (num_fats g)"
  shows "layout_ok g (fat_set1 g k c v D)" "length (fat_set1 g k c v D) = length D"
proof -
  have "length (D ! fsec g k c) = 512"
    using assms(1) fsec_bound(3) [OF assms] by (intro disk_ok_sector) (simp_all add: layout_ok_def)
  then have "disk_ok (fat_set1 g k c v D)"
    using assms(1) unfolding fat_set1_def by (intro disk_ok_update) (simp_all add: layout_ok_def)
  then show "layout_ok g (fat_set1 g k c v D)"
    by (rule layout_ok_cong [OF assms(1)]) (simp add: fat_set1_def)
qed (simp add: fat_set1_def)

lemma write_loop_ram:
  "layout_ok (vars s) (dev s) \<Longrightarrow> in_fat (vars s) c \<Longrightarrow> f + n = unat (num_fats (vars s)) \<Longrightarrow>
   fat_write_loop ram_io n f (of_nat (unat c div 256)) (foff c) v s
     = Some (s\<lparr>dev := fold (\<lambda>k. fat_set1 (vars s) k c v) [f..<f + n] (dev s)\<rparr>)"
proof (induction n arbitrary: f s)
  case (Suc n)
  let ?g = "vars s" and ?i = "fsec (vars s) f c"
  have k: "f < unat (num_fats ?g)" using Suc.prems(3) by simp
  note b = fsec_bound(3) [OF Suc.prems(1,2) k] fsec_word [OF Suc.prems(1,2) k]
  have len: "length (dev s ! ?i) = 512"
    using Suc.prems(1) b(1) by (intro disk_ok_sector) (simp_all add: layout_ok_def)
  let ?s = "s\<lparr>dev := fat_set1 ?g f c v (dev s)\<rparr>"
  have "fat_write_loop ram_io (Suc n) f (of_nat (unat c div 256)) (foff c) v s
      = fat_write_loop ram_io n (Suc f) (of_nat (unat c div 256)) (foff c) v ?s"
    using b len foff_bound [of c] by (simp add: Let_def ram_read ram_write wr16_in fat_set1_def)
  also have "\<dots> = Some (?s\<lparr>dev := fold (\<lambda>k. fat_set1 (vars ?s) k c v) [Suc f..<Suc f + n] (dev ?s)\<rparr>)"
    using Suc.prems fat_set1_ok(1) [OF Suc.prems(1,2) k] by (intro Suc.IH) simp_all
  also have "[f..<f + Suc n] = f # [Suc f..<Suc f + n]" by (simp add: upt_conv_Cons del: upt_Suc)
  ultimately show ?case by (simp del: upt_Suc)
qed simp

lemma write_entry:
  assumes "layout_ok (vars s) (dev s)" "in_fat (vars s) c"
  shows "fat_write_entry ram_io c v s = Some (s\<lparr>dev := fat_set (vars s) c v (dev s)\<rparr>)"
  using write_loop_ram [OF assms, of 0 "unat (num_fats (vars s))" v]
  by (simp add: fat_write_entry_def Let_def entry_address fat_set_def)
lemma fold_set1_ok:
  "layout_ok g D \<Longrightarrow> in_fat g c \<Longrightarrow> \<forall>k \<in> set ks. k < unat (num_fats g) \<Longrightarrow>
   layout_ok g (fold (\<lambda>k. fat_set1 g k c v) ks D) \<and> length (fold (\<lambda>k. fat_set1 g k c v) ks D) = length D"
  by (induction ks arbitrary: D) (auto simp: fat_set1_ok)

lemma fat_set_ok:
  assumes "layout_ok g D" "in_fat g c"
  shows "layout_ok g (fat_set g c v D)" "length (fat_set g c v D) = length D"
  using fold_set1_ok [OF assms, of "[0..<unat (num_fats g)]"] by (simp_all add: fat_set_def)

lemma fold_set1_nth:
  "layout_ok g D \<Longrightarrow> in_fat g c \<Longrightarrow> \<forall>k \<in> set ks. k < unat (num_fats g) \<Longrightarrow> distinct ks \<Longrightarrow>
   fold (\<lambda>k. fat_set1 g k c v) ks D ! i
     = (if \<exists>k \<in> set ks. i = fsec g k c then put16 (D ! i) (foff c) v else D ! i)"
proof (induction ks arbitrary: D)
  case (Cons k ks)
  let ?D = "fat_set1 g k c v D"
  have k: "k < unat (num_fats g)" using Cons.prems(3) by simp
  have 1: "?D ! i = (if i = fsec g k c then put16 (D ! i) (foff c) v else D ! i)"
    using fsec_bound(3) [OF Cons.prems(1,2) k] by (auto simp: fat_set1_def)
  have 2: "fold (\<lambda>k. fat_set1 g k c v) ks ?D ! i
      = (if \<exists>k \<in> set ks. i = fsec g k c then put16 (?D ! i) (foff c) v else ?D ! i)"
    using Cons.prems fat_set1_ok(1) [OF Cons.prems(1,2) k] by (intro Cons.IH) simp_all
  have 3: "i \<noteq> fsec g k c" if "\<exists>k \<in> set ks. i = fsec g k c"
    using that fsec_inj [OF Cons.prems(2,2)] Cons.prems(4) by fastforce
  show ?case
  proof (cases "\<exists>k \<in> set ks. i = fsec g k c")
    case True
    then show ?thesis using 1 2 3 by simp
  next
    case False
    then show ?thesis using 1 2 by simp
  qed
qed simp

lemma fat_set_nth:
  assumes "layout_ok g D" "in_fat g c"
  shows "fat_set g c v D ! i
     = (if \<exists>k < unat (num_fats g). i = fsec g k c then put16 (D ! i) (foff c) v else D ! i)"
  using fold_set1_nth [OF assms, of "[0..<unat (num_fats g)]" v i] by (auto simp: fat_set_def)

text \<open>The table algebra: an update is seen in every copy and nowhere else.\<close>

lemma fat_entry_set:
  assumes "layout_ok g D" "in_fat g c" "in_fat g c'" "k < unat (num_fats g)"
  shows "fat_entry g (fat_set g c v D) k c' = (if c' = c then v else fat_entry g D k c')"
proof -
  have len: "length (D ! fsec g k c') = 512"
    using assms fsec_bound(3) [OF assms(1,3,4)] by (intro disk_ok_sector) (simp_all add: layout_ok_def)
  have hit: "(\<exists>k' < unat (num_fats g). fsec g k c' = fsec g k' c) \<longleftrightarrow> unat c' div 256 = unat c div 256"
  proof
    assume "unat c' div 256 = unat c div 256"
    then have "fsec g k c' = fsec g k c" by (simp only: fsec_def)
    with assms(4) show "\<exists>k' < unat (num_fats g). fsec g k c' = fsec g k' c" by blast
  qed (use fsec_inj [OF assms(3,2)] in blast)
  have sep: "foff c' + 1 < foff c \<or> foff c + 1 < foff c'" if "unat c' div 256 = unat c div 256" "c' \<noteq> c"
  proof -
    have "unat c' \<noteq> unat c" using that(2) by (simp add: word_unat_eq_iff)
    with that(1) have "unat c' mod 256 \<noteq> unat c mod 256" by (metis div_mod_decomp)
    then show ?thesis by (auto simp: foff_def)
  qed
  show ?thesis
    unfolding fat_entry_def fat_set_nth [OF assms(1,2)] hit
    using len foff_bound [of c] sep by (auto simp: get16_put16 get16_put16_other)
qed

lemma fat_set_outside:
  assumes "layout_ok g D" "in_fat g c" "unat (root_dir_start_lba g) \<le> i \<or> i < unat (fat_start_lba g)"
  shows "fat_set g c v D ! i = D ! i"
  unfolding fat_set_nth [OF assms(1,2)] using fsec_bound(1,2) [OF assms(1,2)] assms(3) by force

text \<open>A table changes only with its sectors.\<close>

lemma fat_entry_cong:
  assumes "layout_ok g D" "in_fat g c" "k < unat (num_fats g)"
    "\<And>i. unat (fat_start_lba g) \<le> i \<Longrightarrow> i < unat (root_dir_start_lba g) \<Longrightarrow> D' ! i = D ! i"
  shows "fat_entry g D' k c = fat_entry g D k c"
  using assms(4) fsec_bound [OF assms(1-3)] by (simp add: fat_entry_def)

section \<open>Allocation\<close>

definition scan_from :: "nat \<Rightarrow> u16 list" where
  "scan_from c = map of_nat [c..<2048]"

definition free_clusters :: "fat_vars \<Rightarrow> bytes list \<Rightarrow> u16 list" where
  "free_clusters g D = filter (\<lambda>c. fat_entry g D 0 c = 0) (scan_from 2)"

definition first_or_0 :: "u16 list \<Rightarrow> u16" where
  "first_or_0 cs = (case cs of [] \<Rightarrow> 0 | c # _ \<Rightarrow> c)"

lemma unat_small16: "n < 2048 \<Longrightarrow> unat (of_nat n :: u16) = n"
  by (simp add: unat_of_nat take_bit_nat_eq_self)

lemma in_fat_small: "layout_ok g D \<Longrightarrow> unat c < 2048 \<Longrightarrow> in_fat g c"
proof -
  assume "layout_ok g D" "unat c < 2048"
  moreover from this(2) have "unat c div 256 < 8" by (simp add: less_mult_imp_div_less)
  ultimately show ?thesis by (simp add: layout_ok_def in_fat_def)
qed

lemma alloc_loop_ram:
  assumes "layout_ok (vars s) (dev s)"
  shows "fat_alloc_loop ram_io c s
     = Some (first_or_0 (filter (\<lambda>c. fat_entry (vars s) (dev s) 0 c = 0) (scan_from c)), s)"
proof (induction "2048 - c" arbitrary: c rule: less_induct)
  case less
  show ?case
  proof (cases "c < 2048")
    case True
    then have "scan_from c = of_nat c # scan_from (Suc c)" by (simp only: scan_from_def upt_conv_Cons list.map)
    moreover have "fat_read_entry ram_io (of_nat c) s = Some (fat_entry (vars s) (dev s) 0 (of_nat c), s)"
      using True by (intro read_entry [OF assms] in_fat_small [OF assms]) (simp add: unat_small16)
    moreover have "2048 - Suc c < 2048 - c" using True by simp
    note less.hyps [OF this]
    ultimately show ?thesis using True by (subst fat_alloc_loop.simps) (simp add: first_or_0_def)
  next
    case False
    then show ?thesis by (subst fat_alloc_loop.simps) (simp add: first_or_0_def scan_from_def)
  qed
qed

lemma alloc_ram:
  "layout_ok (vars s) (dev s) \<Longrightarrow>
   fat_alloc_cluster ram_io s = Some (first_or_0 (free_clusters (vars s) (dev s)), s)"
  by (simp add: fat_alloc_cluster_def alloc_loop_ram free_clusters_def)

lemma scan_mem: "c \<in> set (scan_from 2) \<longleftrightarrow> 2 \<le> unat c \<and> unat c < 2048"
proof
  assume "c \<in> set (scan_from 2)"
  then obtain n where "n \<in> {2..<2048}" "c = of_nat n" unfolding scan_from_def set_map set_upt by blast
  then show "2 \<le> unat c \<and> unat c < 2048" using unat_small16 [of n] by simp
next
  assume "2 \<le> unat c \<and> unat c < 2048"
  then have "unat c \<in> {2..<2048}" "c = of_nat (unat c)" by simp_all
  then show "c \<in> set (scan_from 2)" unfolding scan_from_def set_map set_upt by blast
qed

lemma distinct_scan: "distinct (scan_from 2)"
proof -
  have "inj_on (of_nat :: nat \<Rightarrow> u16) {2..<2048}"
    by (rule inj_onI) (metis atLeastLessThan_iff unat_small16)
  then show ?thesis unfolding scan_from_def distinct_map set_upt by (simp only: distinct_upt simp_thms)
qed

lemma free_clusters_mem:
  "c \<in> set (free_clusters g D) \<longleftrightarrow> 2 \<le> unat c \<and> unat c < 2048 \<and> fat_entry g D 0 c = 0"
  by (auto simp: free_clusters_def scan_mem)

lemma distinct_free: "distinct (free_clusters g D)"
  by (simp add: free_clusters_def distinct_scan)

text \<open>Taking the first free cluster leaves the others free, in order.\<close>

lemma free_clusters_take:
  assumes "layout_ok g D" "free_clusters g D = c # cs" "v \<noteq> 0"
  shows "free_clusters g (fat_set g c v D) = cs"
proof -
  have c: "unat c < 2048" using assms(2) free_clusters_mem [of c g D] by simp
  have k: "0 < unat (num_fats g)" using assms(1) by (simp add: layout_ok_def)
  have "fat_entry g (fat_set g c v D) 0 c' = 0 \<longleftrightarrow> fat_entry g D 0 c' = 0 \<and> c' \<noteq> c"
    if "c' \<in> set (scan_from 2)" for c'
  proof -
    have "unat c' < 2048" using that by (simp add: scan_mem)
    then show ?thesis
      using fat_entry_set [OF assms(1) in_fat_small [OF assms(1) c] in_fat_small [OF assms(1)] k, of c' v] assms(3) by auto
  qed
  then have "free_clusters g (fat_set g c v D) = filter (\<lambda>c'. c' \<noteq> c) (free_clusters g D)"
    unfolding free_clusters_def filter_filter by (intro filter_cong) auto
  also have "\<dots> = cs"
    using distinct_free [of g D] assms(2) by (auto simp: filter_id_conv)
  finally show ?thesis .
qed

lemma free_clusters_other:
  assumes "layout_ok g D" "unat c < 2048" "fat_entry g D 0 c \<noteq> 0" "v \<noteq> 0"
  shows "free_clusters g (fat_set g c v D) = free_clusters g D"
proof -
  have k: "0 < unat (num_fats g)" using assms(1) by (simp add: layout_ok_def)
  show ?thesis
    unfolding free_clusters_def
  proof (rule filter_cong [OF refl])
    fix c' assume "c' \<in> set (scan_from 2)"
    then have "unat c' < 2048" by (simp add: scan_mem)
    then show "(fat_entry g (fat_set g c v D) 0 c' = 0) = (fat_entry g D 0 c' = 0)"
      using fat_entry_set [OF assms(1) in_fat_small [OF assms(1,2)] in_fat_small [OF assms(1)] k, of c' v] assms(3,4) by auto
  qed
qed

lemma free_clusters_cong:
  assumes "layout_ok g D"
    "\<And>i. unat (fat_start_lba g) \<le> i \<Longrightarrow> i < unat (root_dir_start_lba g) \<Longrightarrow> D' ! i = D ! i"
  shows "free_clusters g D' = free_clusters g D"
proof -
  have k: "0 < unat (num_fats g)" using assms(1) by (simp add: layout_ok_def)
  show ?thesis
    unfolding free_clusters_def
  proof (rule filter_cong [OF refl])
    fix c assume "c \<in> set (scan_from 2)"
    then have "unat c < 2048" by (simp add: scan_mem)
    then show "(fat_entry g D' 0 c = 0) = (fat_entry g D 0 c = 0)"
      using fat_entry_cong [OF assms(1) in_fat_small [OF assms(1)] k assms(2)] by simp
  qed
qed

end
