(* ===== verification/Bh_FatFile.thy ===== *)
theory Bh_FatFile
  imports Bh_FatTable
begin

text \<open>
  File contents on the ideal disk: the sectors a cluster gets, the chain a write builds, the
  bytes a read collects.
\<close>

section \<open>Sectors of a file\<close>

text \<open>Sector \<open>i\<close> of the contents \<open>data\<close>, padded with zeros.\<close>

definition file_sector :: "bytes \<Rightarrow> nat \<Rightarrow> bytes" where
  "file_sector data i =
     (let x = take 512 (drop (512 * i) data) in x @ replicate (512 - length x) 0)"

fun store_at :: "nat \<Rightarrow> bytes list \<Rightarrow> bytes list \<Rightarrow> bytes list" where
  "store_at p [] D = D"
| "store_at p (b # bs) D = store_at (Suc p) bs (D[p := b])"

lemma length_file_sector [simp]: "length (file_sector data i) = 512"
  by (simp add: file_sector_def Let_def)

lemma length_store_at [simp]: "length (store_at p bs D) = length D"
  by (induction bs arbitrary: p D) auto

lemma store_at_nth:
  "p + length bs \<le> length D \<Longrightarrow>
   store_at p bs D ! i = (if p \<le> i \<and> i < p + length bs then bs ! (i - p) else D ! i)"
proof (induction bs arbitrary: p D)
  case (Cons b bs)
  then have "store_at (Suc p) bs (D[p := b]) ! i
      = (if Suc p \<le> i \<and> i < Suc p + length bs then bs ! (i - Suc p) else D[p := b] ! i)"
    by (intro Cons.IH) simp
  then show ?case using Cons.prems by (cases "i = p") (auto simp: nth_Cons')
qed auto

lemma store_at_disk_ok: "disk_ok D \<Longrightarrow> \<forall>b \<in> set bs. length b = 512 \<Longrightarrow> disk_ok (store_at p bs D)"
  by (induction bs arbitrary: p D) (auto simp: disk_ok_update)

section \<open>Clusters on the disk\<close>

definition clba :: "fat_vars \<Rightarrow> u16 \<Rightarrow> nat" where
  "clba g c = unat (data_start_lba g) + (unat c - 2) * unat (sectors_per_cluster g)"

definition on_disk :: "fat_vars \<Rightarrow> bytes list \<Rightarrow> u16 \<Rightarrow> bool" where
  "on_disk g D c \<longleftrightarrow> 2 \<le> unat c \<and> clba g c + unat (sectors_per_cluster g) \<le> length D"

definition in_cluster :: "fat_vars \<Rightarrow> u16 \<Rightarrow> nat \<Rightarrow> bool" where
  "in_cluster g c i \<longleftrightarrow> clba g c \<le> i \<and> i < clba g c + unat (sectors_per_cluster g)"

lemma clba_word:
  assumes "disk_ok D" "on_disk g D c" "j \<le> unat (sectors_per_cluster g)"
  shows "unat (cluster_to_lba g c + of_nat j) = clba g c + j"
proof -
  have c: "2 \<le> unat c" using assms(2) by (simp add: on_disk_def)
  have "(ucast c :: u32) = of_nat (unat c)" by simp
  then have "ucast c - 2 = (of_nat (unat c - 2) :: u32)" using c by (simp del: of_nat_unat)
  then have "cluster_to_lba g c + of_nat j = of_nat (clba g c + j)"
    by (simp add: cluster_to_lba_def clba_def)
  moreover have "clba g c + j < 2 ^ 32" using assms by (simp add: on_disk_def disk_ok_def)
  ultimately show ?thesis by (simp only: unat_of_nat32)
qed

lemma clusters_apart:
  assumes "on_disk g D c" "on_disk g D c'" "c \<noteq> c'" "in_cluster g c i"
  shows "\<not> in_cluster g c' i"
proof -
  let ?n = "unat (sectors_per_cluster g)"
  have ne: "unat c - 2 \<noteq> unat c' - 2" using assms(1-3) by (auto simp: on_disk_def word_unat_eq_iff)
  have le: "(a + 1) * ?n \<le> b * ?n" if "a < b" for a b using that by (intro mult_le_mono1) simp
  show ?thesis
    using assms(4) le [of "unat c - 2" "unat c' - 2"] le [of "unat c' - 2" "unat c - 2"] ne
    unfolding in_cluster_def clba_def by (cases "unat c - 2 < unat c' - 2") auto
qed

section \<open>Writing one cluster\<close>

lemma write_sector_bytes:
  fixes off sz :: u32
  assumes "unat off = 512 * i" "unat sz \<le> length data"
  shows "(if off < sz then memcpy (replicate 512 0) 0 data (unat off) (unat (if sz - off > 512 then 512 else sz - off))
     else Some (replicate 512 0)) = Some (file_sector (take (unat sz) data) i)"
proof (cases "off < sz")
  case True
  then have "unat (sz - off) = unat sz - 512 * i" "512 * i < unat sz"
    using assms(1) unat_sub [OF order.strict_implies_order [OF True]] True by (simp_all add: word_less_nat_alt)
  moreover from this have "unat (if sz - off > 512 then 512 else sz - off) = min 512 (unat sz - 512 * i)"
    by (auto simp: word_less_nat_alt)
  ultimately show ?thesis
    using True assms by (simp add: memcpy_ok file_sector_def min_def drop_take) arith
next
  case False
  then show ?thesis using assms by (simp add: file_sector_def word_less_nat_alt)
qed

lemma write_cluster_ram:
  assumes "disk_ok (dev s)" "on_disk g (dev s) c" "unat sz \<le> length data" "spc = sectors_per_cluster g"
    "unat off = 512 * o1" "512 * (o1 + unat spc) < 2 ^ 32" "unat sec \<le> unat spc"
  shows "write_cluster ram_io (cluster_to_lba g c) data sz off spc sec s
     = Some (s\<lparr>dev := store_at (clba g c + unat sec)
         (map (\<lambda>j. file_sector (take (unat sz) data) (o1 + j)) [unat sec..<unat spc]) (dev s)\<rparr>)"
  using assms
proof (induction "unat spc - unat sec" arbitrary: sec s)
  case 0
  then have "\<not> sec < spc" by (simp add: word_less_nat_alt)
  with 0 show ?case by (subst write_cluster.simps) simp
next
  case (Suc n)
  then have lt: "sec < spc" and ltn: "unat sec < unat spc" by (simp_all add: word_less_nat_alt)
  have us: "unat (sec + 1) = unat sec + 1" by (rule unat_inc [OF lt])
  have "unat sec < 256" using unsigned_less [of sec] by simp
  moreover have "unat (ucast sec :: u32) = unat sec"
    using \<open>unat sec < 256\<close> by (simp add: unsigned_ucast_eq take_bit_nat_eq_self)
  ultimately have "unat (ucast sec * 512 :: u32) = 512 * unat sec" by (simp add: unat_word_ariths)
  moreover have "512 * o1 + 512 * unat sec < 2 ^ 32" using Suc.prems(6) ltn by simp
  ultimately have off: "unat (off + ucast sec * 512) = 512 * (o1 + unat sec)"
    using Suc.prems(5) by (simp add: unat_word_ariths)
  let ?b = "file_sector (take (unat sz) data) (o1 + unat sec)"
  have lba: "unat (cluster_to_lba g c + ucast sec) = clba g c + unat sec"
    using clba_word [OF Suc.prems(1,2), of "unat sec"] ltn Suc.prems(4) by simp
  have in_range: "clba g c + unat sec < length (dev s)"
    using Suc.prems(2,4) ltn by (simp add: on_disk_def)
  let ?s = "s\<lparr>dev := (dev s)[clba g c + unat sec := ?b]\<rparr>"
  have "write_cluster ram_io (cluster_to_lba g c) data sz off spc sec s
      = write_cluster ram_io (cluster_to_lba g c) data sz off spc (sec + 1) ?s"
    using lt lba in_range write_sector_bytes [OF off Suc.prems(3)]
    by (subst write_cluster.simps) (simp add: Let_def memset_ok ram_write)
  also have "\<dots> = Some (?s\<lparr>dev := store_at (clba g c + unat (sec + 1))
         (map (\<lambda>j. file_sector (take (unat sz) data) (o1 + j)) [unat (sec + 1)..<unat spc]) (dev ?s)\<rparr>)"
    using Suc.prems Suc.hyps(2) us ltn
    by (intro Suc.hyps(1)) (simp_all add: disk_ok_update on_disk_def)
  also have "[unat sec..<unat spc] = unat sec # [unat (sec + 1)..<unat spc]"
    unfolding us using ltn by (simp add: upt_conv_Cons)
  ultimately show ?case by (simp add: us)
qed
section \<open>The chain a write builds\<close>

fun chained :: "fat_vars \<Rightarrow> bytes list \<Rightarrow> u16 list \<Rightarrow> bool" where
  "chained g D [] \<longleftrightarrow> True"
| "chained g D (x # xs) \<longleftrightarrow> fat_entry g D 0 x = (case xs of [] \<Rightarrow> 0xFFFF | y # _ \<Rightarrow> y) \<and> chained g D xs"

text \<open>
  \<open>D'\<close> is \<open>D\<close> with the file sectors from sector \<open>n\<close> on in the clusters \<open>cs\<close>, chained and
  linked behind \<open>prev\<close>; the boot sector, the root directory, the other table entries and the
  other data sectors are those of \<open>D\<close>.
\<close>

definition wrote :: "fat_vars \<Rightarrow> bytes \<Rightarrow> nat \<Rightarrow> u16 \<Rightarrow> u16 list \<Rightarrow> bytes list \<Rightarrow> bytes list \<Rightarrow> bool" where
  "wrote g data n prev cs D D' \<longleftrightarrow>
     layout_ok g D' \<and> length D' = length D \<and> chained g D' cs
     \<and> (\<forall>c. in_fat g c \<and> c \<notin> set cs \<and> c \<noteq> prev \<longrightarrow> fat_entry g D' 0 c = fat_entry g D 0 c)
     \<and> fat_entry g D' 0 prev = (if prev \<noteq> 0 \<and> cs \<noteq> [] then hd cs else fat_entry g D 0 prev)
     \<and> (\<forall>i. i < unat (data_start_lba g) \<and> (i < unat (fat_start_lba g) \<or> unat (root_dir_start_lba g) \<le> i) \<longrightarrow> D' ! i = D ! i)
     \<and> (\<forall>i. unat (data_start_lba g) \<le> i \<and> (\<forall>x \<in> set cs. \<not> in_cluster g x i) \<longrightarrow> D' ! i = D ! i)
     \<and> (\<forall>j < length cs. \<forall>k < unat (sectors_per_cluster g).
          D' ! (clba g (cs ! j) + k) = file_sector data (n + j * unat (sectors_per_cluster g) + k))"

lemma layout_regions:
  "layout_ok g D \<Longrightarrow> unat (fat_start_lba g) \<le> unat (root_dir_start_lba g)
     \<and> unat (root_dir_start_lba g) \<le> unat (data_start_lba g) \<and> 0 < unat (num_fats g)"
  by (simp add: layout_ok_def)

lemma clba_data: "on_disk g D c \<Longrightarrow> unat (data_start_lba g) \<le> clba g c"
  by (simp add: clba_def)

definition place :: "fat_vars \<Rightarrow> bytes \<Rightarrow> nat \<Rightarrow> u16 \<Rightarrow> bytes list \<Rightarrow> bytes list" where
  "place g data n x D = store_at (clba g x) (map (\<lambda>k. file_sector data (n + k)) [0..<unat (sectors_per_cluster g)]) D"

lemma place_nth:
  "on_disk g D x \<Longrightarrow> place g data n x D ! i = (if in_cluster g x i then file_sector data (n + (i - clba g x)) else D ! i)"
  unfolding place_def in_cluster_def
  by (subst store_at_nth) (auto simp: on_disk_def)

lemma place_ok: "layout_ok g D \<Longrightarrow> layout_ok g (place g data n x D)" "length (place g data n x D) = length D"
  unfolding place_def by (auto intro!: layout_ok_cong [of g D] store_at_disk_ok simp: layout_ok_def)

lemma place_low:
  assumes "layout_ok g D" "on_disk g D x" "i < unat (data_start_lba g)"
  shows "place g data n x D ! i = D ! i"
  using assms clba_data [OF assms(2)] by (simp add: place_nth in_cluster_def)

lemma place_fat:
  assumes "layout_ok g D" "on_disk g D x"
  shows "in_fat g c \<Longrightarrow> fat_entry g (place g data n x D) 0 c = fat_entry g D 0 c"
    "free_clusters g (place g data n x D) = free_clusters g D"
proof -
  note r = layout_regions [OF assms(1)]
  have low: "place g data n x D ! i = D ! i" if "i < unat (root_dir_start_lba g)" for i
    using r that by (intro place_low [OF assms]) simp
  show "in_fat g c \<Longrightarrow> fat_entry g (place g data n x D) 0 c = fat_entry g D 0 c"
    using r low by (intro fat_entry_cong [OF assms(1)]) auto
  show "free_clusters g (place g data n x D) = free_clusters g D"
    using low by (intro free_clusters_cong [OF assms(1)]) auto
qed

text \<open>Linking the new cluster behind the previous one.\<close>

definition link :: "fat_vars \<Rightarrow> u16 \<Rightarrow> u16 \<Rightarrow> bytes list \<Rightarrow> bytes list" where
  "link g prev x D = (let D1 = fat_set g x 0xFFFF D in if prev \<noteq> 0 then fat_set g prev x D1 else D1)"

lemma link_ok:
  assumes "layout_ok g D" "in_fat g x" "in_fat g prev"
  shows "layout_ok g (link g prev x D)" "length (link g prev x D) = length D"
    "in_fat g c \<Longrightarrow> prev \<noteq> x \<Longrightarrow> fat_entry g (link g prev x D) 0 c
       = (if c = x then 0xFFFF else if c = prev \<and> prev \<noteq> 0 then x else fat_entry g D 0 c)"
    "unat (root_dir_start_lba g) \<le> i \<or> i < unat (fat_start_lba g) \<Longrightarrow> link g prev x D ! i = D ! i"
  using assms layout_regions [OF assms(1)]
  by (simp_all add: link_def Let_def fat_set_ok fat_entry_set fat_set_outside)

lemma link_free:
  assumes "layout_ok g D" "free_clusters g D = x # xs" "unat prev < 2048" "prev \<noteq> 0 \<Longrightarrow> fat_entry g D 0 prev \<noteq> 0"
  shows "free_clusters g (link g prev x D) = xs"
proof -
  have x: "2 \<le> unat x" "unat x < 2048" "fat_entry g D 0 x = 0"
    using assms(2) free_clusters_mem [of x g D] by simp_all
  note i = in_fat_small [OF assms(1) x(2)] in_fat_small [OF assms(1,3)]
  have 1: "free_clusters g (fat_set g x 0xFFFF D) = xs"
    by (rule free_clusters_take [OF assms(1,2)]) simp
  show ?thesis
  proof (cases "prev = 0")
    case True
    with 1 show ?thesis by (simp add: link_def)
  next
    case False
    with assms(4) x(3) have "prev \<noteq> x" by auto
    then have "fat_entry g (fat_set g x 0xFFFF D) 0 prev \<noteq> 0"
      using fat_entry_set [OF assms(1) i] layout_regions [OF assms(1)] assms(4) False by simp
    moreover have "x \<noteq> 0" using x(1) by auto
    ultimately have "free_clusters g (fat_set g prev x (fat_set g x 0xFFFF D)) = free_clusters g (fat_set g x 0xFFFF D)"
      using fat_set_ok(1) [OF assms(1) i(1)] assms(3) by (intro free_clusters_other)
    with 1 False show ?thesis by (simp add: link_def)
  qed
qed

lemma wrote_step:
  assumes "layout_ok g D" "on_disk g D x" "in_fat g x" "in_fat g prev" "prev \<noteq> x" "x \<noteq> 0"
    and rest: "x \<notin> set cs" "prev \<notin> set cs" "\<forall>y \<in> set cs. on_disk g D y"
    and D3: "D3 = place g data n x (link g prev x D)"
    and w: "wrote g data (n + unat (sectors_per_cluster g)) x cs D3 D'"
  shows "wrote g data n prev (x # cs) D D'"
proof -
  let ?L = "link g prev x D"
  note l = link_ok [OF assms(1,3,4)]
  have ox: "on_disk g ?L x" using assms(2) l(2) by (simp add: on_disk_def)
  note p = place_nth [OF ox, of data n] place_low [OF l(1) ox] place_fat [OF l(1) ox]
  note r = layout_regions [OF assms(1)]
  have e3: "fat_entry g D3 0 c = (if c = x then 0xFFFF else if c = prev \<and> prev \<noteq> 0 then x else fat_entry g D 0 c)"
    if "in_fat g c" for c
    using p(3) [OF that] l(3) [OF that assms(5)] by (simp add: D3)
  have apart: "\<not> in_cluster g y i" if "y \<in> set cs" "in_cluster g x i" for y i
    using clusters_apart [OF assms(2), of y i] rest that by auto
  have w': "layout_ok g D'" "length D' = length D3" "chained g D' cs"
    "\<And>c. in_fat g c \<Longrightarrow> c \<notin> set cs \<Longrightarrow> c \<noteq> x \<Longrightarrow> fat_entry g D' 0 c = fat_entry g D3 0 c"
    "fat_entry g D' 0 x = (if cs \<noteq> [] then hd cs else fat_entry g D3 0 x)"
    "\<And>i. i < unat (data_start_lba g) \<Longrightarrow> i < unat (fat_start_lba g) \<or> unat (root_dir_start_lba g) \<le> i \<Longrightarrow> D' ! i = D3 ! i"
    "\<And>i. unat (data_start_lba g) \<le> i \<Longrightarrow> \<forall>y \<in> set cs. \<not> in_cluster g y i \<Longrightarrow> D' ! i = D3 ! i"
    "\<And>j k. j < length cs \<Longrightarrow> k < unat (sectors_per_cluster g) \<Longrightarrow>
       D' ! (clba g (cs ! j) + k) = file_sector data (n + unat (sectors_per_cluster g) + j * unat (sectors_per_cluster g) + k)"
    using w assms(6) unfolding wrote_def by simp_all
  have "chained g D' (x # cs)" using w'(3,5) e3 [OF assms(3)] by (cases cs) auto
  moreover have "fat_entry g D' 0 c = fat_entry g D 0 c" if "in_fat g c" "c \<notin> set (x # cs)" "c \<noteq> prev" for c
    using w'(4) [of c] e3 [of c] that by simp
  moreover have "fat_entry g D' 0 prev = (if prev \<noteq> 0 then x else fat_entry g D 0 prev)"
    using w'(4) [of prev] e3 [of prev] assms(4,5) rest(2) by simp
  moreover have "D' ! i = D ! i"
    if "i < unat (data_start_lba g)" "i < unat (fat_start_lba g) \<or> unat (root_dir_start_lba g) \<le> i" for i
    using w'(6) [OF that] p(2) [of i] l(4) [of i] that by (auto simp: D3)
  moreover have "D' ! i = D ! i" if "unat (data_start_lba g) \<le> i" "\<forall>y \<in> set (x # cs). \<not> in_cluster g y i" for i
    using w'(7) [of i] p(1) [of i] l(4) [of i] r that by (simp add: D3)
  moreover have "D' ! (clba g ((x # cs) ! j) + k) = file_sector data (n + j * unat (sectors_per_cluster g) + k)"
    if "j < length (x # cs)" "k < unat (sectors_per_cluster g)" for j k
  proof (cases j)
    case 0
    have ic: "in_cluster g x (clba g x + k)" using that(2) by (simp add: in_cluster_def)
    then have "D' ! (clba g x + k) = D3 ! (clba g x + k)"
      using clba_data [OF assms(2)] apart by (intro w'(7)) auto
    with ic p(1) [of "clba g x + k"] 0 show ?thesis by (simp add: D3)
  next
    case (Suc j')
    with w'(8) [of j' k] that show ?thesis by (simp add: algebra_simps)
  qed
  moreover have "length D' = length D" using w'(2) l(2) by (simp add: D3 place_ok)
  ultimately show ?thesis using w'(1) unfolding wrote_def by auto
qed
section \<open>The allocation loop\<close>

lemma write_clusters_step:
  assumes g: "vars s = g" "layout_ok g (dev s)" and sz: "unat sz \<le> length data"
    and cb: "cb = ucast (sectors_per_cluster g) * 512" "unat needed * unat cb < 2 ^ 32" and c: "c < needed"
    and x: "free_clusters g (dev s) = x # xs" "on_disk g (dev s) x" and prev: "unat prev < 2048"
  defines "D3 \<equiv> place g (take (unat sz) data) (unat c * unat (sectors_per_cluster g)) x (link g prev x (dev s))"
  shows "write_clusters ram_io data sz cb needed c first prev s
     = write_clusters ram_io data sz cb needed (c + 1) (if c = 0 then x else first) x (s\<lparr>dev := D3\<rparr>)"
proof -
  have xs: "2 \<le> unat x" "unat x < 2048" using x(1) free_clusters_mem [of x g "dev s"] by simp_all
  then have x0: "x \<noteq> 0" by auto
  note i = in_fat_small [OF g(2) xs(2)] in_fat_small [OF g(2) prev]
  let ?s1 = "s\<lparr>dev := fat_set g x 0xFFFF (dev s)\<rparr>" and ?s2 = "s\<lparr>dev := link g prev x (dev s)\<rparr>"
  have 1: "fat_alloc_cluster ram_io s = Some (x, s)"
    using alloc_ram [of s] g x(1) by (simp add: first_or_0_def)
  have 2: "fat_write_entry ram_io x 0xFFFF s = Some ?s1"
    using write_entry [of s x "0xFFFF"] g i(1) by simp
  have 3: "(if prev \<noteq> 0 then fat_write_entry ram_io prev x ?s1 else Some ?s1) = Some ?s2"
    using write_entry [of ?s1 prev x] g i fat_set_ok(1) [OF g(2) i(1), where v = "0xFFFF"] by (simp add: link_def)
  have spc: "unat (sectors_per_cluster g) < 256" using unsigned_less [of "sectors_per_cluster g"] by simp
  moreover have "unat (ucast (sectors_per_cluster g) :: u32) = unat (sectors_per_cluster g)"
    using spc by (simp add: unsigned_ucast_eq take_bit_nat_eq_self)
  ultimately have ucb: "unat cb = 512 * unat (sectors_per_cluster g)" by (simp add: cb(1) unat_word_ariths)
  have cn: "unat c + 1 \<le> unat needed" using c by (simp add: word_less_nat_alt)
  then have "(unat c + 1) * unat cb \<le> unat needed * unat cb" by (rule mult_le_mono1)
  with cb(2) have lt: "(unat c + 1) * unat cb < 2 ^ 32" by simp
  then have "unat c * unat cb < 2 ^ 32" by simp
  then have off: "unat (c * cb) = 512 * (unat c * unat (sectors_per_cluster g))"
    by (simp add: unat_word_ariths ucb mult.left_commute)
  have hi: "512 * (unat c * unat (sectors_per_cluster g) + unat (sectors_per_cluster g)) < 2 ^ 32"
    using lt by (simp add: ucb algebra_simps)
  have l: "layout_ok g (dev ?s2)" "on_disk g (dev ?s2) x"
    using link_ok(1,2) [OF g(2) i] x(2) by (simp_all add: on_disk_def)
  have "write_cluster ram_io (cluster_to_lba g x) data sz (c * cb) (sectors_per_cluster g) 0 ?s2
      = Some (?s2\<lparr>dev := D3\<rparr>)"
    using write_cluster_ram [OF _ l(2) sz refl off hi, where sec = 0] l(1)
    by (simp add: D3_def place_def layout_ok_def)
  then show ?thesis
    using c 1 2 3 x0 g(1) by (subst write_clusters.simps) (simp add: case_bind)
qed

lemma prev_not_free: "(prev \<noteq> 0 \<Longrightarrow> fat_entry g D 0 prev \<noteq> 0) \<Longrightarrow> prev \<notin> set (free_clusters g D)"
  using free_clusters_mem [of prev g D] by (cases "prev = 0") auto

text \<open>The disk after one round of the loop.\<close>

lemma after_link:
  fixes n :: nat and data :: bytes
  assumes "layout_ok g D" "unat prev < 2048" "prev \<noteq> 0 \<Longrightarrow> fat_entry g D 0 prev \<noteq> 0"
    "free_clusters g D = x # xs" "on_disk g D x"
  defines "D3 \<equiv> place g data n x (link g prev x D)"
  shows "layout_ok g D3" "length D3 = length D" "free_clusters g D3 = xs" "fat_entry g D3 0 x = 0xFFFF"
    "on_disk g D3 y \<longleftrightarrow> on_disk g D y"
proof -
  have xr: "2 \<le> unat x" "unat x < 2048" "fat_entry g D 0 x = 0"
    using assms(4) free_clusters_mem [of x g D] by simp_all
  then have "x \<noteq> 0" by auto
  then have px: "prev \<noteq> x" using assms(3) xr(3) by auto
  note i = in_fat_small [OF assms(1) xr(2)] in_fat_small [OF assms(1,2)]
  note l = link_ok [OF assms(1) i]
  have ol: "on_disk g (link g prev x D) x" using assms(5) l(2) by (simp add: on_disk_def)
  show "layout_ok g D3" "length D3 = length D" "free_clusters g D3 = xs" "fat_entry g D3 0 x = 0xFFFF"
    unfolding D3_def using l(1,2) place_fat [OF l(1) ol] link_free [OF assms(1,4,2,3)] l(3) [OF i(1) px] i(1)
    by (simp_all add: place_ok)
  then show "on_disk g D3 y \<longleftrightarrow> on_disk g D y" by (simp add: on_disk_def)
qed

lemma write_clusters_ram:
  assumes "vars s = g" "layout_ok g (dev s)" "unat sz \<le> length data"
    "cb = ucast (sectors_per_cluster g) * 512" "unat needed * unat cb < 2 ^ 32"
    "unat c + m = unat needed" "m \<le> length (free_clusters g (dev s))"
    "\<forall>y \<in> set (take m (free_clusters g (dev s))). on_disk g (dev s) y"
    "unat prev < 2048" "prev \<noteq> 0 \<Longrightarrow> fat_entry g (dev s) 0 prev \<noteq> 0"
  shows "\<exists>D'. write_clusters ram_io data sz cb needed c first prev s
       = Some (Some (if c = 0 \<and> 0 < m then hd (free_clusters g (dev s)) else first), s\<lparr>dev := D'\<rparr>)
     \<and> wrote g (take (unat sz) data) (unat c * unat (sectors_per_cluster g)) prev
         (take m (free_clusters g (dev s))) (dev s) D'"
  using assms
proof (induction m arbitrary: c first prev s)
  case 0
  then have "\<not> c < needed" by (simp add: word_less_nat_alt)
  with 0 show ?case by (subst write_clusters.simps) (auto simp: wrote_def intro!: exI [of _ "dev s"])
next
  case (Suc m)
  let ?spc = "unat (sectors_per_cluster g)"
  have c: "c < needed" using Suc.prems(6) by (simp add: word_less_nat_alt)
  have uc: "unat (c + 1) = unat c + 1" by (rule unat_inc [OF c])
  have c1: "c + 1 \<noteq> 0" using uc by auto
  obtain x xs where x: "free_clusters g (dev s) = x # xs"
    using Suc.prems(7) by (cases "free_clusters g (dev s)") auto
  have ox: "on_disk g (dev s) x" using Suc.prems(8) by (simp add: x)
  have xr: "2 \<le> unat x" "unat x < 2048" "fat_entry g (dev s) 0 x = 0"
    using x free_clusters_mem [of x g "dev s"] by simp_all
  have x0: "x \<noteq> 0" using xr(1) by auto
  have px: "prev \<noteq> x" using Suc.prems(10) xr(3) x0 by auto
  note i = in_fat_small [OF Suc.prems(2) xr(2)] in_fat_small [OF Suc.prems(2,9)]
  note D3 = after_link [OF Suc.prems(2,9,10) x ox, where n = "unat c * ?spc" and data = "take (unat sz) data"]
  define D3 where "D3 = place g (take (unat sz) data) (unat c * ?spc) x (link g prev x (dev s))"
  note D3 = D3 [folded D3_def]
  have step: "write_clusters ram_io data sz cb needed c first prev s
      = write_clusters ram_io data sz cb needed (c + 1) (if c = 0 then x else first) x (s\<lparr>dev := D3\<rparr>)"
    unfolding D3_def by (rule write_clusters_step [OF Suc.prems(1-5) c x ox Suc.prems(9)])
  obtain D' where D': "write_clusters ram_io data sz cb needed (c + 1) (if c = 0 then x else first) x (s\<lparr>dev := D3\<rparr>)
       = Some (Some (if c = 0 then x else first), s\<lparr>dev := D'\<rparr>)"
     "wrote g (take (unat sz) data) (unat (c + 1) * ?spc) x (take m xs) D3 D'"
    using Suc.IH [of "s\<lparr>dev := D3\<rparr>" "c + 1" x "if c = 0 then x else first"] Suc.prems D3 uc c1 x xr(2) by auto
  have "wrote g (take (unat sz) data) (unat c * ?spc) prev (x # take m xs) (dev s) D'"
  proof (rule wrote_step [OF Suc.prems(2) ox i px x0 _ _ _ D3_def])
    have "distinct (x # xs)" using distinct_free [of g "dev s"] x by simp
    then show "x \<notin> set (take m xs)" by (auto dest: in_set_takeD)
    have "prev \<notin> set xs" using prev_not_free [OF Suc.prems(10)] x by simp
    then show "prev \<notin> set (take m xs)" by (auto dest: in_set_takeD)
    show "\<forall>y \<in> set (take m xs). on_disk g (dev s) y" using Suc.prems(8) by (simp add: x)
    show "wrote g (take (unat sz) data) (unat c * ?spc + ?spc) x (take m xs) D3 D'"
      using D'(2) unfolding uc by (simp add: add.commute)
  qed
  with step D'(1) show ?case by (auto simp: x)
qed

text \<open>With too few free clusters the loop uses them all up and then reports a full disk.\<close>

lemma write_clusters_full:
  assumes "vars s = g" "layout_ok g (dev s)" "unat sz \<le> length data"
    "cb = ucast (sectors_per_cluster g) * 512" "unat needed * unat cb < 2 ^ 32"
    "unat c + length (free_clusters g (dev s)) < unat needed"
    "\<forall>y \<in> set (free_clusters g (dev s)). on_disk g (dev s) y"
    "unat prev < 2048" "prev \<noteq> 0 \<Longrightarrow> fat_entry g (dev s) 0 prev \<noteq> 0"
  shows "\<exists>D'. write_clusters ram_io data sz cb needed c first prev s = Some (None, s\<lparr>dev := D'\<rparr>)
     \<and> free_clusters g D' = []
     \<and> wrote g (take (unat sz) data) (unat c * unat (sectors_per_cluster g)) prev
         (free_clusters g (dev s)) (dev s) D'"
  using assms
proof (induction "length (free_clusters g (dev s))" arbitrary: c first prev s)
  case 0
  then have "c < needed" by (simp add: word_less_nat_alt)
  with 0 alloc_ram [of s] show ?case
    by (subst write_clusters.simps) (auto simp: first_or_0_def wrote_def intro!: exI [of _ "dev s"])
next
  case (Suc m)
  let ?spc = "unat (sectors_per_cluster g)"
  have c: "c < needed" using Suc.prems(6) by (simp add: word_less_nat_alt)
  have uc: "unat (c + 1) = unat c + 1" by (rule unat_inc [OF c])
  obtain x xs where x: "free_clusters g (dev s) = x # xs"
    using Suc.hyps(2) by (cases "free_clusters g (dev s)") auto
  have ox: "on_disk g (dev s) x" using Suc.prems(7) by (simp add: x)
  have xr: "2 \<le> unat x" "unat x < 2048" "fat_entry g (dev s) 0 x = 0"
    using x free_clusters_mem [of x g "dev s"] by simp_all
  have x0: "x \<noteq> 0" using xr(1) by auto
  have px: "prev \<noteq> x" using Suc.prems(9) xr(3) x0 by auto
  note i = in_fat_small [OF Suc.prems(2) xr(2)] in_fat_small [OF Suc.prems(2,8)]
  note D3 = after_link [OF Suc.prems(2,8,9) x ox, where n = "unat c * ?spc" and data = "take (unat sz) data"]
  define D3 where "D3 = place g (take (unat sz) data) (unat c * ?spc) x (link g prev x (dev s))"
  note D3 = D3 [folded D3_def]
  have step: "write_clusters ram_io data sz cb needed c first prev s
      = write_clusters ram_io data sz cb needed (c + 1) (if c = 0 then x else first) x (s\<lparr>dev := D3\<rparr>)"
    unfolding D3_def by (rule write_clusters_step [OF Suc.prems(1-5) c x ox Suc.prems(8)])
  obtain D' where D': "write_clusters ram_io data sz cb needed (c + 1) (if c = 0 then x else first) x (s\<lparr>dev := D3\<rparr>)
       = Some (None, s\<lparr>dev := D'\<rparr>)" "free_clusters g D' = []"
     "wrote g (take (unat sz) data) (unat (c + 1) * ?spc) x xs D3 D'"
    using Suc.hyps(1) [of "s\<lparr>dev := D3\<rparr>" "c + 1" x "if c = 0 then x else first"] Suc.hyps(2) Suc.prems D3 uc x xr(2)
    by auto
  have "wrote g (take (unat sz) data) (unat c * ?spc) prev (x # xs) (dev s) D'"
  proof (rule wrote_step [OF Suc.prems(2) ox i px x0 _ _ _ D3_def])
    show "x \<notin> set xs" using distinct_free [of g "dev s"] x by simp
    show "prev \<notin> set xs" using prev_not_free [OF Suc.prems(9)] x by simp
    show "\<forall>y \<in> set xs. on_disk g (dev s) y" using Suc.prems(7) by (simp add: x)
    show "wrote g (take (unat sz) data) (unat c * ?spc + ?spc) x xs D3 D'"
      using D'(3) unfolding uc by (simp add: add.commute)
  qed
  with step D'(1,2) x show ?case by auto
qed

section \<open>Reading a chain back\<close>

text \<open>
  The caller's buffer after the first \<open>b\<close> bytes of the file arrived. Of a file that is longer
  than the caller's buffer only the first \<open>bsz\<close> bytes are copied; the walk goes on to
  the end of the chain, copying nothing more.
\<close>

definition filled :: "bytes \<Rightarrow> bytes \<Rightarrow> nat \<Rightarrow> bytes" where
  "filled data buf b = take b data @ drop b buf"

lemma length_filled [simp]: "b \<le> length data \<Longrightarrow> b \<le> length buf \<Longrightarrow> length (filled data buf b) = length buf"
  by (simp add: filled_def)

lemma filled_step:
  assumes "512 * i < m" "m \<le> length data" "m \<le> length buf" "t = min 512 (m - 512 * i)"
  shows "memcpy (filled data buf (512 * i)) (512 * i) (file_sector data i) 0 t = Some (filled data buf (512 * i + t))"
proof -
  have t: "t \<le> 512" "512 * i + t \<le> m" using assms by auto
  have "take t (file_sector data i) = take t (drop (512 * i) data)"
    using t assms(2) by (simp add: file_sector_def Let_def min_def) arith
  moreover have "take (512 * i) (filled data buf (512 * i)) = take (512 * i) data"
    "drop (512 * i + t) (filled data buf (512 * i)) = drop (512 * i + t) buf"
    using assms(1-3) t by (simp_all add: filled_def add.commute)
  moreover have "memcpy (filled data buf (512 * i)) (512 * i) (file_sector data i) 0 t
      = Some (take (512 * i) (filled data buf (512 * i)) @ take t (drop 0 (file_sector data i))
          @ drop (512 * i + t) (filled data buf (512 * i)))"
    using t assms(1-3) by (intro memcpy_ok) simp_all
  ultimately show ?thesis by (simp only: drop_0) (simp add: filled_def take_add)
qed

lemma memcpy_nothing: "i \<le> length d \<Longrightarrow> memcpy d i s 0 0 = Some d"
  using memcpy_ok [of i 0 d 0 s] by simp

text \<open>One step of the copying loop: how many bytes are copied, and where the counter is then.\<close>

lemma copy_amount:
  fixes fsz bsz br :: u32
  assumes "br < fsz" "unat br \<le> unat bsz"
  defines "c \<equiv> if fsz - br > 512 then 512 else fsz - br"
  defines "t \<equiv> if br + c > bsz then bsz - br else c"
  shows "unat t = min 512 (min (unat fsz) (unat bsz) - unat br)" "unat (br + t) = unat br + unat t"
proof -
  have d: "unat (fsz - br) = unat fsz - unat br" using assms(1) by (simp add: unat_sub order.strict_implies_order)
  have c: "unat c = min 512 (unat fsz - unat br)" unfolding c_def using d by (auto simp: word_less_nat_alt)
  have lt: "unat br < unat fsz" using assms(1) by (simp add: word_less_nat_alt)
  have bc: "unat (br + c) = unat br + unat c"
    using c lt unat_lt2p_u32 [of fsz] by (intro unat_word_ariths(1) [THEN trans]) simp
  have bb: "unat (bsz - br) = unat bsz - unat br" using assms(2) by (simp add: unat_sub word_le_nat_alt)
  show t: "unat t = min 512 (min (unat fsz) (unat bsz) - unat br)"
    unfolding t_def using c bc bb lt assms(2) by (auto simp: word_less_nat_alt min_def)
  show "unat (br + t) = unat br + unat t"
    using t lt unat_lt2p_u32 [of fsz] by (intro unat_word_ariths(1) [THEN trans]) simp
qed

lemma read_cluster_ram:
  assumes "disk_ok (dev s)" "on_disk g (dev s) x" "spc = sectors_per_cluster g"
    "\<forall>k < unat spc. dev s ! (clba g x + k) = file_sector data (n + k)"
    "unat fsz = length data" "m = min (length data) (unat bsz)" "m \<le> length buf" "unat sec \<le> unat spc"
    "unat br = min m (512 * (n + unat sec))"
  shows "read_cluster ram_io (cluster_to_lba g x) fsz bsz spc sec br (filled data buf (unat br)) s
     = Some ((of_nat (min m (512 * (n + unat spc))), filled data buf (min m (512 * (n + unat spc)))), s)"
  using assms(8,9)
proof (induction "unat spc - unat sec" arbitrary: sec br)
  case 0
  then have "unat sec = unat spc" "\<not> sec < spc" by (simp_all add: word_less_nat_alt)
  moreover from this 0 have "br = of_nat (min m (512 * (n + unat spc)))"
    by (simp flip: 0(3)) (metis of_nat_unat ucast_id)
  ultimately show ?case using 0 by (subst read_cluster.simps) simp
next
  case (Suc r)
  then have lt: "sec < spc" and ltn: "unat sec < unat spc" by (simp_all add: word_less_nat_alt)
  have us: "unat (sec + 1) = unat sec + 1" by (rule unat_inc [OF lt])
  have mb: "m \<le> length data" "m \<le> unat bsz" "min (unat fsz) (unat bsz) = m" using assms(5,6) by simp_all
  show ?case
  proof (cases "br < fsz")
    case False
    then have b: "unat br = length data" "min m (512 * (n + unat spc)) = length data"
      using Suc.prems(2) ltn mb assms(5) by (auto simp: word_less_nat_alt)
    then have "of_nat (length data) = br" by (metis of_nat_unat ucast_id)
    then show ?thesis using False b by (subst read_cluster.simps) simp
  next
    case brlt: True
    let ?i = "n + unat sec"
    let ?c = "(if fsz - br > 512 then 512 else fsz - br)"
    let ?t = "(if br + ?c > bsz then bsz - br else ?c)"
    have brm: "unat br \<le> m" "unat br \<le> unat bsz" using Suc.prems(2) mb(2) by simp_all
    note t = copy_amount [OF brlt brm(2), unfolded mb(3)]
    have lba: "unat (cluster_to_lba g x + ucast sec) = clba g x + unat sec"
      using clba_word [OF assms(1,2), of "unat sec"] ltn assms(3) by simp
    have rd: "read_sec ram_io (cluster_to_lba g x + ucast sec) s = Some (file_sector data ?i, s)"
      using assms(2,3,4) lba ltn by (simp add: ram_read on_disk_def)
    have mc: "memcpy (filled data buf (unat br)) (unat br) (file_sector data ?i) 0 (unat ?t)
        = Some (filled data buf (unat (br + ?t)))"
    proof (cases "512 * ?i < m")
      case True
      then have b: "unat br = 512 * ?i" using Suc.prems(2) by simp
      show ?thesis unfolding t b by (rule filled_step [OF True mb(1) assms(7)]) simp
    next
      case False
      then have "unat br = m" using Suc.prems(2) by simp
      then show ?thesis unfolding t using mb(1) assms(7) by (simp add: memcpy_nothing)
    qed
    have nb: "unat (br + ?t) = min m (512 * (n + unat (sec + 1)))"
      unfolding t us using Suc.prems(2) by (simp add: min_def) arith
    then have "read_cluster ram_io (cluster_to_lba g x) fsz bsz spc (sec + 1) (br + ?t) (filled data buf (unat (br + ?t))) s
        = Some ((of_nat (min m (512 * (n + unat spc))), filled data buf (min m (512 * (n + unat spc)))), s)"
      using Suc.hyps(2) us ltn by (intro Suc.hyps(1)) simp_all
    moreover have "read_cluster ram_io (cluster_to_lba g x) fsz bsz spc sec br (filled data buf (unat br)) s
        = read_cluster ram_io (cluster_to_lba g x) fsz bsz spc (sec + 1) (br + ?t) (filled data buf (unat (br + ?t))) s"
      using lt brlt rd mc by (subst read_cluster.simps) (simp only: Let_def case_bind simp_thms if_True prod.case Option.bind.simps)
    ultimately show ?thesis by simp
  qed
qed

lemma read_chain_ram:
  assumes g: "vars s = g" "layout_ok g (dev s)"
    and sz: "unat fsz = length data" "m = min (length data) (unat bsz)" "m \<le> length buf"
  shows "cs \<noteq> [] \<Longrightarrow> chained g (dev s) cs \<Longrightarrow> \<forall>x \<in> set cs. on_disk g (dev s) x \<and> unat x < 2048 \<Longrightarrow>
    \<forall>j < length cs. \<forall>k < unat (sectors_per_cluster g).
       dev s ! (clba g (cs ! j) + k) = file_sector data (n + j * unat (sectors_per_cluster g) + k) \<Longrightarrow>
    length data \<le> 512 * (n + length cs * unat (sectors_per_cluster g)) \<Longrightarrow>
    unat br = min m (512 * n) \<Longrightarrow>
    read_chain ram_io fsz bsz (hd cs) br (filled data buf (unat br)) s = Some ((of_nat m, filled data buf m), s)"
proof (induction cs arbitrary: n br)
  case (Cons x xs)
  let ?spc = "unat (sectors_per_cluster g)"
  have x: "on_disk g (dev s) x" "unat x < 2048" using Cons.prems(3) by simp_all
  then have cl: "2 \<le> x" "x < 0xFFF8" by (simp_all add: word_le_nat_alt word_less_nat_alt on_disk_def)
  show ?case
  proof (cases "br < fsz")
    case False
    then have "unat br = m" using Cons.prems(6) sz(1,2) by (simp add: word_less_nat_alt)
    moreover from this have "of_nat m = br" by (metis of_nat_unat ucast_id)
    ultimately show ?thesis using False by (subst read_chain.simps) simp
  next
    case True
    let ?b = "min m (512 * (n + ?spc))"
    have ub: "unat (of_nat ?b :: u32) = ?b"
      using unat_lt2p_u32 [of fsz] sz(1,2) by (intro unat_of_nat32) simp
    have first: "\<forall>k < ?spc. dev s ! (clba g x + k) = file_sector data (n + k)"
      using Cons.prems(4) by (auto dest: spec [of _ 0])
    have rc: "read_cluster ram_io (cluster_to_lba g x) fsz bsz (sectors_per_cluster g) 0 br (filled data buf (unat br)) s
        = Some ((of_nat ?b, filled data buf ?b), s)"
      using g(2) Cons.prems(6)
      by (intro read_cluster_ram [OF _ x(1) refl first sz]) (simp_all add: layout_ok_def)
    have fe: "fat_read_entry ram_io x s = Some (case xs of [] \<Rightarrow> 0xFFFF | y # _ \<Rightarrow> y, s)"
      using read_entry [of s x] g in_fat_small [OF g(2) x(2)] Cons.prems(2) by simp
    have rest: "read_chain ram_io fsz bsz (case xs of [] \<Rightarrow> 0xFFFF | y # _ \<Rightarrow> y) (of_nat ?b) (filled data buf ?b) s
        = Some ((of_nat m, filled data buf m), s)"
    proof (cases xs)
      case Nil
      then have "?b = m" using Cons.prems(5) sz(2) by simp
      then show ?thesis using Nil by (subst read_chain.simps) simp
    next
      case (Cons y ys)
      have tail: "\<forall>j < length xs. \<forall>k < ?spc. dev s ! (clba g (xs ! j) + k) = file_sector data ((n + ?spc) + j * ?spc + k)"
      proof (intro allI impI)
        fix j k assume "j < length xs" "k < ?spc"
        with Cons.prems(4) [rule_format, of "Suc j" k]
        show "dev s ! (clba g (xs ! j) + k) = file_sector data ((n + ?spc) + j * ?spc + k)"
          by (simp add: algebra_simps)
      qed
      have "read_chain ram_io fsz bsz (hd xs) (of_nat ?b) (filled data buf (unat (of_nat ?b :: u32))) s
          = Some ((of_nat m, filled data buf m), s)"
      proof (rule Cons.IH)
        show "xs \<noteq> []" "chained g (dev s) xs" "\<forall>x \<in> set xs. on_disk g (dev s) x \<and> unat x < 2048"
          using Cons Cons.prems(2,3) by simp_all
        show "length data \<le> 512 * ((n + ?spc) + length xs * ?spc)" using Cons.prems(5) by (simp add: algebra_simps)
      qed (fact tail ub)+
      then show ?thesis using Cons ub by simp
    qed
    show ?thesis
      using True cl rc fe rest g(1) by (subst read_chain.simps) simp
  qed
qed simp

end
