(* ===== verification/Bh_FatDir.thy ===== *)
theory Bh_FatDir
  imports Bh_FatFile
begin

text \<open>
  Names and the root directory: \<open>fat83\<close> is what \<^verbatim>\<open>to_fat_name\<close> makes of a string,
  \<open>slot\<close> numbers the 32-byte entries of the root directory, and \<open>dir_find\<close> says what a
  directory scan meets first.
\<close>

section \<open>8.3 names\<close>

definition pad_to :: "nat \<Rightarrow> bytes \<Rightarrow> bytes" where
  "pad_to n xs = xs @ replicate (n - length xs) 32"

definition base_part :: "bytes \<Rightarrow> bytes" where
  "base_part s = takeWhile (\<lambda>c. c \<noteq> 46) s"

text \<open>The extension is dropped when the base name has more than eight characters.\<close>

definition ext_part :: "bytes \<Rightarrow> bytes" where
  "ext_part s = (if length (base_part s) \<le> 8 then take 3 (drop (Suc (length (base_part s))) s) else [])"

definition fat83 :: "bytes \<Rightarrow> bytes" where
  "fat83 s = pad_to 8 (map fat_upper (take 8 (base_part s))) @ pad_to 3 (map fat_upper (ext_part s))"

definition overwrite :: "bytes \<Rightarrow> nat \<Rightarrow> bytes \<Rightarrow> bytes" where
  "overwrite b p xs = take p b @ xs @ drop (p + length xs) b"

lemma length_pad_to: "length xs \<le> n \<Longrightarrow> length (pad_to n xs) = n"
  by (simp add: pad_to_def)

lemma length_fat83 [simp]: "length (fat83 s) = 11"
proof -
  have "length (ext_part s) \<le> 3" by (simp add: ext_part_def)
  then show ?thesis by (simp add: fat83_def length_pad_to)
qed

lemma overwrite_Nil [simp]: "overwrite b p [] = b"
  by (simp add: overwrite_def)

lemma length_overwrite [simp]: "p + length xs \<le> length b \<Longrightarrow> length (overwrite b p xs) = length b"
  by (simp add: overwrite_def)

lemma overwrite_Cons:
  "p < length b \<Longrightarrow> overwrite (b[p := x]) (Suc p) xs = overwrite b p (x # xs)"
  by (simp add: overwrite_def take_Suc_conv_app_nth)

lemma base_loop_ok:
  "str_at input i s \<Longrightarrow> j \<le> 8 \<Longrightarrow> p + 8 \<le> length b \<Longrightarrow>
   fat_base_loop input b p i j = Some (overwrite b (p + j) (map fat_upper (take (8 - j) (base_part s))),
     i + length (take (8 - j) (base_part s)))"
proof (induction s arbitrary: i j b)
  case Nil
  then show ?case by (subst fat_base_loop.simps) (simp add: str_at_Nil base_part_def)
next
  case (Cons c s)
  then have c: "aget input i = Some c" "c \<noteq> 0" "str_at input (Suc i) s" by (simp_all add: str_at_Cons)
  show ?case
  proof (cases "c \<noteq> 46 \<and> j < 8")
    case True
    then have "8 - j = Suc (7 - j)" by arith
    with True c Cons.prems Cons.IH [OF c(3), of "Suc j" "b[p + j := fat_upper c]"] show ?thesis
      by (subst fat_base_loop.simps) (simp add: base_part_def overwrite_Cons)
  next
    case False
    with c show ?thesis by (subst fat_base_loop.simps) (auto simp: base_part_def)
  qed
qed

lemma ext_loop_ok:
  "str_at input i s \<Longrightarrow> j \<le> 11 \<Longrightarrow> p + 11 \<le> length b \<Longrightarrow>
   fat_ext_loop input b p i j = Some (overwrite b (p + j) (map fat_upper (take (11 - j) s)))"
proof (induction s arbitrary: i j b)
  case Nil
  then show ?case by (subst fat_ext_loop.simps) (simp add: str_at_Nil)
next
  case (Cons c s)
  then have c: "aget input i = Some c" "c \<noteq> 0" "str_at input (Suc i) s" by (simp_all add: str_at_Cons)
  show ?case
  proof (cases "j < 11")
    case True
    then have "11 - j = Suc (11 - Suc j)" by simp
    with True c Cons.prems Cons.IH [OF c(3), of "Suc j" "b[p + j := fat_upper c]"] show ?thesis
      by (subst fat_ext_loop.simps) (simp add: overwrite_Cons)
  next
    case False
    with c Cons.prems show ?thesis by (subst fat_ext_loop.simps) simp
  qed
qed

lemma str_at_drop: "str_at b i s \<Longrightarrow> k \<le> length s \<Longrightarrow> str_at b (i + k) (drop k s)"
proof (induction k arbitrary: i s)
  case (Suc k)
  then obtain c s' where "s = c # s'" by (cases s) auto
  with Suc show ?case by (auto simp: str_at_Cons dest: Suc.IH)
qed simp

lemma str_at_aget: "str_at b i s \<Longrightarrow> aget b i = Some (case s of [] \<Rightarrow> 0 | c # _ \<Rightarrow> c)"
  by (cases s) (auto simp: str_at_Nil str_at_Cons)

lemma to_fat_name_ok:
  assumes "str_at input 0 s" "p + 11 \<le> length b"
  shows "to_fat_name input b p = Some (overwrite b p (fat83 s))"
proof -
  let ?B = "base_part s" and ?t = "take 8 (base_part s)"
  let ?b0 = "take p b @ replicate 11 32 @ drop (p + 11) b"
  have n0: "memset b p 32 11 = Some ?b0" using assms(2) by (simp add: memset_ok)
  have lt: "length ?t \<le> 8" "length ?t \<le> length s"
    by (simp_all add: base_part_def length_takeWhile_le min.coboundedI1)
  have n1: "fat_base_loop input ?b0 p 0 0 = Some (overwrite ?b0 p (map fat_upper ?t), length ?t)"
    using base_loop_ok [OF assms(1), of 0 p ?b0] assms(2) by simp
  have b1: "overwrite ?b0 p (map fat_upper ?t) = take p b @ pad_to 8 (map fat_upper ?t) @ replicate 3 32 @ drop (p + 11) b"
  proof -
    have "replicate 11 (32 :: u8) = replicate (length ?t) 32 @ replicate (8 - length ?t) 32 @ replicate 3 32"
      using lt(1) by (simp flip: replicate_add)
    then show ?thesis using assms(2) lt(1) by (simp add: overwrite_def pad_to_def)
  qed
  have rest: "str_at input (length ?t) (drop (length ?t) s)"
    using str_at_drop [OF assms(1) lt(2)] by simp
  have c: "aget input (length ?t) = Some (case drop (length ?t) s of [] \<Rightarrow> 0 | c # _ \<Rightarrow> c)"
    by (rule str_at_aget [OF rest])
  show ?thesis
  proof (cases "drop (length ?t) s")
    case Nil
    then have "length s \<le> length ?t" by simp
    then have "ext_part s = []" using lt by (simp add: ext_part_def base_part_def)
    with Nil n0 n1 c b1 assms(2) show ?thesis
      by (simp add: to_fat_name_def overwrite_def fat83_def pad_to_def)
  next
    case (Cons d r)
    have dpos: "length ?t < length s" "s ! length ?t = d"
      using Cons nth_via_drop [OF Cons] by (auto intro: leI simp: not_le [symmetric])
    have hit: "d = 46 \<longleftrightarrow> length ?B \<le> 8 \<and> length ?B < length s"
    proof (cases "length ?B \<le> 8")
      case True
      then have "?t = ?B" by simp
      with dpos show ?thesis
        using True nth_length_takeWhile [of "\<lambda>c. c \<noteq> 46" s] by (auto simp: base_part_def)
    next
      case False
      then have "length ?t < length ?B" by simp
      then have "?B ! length ?t = s ! length ?t" "?B ! length ?t \<in> set ?B"
        by (simp only: base_part_def takeWhile_nth, rule nth_mem)
      moreover from this(2) have "?B ! length ?t \<noteq> 46"
        unfolding base_part_def by (rule set_takeWhileD [THEN conjunct2])
      ultimately have "s ! length ?t \<noteq> 46" by simp
      with dpos False show ?thesis by simp
    qed
    show ?thesis
    proof (cases "d = 46")
      case False
      then have "ext_part s = []" using hit dpos by (auto simp: ext_part_def)
      with False Cons n0 n1 c b1 assms(2) show ?thesis
        by (simp add: to_fat_name_def overwrite_def fat83_def pad_to_def)
    next
      case True
      with hit have tB: "?t = ?B" "length ?B \<le> 8" by simp_all
      have r: "str_at input (Suc (length ?t)) r" using rest Cons by (simp add: str_at_Cons)
      have rd: "r = drop (Suc (length ?B)) s"
        using Cons tB(1) by (metis drop_Suc list.sel(3) tl_drop)
      let ?b1 = "take p b @ pad_to 8 (map fat_upper ?t) @ replicate 3 32 @ drop (p + 11) b"
      have l8: "length (pad_to 8 (map fat_upper ?t)) = 8" using lt(1) by (simp add: length_pad_to)
      have "fat_ext_loop input ?b1 p (Suc (length ?t)) 8 = Some (overwrite ?b1 (p + 8) (map fat_upper (take 3 r)))"
        using ext_loop_ok [OF r, of 8 p ?b1] assms(2) l8 by simp
      moreover have "overwrite ?b1 (p + 8) (map fat_upper (take 3 r)) = overwrite b p (fat83 s)"
      proof -
        have "replicate 3 (32 :: u8) = replicate (length (take 3 r)) 32 @ replicate (3 - length (take 3 r)) 32"
          by (simp flip: replicate_add)
        moreover have "ext_part s = take 3 r" using tB rd by (simp add: ext_part_def)
        ultimately show ?thesis
          using assms(2) l8 by (simp add: overwrite_def fat83_def pad_to_def [of 3])
      qed
      ultimately show ?thesis
        using True Cons n0 n1 c b1 by (simp add: to_fat_name_def)
    qed
  qed
qed
lemma cmp_loop_ok:
  "i + n = length fn \<Longrightarrow> p + length fn \<le> length b \<Longrightarrow>
   fat_cmp_loop fn b p n i = Some (take n (drop (p + i) b) = drop i fn)"
proof (induction n arbitrary: i)
  case (Suc n)
  then have "drop i fn = fn ! i # drop (Suc i) fn"
    "drop (p + i) b = b ! (p + i) # drop (Suc (p + i)) b"
    by (simp_all add: Cons_nth_drop_Suc)
  with Suc show ?case by auto
qed simp

lemma name_match_ok:
  assumes "str_at input 0 s" "p + 11 \<le> length b"
  shows "fat_name_match input b p = Some (take 11 (drop p b) = fat83 s)"
proof -
  have "to_fat_name input (replicate 11 0) 0 = Some (fat83 s)"
    using to_fat_name_ok [OF assms(1), of 0 "replicate 11 0"] by (simp add: overwrite_def)
  with cmp_loop_ok [of 0 11 "fat83 s" p b] assms(2) show ?thesis by (simp add: fat_name_match_def)
qed

section \<open>The slots of the root directory\<close>

text \<open>Slot \<open>k\<close> is entry \<open>k mod 16\<close> of root sector \<open>k div 16\<close>.\<close>

definition slot_sec :: "fat_vars \<Rightarrow> nat \<Rightarrow> nat" where
  "slot_sec g k = unat (root_dir_start_lba g) + k div 16"

definition slot :: "fat_vars \<Rightarrow> bytes list \<Rightarrow> nat \<Rightarrow> bytes" where
  "slot g D k = take 32 (drop (32 * (k mod 16)) (D ! slot_sec g k))"

definition slots :: "fat_vars \<Rightarrow> nat" where
  "slots g = 16 * unat (root_dir_sectors g)"

lemma slot_sec_bound:
  "layout_ok g D \<Longrightarrow> k < slots g \<Longrightarrow>
   unat (root_dir_start_lba g) \<le> slot_sec g k \<and> slot_sec g k < unat (data_start_lba g) \<and> slot_sec g k < length D
   \<and> length (D ! slot_sec g k) = 512"
proof -
  assume a: "layout_ok g D" "k < slots g"
  then have "k div 16 < unat (root_dir_sectors g)" by (simp add: slots_def less_mult_imp_div_less mult.commute)
  with a(1) have "unat (root_dir_start_lba g) \<le> slot_sec g k" "slot_sec g k < unat (data_start_lba g)" "slot_sec g k < length D"
    by (simp_all add: layout_ok_def slot_sec_def)
  with a(1) show ?thesis by (simp add: layout_ok_def disk_ok_sector)
qed

lemma slot_nth:
  assumes "layout_ok g D" "k < slots g" "i < 32"
  shows "slot g D k ! i = D ! slot_sec g k ! (32 * (k mod 16) + i)" "length (slot g D k) = 32"
    "32 * (k mod 16) + 32 \<le> length (D ! slot_sec g k)"
proof -
  have "k mod 16 < 16" by simp
  then have "32 * (k mod 16) + 32 \<le> 512" by linarith
  then show "slot g D k ! i = D ! slot_sec g k ! (32 * (k mod 16) + i)" "length (slot g D k) = 32"
    "32 * (k mod 16) + 32 \<le> length (D ! slot_sec g k)"
    using slot_sec_bound [OF assms(1,2)] assms(3) by (simp_all add: slot_def)
qed

lemma slot_cong:
  "layout_ok g D \<Longrightarrow> k < slots g \<Longrightarrow>
   (\<And>i. unat (root_dir_start_lba g) \<le> i \<Longrightarrow> i < unat (data_start_lba g) \<Longrightarrow> D' ! i = D ! i) \<Longrightarrow> slot g D' k = slot g D k"
  using slot_sec_bound [of g D k] by (simp add: slot_def)

text \<open>Replacing the 32 bytes of one slot.\<close>

definition set_slot :: "fat_vars \<Rightarrow> nat \<Rightarrow> bytes \<Rightarrow> bytes list \<Rightarrow> bytes list" where
  "set_slot g k e D = D[slot_sec g k := overwrite (D ! slot_sec g k) (32 * (k mod 16)) e]"

lemma set_slot_ok:
  assumes "layout_ok g D" "k < slots g" "length e = 32"
  shows "layout_ok g (set_slot g k e D)" "length (set_slot g k e D) = length D"
    "k' < slots g \<Longrightarrow> slot g (set_slot g k e D) k' = (if k' = k then e else slot g D k')"
    "i < unat (root_dir_start_lba g) \<or> unat (data_start_lba g) \<le> i \<Longrightarrow> set_slot g k e D ! i = D ! i"
proof -
  note b = slot_sec_bound [OF assms(1,2)]
  note n = slot_nth(3) [OF assms(1,2), of 0]
  have "disk_ok (set_slot g k e D)"
    using assms b n unfolding set_slot_def by (intro disk_ok_update) (simp_all add: layout_ok_def)
  then show "layout_ok g (set_slot g k e D)"
    by (rule layout_ok_cong [OF assms(1)]) (simp add: set_slot_def)
  show "length (set_slot g k e D) = length D" by (simp add: set_slot_def)
  show "i < unat (root_dir_start_lba g) \<or> unat (data_start_lba g) \<le> i \<Longrightarrow> set_slot g k e D ! i = D ! i"
    using b by (auto simp: set_slot_def)
  assume k': "k' < slots g"
  show "slot g (set_slot g k e D) k' = (if k' = k then e else slot g D k')"
  proof (cases "k' div 16 = k div 16")
    case False
    then have "slot_sec g k' \<noteq> slot_sec g k" "k' \<noteq> k" by (auto simp: slot_sec_def)
    then show ?thesis by (simp add: slot_def set_slot_def)
  next
    case True
    then have s: "slot_sec g k' = slot_sec g k" by (simp add: slot_sec_def)
    have eq: "k' = k \<longleftrightarrow> k' mod 16 = k mod 16" using True by (metis div_mod_decomp)
    have "slot g (set_slot g k e D) k' ! j = (if k' = k then e else slot g D k') ! j" if "j < 32" for j
    proof -
      have "slot g (set_slot g k e D) k' ! j = overwrite (D ! slot_sec g k) (32 * (k mod 16)) e ! (32 * (k' mod 16) + j)"
        using slot_nth [OF assms(1) k' that] b s n assms(3) \<open>j < 32\<close>
        by (simp add: slot_def set_slot_def)
      moreover have "slot g D k' ! j = D ! slot_sec g k ! (32 * (k' mod 16) + j)"
        using slot_nth(1) [OF assms(1) k' that] s by simp
      moreover have "32 * (k' mod 16) + j < 32 * (k mod 16) \<or> 32 * (k mod 16) + 32 \<le> 32 * (k' mod 16) + j" if "k' \<noteq> k"
        using that eq \<open>j < 32\<close> by linarith
      ultimately show ?thesis
        using n assms(3) \<open>j < 32\<close> eq by (auto simp: overwrite_def nth_append min_def)
    qed
    moreover have "length (slot g (set_slot g k e D) k') = 32"
      using slot_nth(3) [OF assms(1) k', of 0] s b assms(3) n by (simp add: slot_def set_slot_def)
    ultimately show ?thesis
      using assms(3) slot_nth(2) [OF assms(1) k', of 0] by (intro nth_equalityI) auto
  qed
qed

section \<open>Directory scans\<close>

lemma dir_entries_skip:
  "(\<And>i'. i \<le> i' \<Longrightarrow> i' < j \<Longrightarrow> body sn sector (32 * i') () st = Some (Inr (), st)) \<Longrightarrow> i \<le> j \<Longrightarrow> j \<le> 16 \<Longrightarrow>
   dir_entries body sn sector i () st = dir_entries body sn sector j () st"
proof (induction "j - i" arbitrary: i)
  case (Suc n)
  then have "i < 16" "body sn sector (32 * i) () st = Some (Inr (), st)" by auto
  then have "dir_entries body sn sector i () st = dir_entries body sn sector (Suc i) () st"
    by (subst dir_entries.simps) simp
  also have "\<dots> = dir_entries body sn sector j () st" using Suc by (intro Suc.hyps(1)) auto
  finally show ?case .
qed simp

text \<open>The body of a scan as a function of the slot number.\<close>

definition at_slot ::
  "(u32 \<Rightarrow> bytes \<Rightarrow> nat \<Rightarrow> unit \<Rightarrow> bytes list fs \<Rightarrow> 'x option) \<Rightarrow> bytes list fs \<Rightarrow> nat \<Rightarrow> 'x option" where
  "at_slot body st k = body (of_nat (k div 16)) (dev st ! slot_sec (vars st) k) (32 * (k mod 16)) () st"

lemma div_mod_16: "i < 16 \<Longrightarrow> (16 * q + i) div 16 = q \<and> (16 * q + i) mod 16 = (i :: nat)"
  by simp

lemma root_read:
  assumes "layout_ok (vars st) (dev st)" "s < unat (root_dir_sectors (vars st))"
  shows "read_sec ram_io (root_dir_start_lba (vars st) + of_nat s) st = Some (dev st ! slot_sec (vars st) (16 * s), st)"
    "unat (root_dir_start_lba (vars st) + of_nat s) = slot_sec (vars st) (16 * s)"
proof -
  have b: "slot_sec (vars st) (16 * s) < length (dev st)"
    using slot_sec_bound [OF assms(1), of "16 * s"] assms(2) by (simp add: slots_def)
  moreover have "length (dev st) \<le> 2 ^ 28" using assms(1) by (simp add: layout_ok_def disk_ok_def)
  ultimately have "slot_sec (vars st) (16 * s) < 2 ^ 32" by simp
  note unat_of_nat32 [OF this]
  moreover have "root_dir_start_lba (vars st) + of_nat s = of_nat (slot_sec (vars st) (16 * s))"
    by (simp add: slot_sec_def)
  ultimately show u: "unat (root_dir_start_lba (vars st) + of_nat s) = slot_sec (vars st) (16 * s)"
    by (simp only:)
  with b show "read_sec ram_io (root_dir_start_lba (vars st) + of_nat s) st = Some (dev st ! slot_sec (vars st) (16 * s), st)"
    by (simp add: ram_read)
qed

lemma dir_loop_skip:
  assumes "layout_ok (vars st) (dev st)"
  shows "(\<And>k. 16 * s \<le> k \<Longrightarrow> k < 16 * t \<Longrightarrow> at_slot body st k = Some (Inr (), st)) \<Longrightarrow> s \<le> t \<Longrightarrow>
    t \<le> unat (root_dir_sectors (vars st)) \<Longrightarrow>
    dir_loop ram_io body (root_dir_sectors (vars st)) (of_nat s) () st
      = dir_loop ram_io body (root_dir_sectors (vars st)) (of_nat t) () st"
proof (induction "t - s" arbitrary: s)
  case (Suc n)
  let ?n = "root_dir_sectors (vars st)"
  have lt: "s < unat ?n" using Suc by simp
  then have u: "unat (of_nat s :: u32) = s" using unat_lt2p_u32 [of ?n] by (intro unat_of_nat32) simp
  have w: "(of_nat s :: u32) < ?n" using lt u by (simp add: word_less_nat_alt)
  have "dir_entries body (of_nat s) (dev st ! slot_sec (vars st) (16 * s)) 0 () st
      = dir_entries body (of_nat s) (dev st ! slot_sec (vars st) (16 * s)) 16 () st"
  proof (rule dir_entries_skip)
    fix i :: nat assume "i < 16"
    with Suc.prems(1) [of "16 * s + i"] Suc.hyps(2) div_mod_16 [of i s]
    show "body (of_nat s) (dev st ! slot_sec (vars st) (16 * s)) (32 * i) () st = Some (Inr (), st)"
      by (simp add: at_slot_def slot_sec_def)
  qed simp_all
  moreover have "dir_entries body (of_nat s) (dev st ! slot_sec (vars st) (16 * s)) 16 () st = Some (Inr (), st)"
    by (subst dir_entries.simps) simp
  ultimately have "dir_loop ram_io body ?n (of_nat s) () st = dir_loop ram_io body ?n (of_nat s + 1) () st"
    using w root_read(1) [OF assms lt] by (subst dir_loop.simps) simp
  also have "(of_nat s + 1 :: u32) = of_nat (Suc s)" by simp
  also have "dir_loop ram_io body ?n (of_nat (Suc s)) () st = dir_loop ram_io body ?n (of_nat t) () st"
    using Suc by (intro Suc.hyps(1)) auto
  finally show ?case .
qed simp

text \<open>A scan ends at the first slot that leaves the loops, or sees every slot.\<close>

lemma dir_scan_reach:
  assumes "layout_ok (vars st) (dev st)" "k < slots (vars st)"
    "\<And>k'. k' < k \<Longrightarrow> at_slot body st k' = Some (Inr (), st)"
  shows "dir_scan ram_io body () st
     = (case dir_entries body (of_nat (k div 16)) (dev st ! slot_sec (vars st) k) (k mod 16) () st of
          None \<Rightarrow> None
        | Some (Inl r, st2) \<Rightarrow> Some (Inl r, st2)
        | Some (Inr acc1, st2) \<Rightarrow> dir_loop ram_io body (root_dir_sectors (vars st)) (of_nat (k div 16) + 1) acc1 st2)"
proof -
  let ?n = "root_dir_sectors (vars st)" and ?s = "k div 16"
  have lt: "?s < unat ?n" using assms(2) by (simp add: slots_def less_mult_imp_div_less mult.commute)
  then have u: "unat (of_nat ?s :: u32) = ?s" using unat_lt2p_u32 [of ?n] by (intro unat_of_nat32) simp
  have w: "(of_nat ?s :: u32) < ?n" using lt u by (simp add: word_less_nat_alt)
  have ss: "slot_sec (vars st) (16 * ?s) = slot_sec (vars st) k" by (simp add: slot_sec_def)
  have km: "k mod 16 < 16" "16 * ?s + k mod 16 = k" by simp_all
  have "dir_loop ram_io body ?n 0 () st = dir_loop ram_io body ?n (of_nat ?s) () st"
    using dir_loop_skip [OF assms(1), of 0 ?s body] assms(3) lt by simp
  moreover have "dir_entries body (of_nat ?s) (dev st ! slot_sec (vars st) k) 0 () st
      = dir_entries body (of_nat ?s) (dev st ! slot_sec (vars st) k) (k mod 16) () st"
  proof (rule dir_entries_skip)
    fix i assume "i < k mod 16"
    with assms(3) [of "16 * ?s + i"] km div_mod_16 [of i ?s]
    show "body (of_nat ?s) (dev st ! slot_sec (vars st) k) (32 * i) () st = Some (Inr (), st)"
      by (simp add: at_slot_def slot_sec_def)
  qed simp_all
  ultimately show ?thesis
    using w root_read(1) [OF assms(1) lt] ss by (simp add: dir_scan_def) (subst dir_loop.simps, simp)
qed

lemma dir_scan_hit:
  assumes "layout_ok (vars st) (dev st)" "k < slots (vars st)"
    "\<And>k'. k' < k \<Longrightarrow> at_slot body st k' = Some (Inr (), st)" "at_slot body st k = Some (Inl r, st')"
  shows "dir_scan ram_io body () st = Some (Inl r, st')"
proof -
  have "k mod 16 < 16" by simp
  then have "dir_entries body (of_nat (k div 16)) (dev st ! slot_sec (vars st) k) (k mod 16) () st = Some (Inl r, st')"
    using assms(4) by (subst dir_entries.simps) (simp add: at_slot_def)
  then show ?thesis using dir_scan_reach [OF assms(1-3)] by simp
qed

lemma dir_scan_hang:
  assumes "layout_ok (vars st) (dev st)" "k < slots (vars st)"
    "\<And>k'. k' < k \<Longrightarrow> at_slot body st k' = Some (Inr (), st)" "at_slot body st k = None"
  shows "dir_scan ram_io body () st = None"
proof -
  have "k mod 16 < 16" by simp
  then have "dir_entries body (of_nat (k div 16)) (dev st ! slot_sec (vars st) k) (k mod 16) () st = None"
    using assms(4) by (subst dir_entries.simps) (simp add: at_slot_def)
  then show ?thesis using dir_scan_reach [OF assms(1-3)] by simp
qed

lemma dir_scan_miss:
  assumes "layout_ok (vars st) (dev st)" "\<And>k. k < slots (vars st) \<Longrightarrow> at_slot body st k = Some (Inr (), st)"
  shows "dir_scan ram_io body () st = Some (Inr (), st)"
proof -
  let ?n = "root_dir_sectors (vars st)"
  have "dir_loop ram_io body ?n 0 () st = dir_loop ram_io body ?n (of_nat (unat ?n)) () st"
    using dir_loop_skip [OF assms(1), of 0 "unat ?n" body] assms(2) by (simp add: slots_def)
  moreover have "dir_loop ram_io body ?n ?n () st = Some (Inr (), st)" by (subst dir_loop.simps) simp
  ultimately show ?thesis by (simp add: dir_scan_def)
qed

end
