(* ===== verification/Bh_FatOps.thy ===== *)
theory Bh_FatOps
  imports Bh_FatDir
begin

text \<open>
  The operations on files, first on the ideal disk: deleting, writing, reading back; then, by
  the simulation of \<open>Bh_FatSim\<close>, on the ATA driver with any drive that follows the protocol.
\<close>

section \<open>Entries\<close>

definition ent_cluster :: "bytes \<Rightarrow> u16" where
  "ent_cluster e = get16 e 26"

definition ent_size :: "bytes \<Rightarrow> u32" where
  "ent_size e = ucast (get16 e 28) OR push_bit 16 (ucast (get16 e 30))"

definition matches :: "bytes \<Rightarrow> bytes \<Rightarrow> bool" where
  "matches nm e \<longleftrightarrow> e ! 0 \<noteq> 0 \<and> e ! 0 \<noteq> 0xE5 \<and> take 11 e = nm"

definition passes :: "bytes \<Rightarrow> bytes \<Rightarrow> bool" where
  "passes nm e \<longleftrightarrow> e ! 0 \<noteq> 0 \<and> (e ! 0 = 0xE5 \<or> take 11 e \<noteq> nm)"

definition free_slot :: "bytes \<Rightarrow> bool" where
  "free_slot e \<longleftrightarrow> e ! 0 = 0 \<or> e ! 0 = 0xE5"

text \<open>The file of that name is the one in slot \<open>k\<close>.\<close>

definition dir_find :: "fat_vars \<Rightarrow> bytes list \<Rightarrow> bytes \<Rightarrow> nat \<Rightarrow> bool" where
  "dir_find g D nm k \<longleftrightarrow> k < slots g \<and> matches nm (slot g D k) \<and> (\<forall>k' < k. passes nm (slot g D k'))"

definition dir_absent :: "fat_vars \<Rightarrow> bytes list \<Rightarrow> bytes \<Rightarrow> bool" where
  "dir_absent g D nm \<longleftrightarrow> \<not> (\<exists>k. dir_find g D nm k)"

lemma slot_fields:
  assumes "layout_ok g D" "k < slots g"
  defines "b \<equiv> D ! slot_sec g k" and "p \<equiv> 32 * (k mod 16)" and "e \<equiv> slot g D k"
  shows "aget b p = Some (e ! 0)" "i < 32 \<Longrightarrow> aget b (p + i) = Some (e ! i)" "rd16 b (p + 26) = Some (ent_cluster e)"
    "rd32 b (p + 28) = Some (ent_size e)" "take 11 (drop p b) = take 11 e" "p + 32 \<le> length b" "length b = 512"
    "length e = 32" "aput b p v = Some (overwrite b p (e[0 := v]))"
proof -
  note n = slot_nth [OF assms(1,2)]
  show l: "p + 32 \<le> length b" and l2: "length b = 512" and le: "length e = 32"
    using n(2,3) [of 0] slot_sec_bound [OF assms(1,2)] by (simp_all add: b_def p_def e_def)
  have get: "b ! (p + i) = e ! i" if "i < 32" for i using n(1) [OF that] by (simp add: b_def p_def e_def)
  show "aget b p = Some (e ! 0)" "i < 32 \<Longrightarrow> aget b (p + i) = Some (e ! i)"
    using l get [of 0] get [of i] by simp_all
  show "rd16 b (p + 26) = Some (ent_cluster e)" "rd32 b (p + 28) = Some (ent_size e)"
    using l get [of 26] get [of 27] get [of 28] get [of 29] get [of 30] get [of 31]
    by (simp_all add: rd16_def rd32_def ent_cluster_def ent_size_def get16_def add.commute)
  show "take 11 (drop p b) = take 11 e" by (simp add: e_def slot_def b_def p_def)
  have "b[p := v] = overwrite b p (e[0 := v])"
  proof (rule nth_equalityI)
    fix j assume "j < length (b[p := v])"
    moreover have "overwrite b p (e[0 := v]) ! j
        = (if j < p then b ! j else if j < p + 32 then e[0 := v] ! (j - p) else b ! j)"
      using l le by (auto simp: overwrite_def nth_append min_def)
    ultimately show "b[p := v] ! j = overwrite b p (e[0 := v]) ! j"
      using get [of "j - p"] le by (cases "j = p") auto
  qed (use l le in simp)
  then show "aput b p v = Some (overwrite b p (e[0 := v]))" using l by simp
qed

lemma first_not_passing:
  "(\<exists>k. k < slots g \<and> \<not> passes nm (slot g D k) \<and> (\<forall>k' < k. passes nm (slot g D k')))
   \<or> (\<forall>k < slots g. passes nm (slot g D k))"
proof (cases "\<exists>k. k < slots g \<and> \<not> passes nm (slot g D k)")
  case True
  define k where "k = (LEAST k. k < slots g \<and> \<not> passes nm (slot g D k))"
  from LeastI_ex [OF True] have k: "k < slots g" "\<not> passes nm (slot g D k)" by (simp_all add: k_def)
  moreover have "passes nm (slot g D k')" if "k' < k" for k'
    using not_less_Least [of k' "\<lambda>k. k < slots g \<and> \<not> passes nm (slot g D k)"] that k(1) by (auto simp: k_def)
  ultimately show ?thesis by blast
qed auto

section \<open>Freeing a chain\<close>

text \<open>No table entry points outside the table.\<close>

definition fat_closed :: "fat_vars \<Rightarrow> bytes list \<Rightarrow> bool" where
  "fat_closed g D \<longleftrightarrow> (\<forall>c. 2 \<le> unat c \<and> unat c < 2048 \<longrightarrow>
      unat (fat_entry g D 0 c) < 2048 \<or> 0xFFF8 \<le> fat_entry g D 0 c)"

definition used_clusters :: "fat_vars \<Rightarrow> bytes list \<Rightarrow> u16 set" where
  "used_clusters g D = {c. unat c < 2048 \<and> fat_entry g D 0 c \<noteq> 0}"

lemma finite_used [simp]: "finite (used_clusters g D)"
  by (rule finite)

lemma cluster_range: "2 \<le> c \<and> c < 0xFFF8 \<longleftrightarrow> 2 \<le> unat c \<and> unat c < 65528" for c :: u16
  by (simp add: word_le_nat_alt word_less_nat_alt)

text \<open>The deletion only clears table entries, whatever the shape of the chain.\<close>

definition cleared :: "fat_vars \<Rightarrow> bytes list \<Rightarrow> bytes list \<Rightarrow> bool" where
  "cleared g D D' \<longleftrightarrow> layout_ok g D' \<and> length D' = length D
     \<and> (\<forall>c. in_fat g c \<longrightarrow> fat_entry g D' 0 c = fat_entry g D 0 c \<or> fat_entry g D' 0 c = 0)
     \<and> (\<forall>i. unat (root_dir_start_lba g) \<le> i \<or> i < unat (fat_start_lba g) \<longrightarrow> D' ! i = D ! i)"

lemma cleared_trans: "cleared g D D1 \<Longrightarrow> cleared g D1 D2 \<Longrightarrow> cleared g D D2"
  unfolding cleared_def by metis

lemma cleared_set:
  assumes "layout_ok g D" "in_fat g c"
  shows "cleared g D (fat_set g c 0 D)"
  unfolding cleared_def
  using fat_set_ok [OF assms] fat_set_outside [OF assms] fat_entry_set [OF assms] layout_regions [OF assms(1)] by auto

lemma cleared_closed: "cleared g D D' \<Longrightarrow> layout_ok g D \<Longrightarrow> fat_closed g D \<Longrightarrow> fat_closed g D'"
  unfolding cleared_def fat_closed_def by (metis in_fat_small unat_0 zero_less_numeral)

lemma delete_chain_total:
  "layout_ok (vars st) (dev st) \<Longrightarrow> fat_closed (vars st) (dev st) \<Longrightarrow> unat c < 2048 \<or> 0xFFF8 \<le> c \<Longrightarrow>
   \<exists>D'. delete_chain ram_io c st = Some (st\<lparr>dev := D'\<rparr>) \<and> cleared (vars st) (dev st) D'"
proof (induction "card (used_clusters (vars st) (dev st))" arbitrary: c st rule: less_induct)
  case less
  let ?g = "vars st" and ?D = "dev st"
  show ?case
  proof (cases "2 \<le> c \<and> c < 0xFFF8")
    case False
    have "cleared ?g ?D ?D" using less.prems(1) by (simp add: cleared_def)
    moreover have "delete_chain ram_io c st = Some st" by (subst delete_chain.simps) (use False in auto)
    ultimately show ?thesis by (intro exI [of _ ?D]) simp
  next
    case True
    then have c: "2 \<le> unat c" "unat c < 2048" using less.prems(3) unfolding cluster_range by (auto simp: word_le_nat_alt)
    note i = in_fat_small [OF less.prems(1) c(2)]
    let ?e = "fat_entry ?g ?D 0 c" and ?D1 = "fat_set ?g c 0 ?D"
    let ?st1 = "st\<lparr>dev := ?D1\<rparr>"
    have c1: "cleared ?g ?D ?D1" by (rule cleared_set [OF less.prems(1) i])
    have step: "delete_chain ram_io c st = delete_chain ram_io ?e ?st1"
      using True read_entry [OF less.prems(1) i] write_entry [OF less.prems(1) i, of 0]
      by (subst delete_chain.simps) simp
    have en: "unat ?e < 2048 \<or> 0xFFF8 \<le> ?e" using less.prems(2) c by (simp add: fat_closed_def)
    show ?thesis
    proof (cases "?e = 0")
      case True
      moreover have "delete_chain ram_io 0 ?st1 = Some ?st1" by (subst delete_chain.simps) simp
      ultimately show ?thesis using step c1 by auto
    next
      case False
      have "used_clusters ?g ?D1 = used_clusters ?g ?D - {c}"
        using fat_entry_set [OF less.prems(1) i in_fat_small [OF less.prems(1)]] layout_regions [OF less.prems(1)]
        by (auto simp: used_clusters_def split: if_splits)
      moreover have "c \<in> used_clusters ?g ?D" using False c by (simp add: used_clusters_def)
      ultimately have "card (used_clusters ?g ?D1) < card (used_clusters ?g ?D)"
        using card_Diff1_less [OF finite_used] by metis
      then obtain D' where "delete_chain ram_io ?e ?st1 = Some (?st1\<lparr>dev := D'\<rparr>)" "cleared ?g ?D1 D'"
        using less.hyps [of ?st1 ?e] c1 cleared_closed [OF c1 less.prems(1,2)] en by (auto simp: cleared_def)
      with step cleared_trans [OF c1] show ?thesis by auto
    qed
  qed
qed

text \<open>A proper chain is freed exactly.\<close>

lemma chained_set:
  assumes "layout_ok g D" "unat x < 2048" "x \<notin> set cs" "\<forall>y \<in> set cs. unat y < 2048"
  shows "chained g (fat_set g x v D) cs = chained g D cs"
  using assms(3,4)
proof (induction cs)
  case (Cons y ys)
  have "fat_entry g (fat_set g x v D) 0 y = fat_entry g D 0 y"
    using Cons.prems layout_regions [OF assms(1)]
    by (subst fat_entry_set [OF assms(1) in_fat_small [OF assms(1,2)] in_fat_small [OF assms(1)]]) auto
  with Cons show ?case by simp
qed simp

lemma delete_chain_exact:
  "layout_ok (vars st) (dev st) \<Longrightarrow> cs \<noteq> [] \<Longrightarrow> chained (vars st) (dev st) cs \<Longrightarrow> distinct cs \<Longrightarrow>
   \<forall>x \<in> set cs. 2 \<le> unat x \<and> unat x < 2048 \<Longrightarrow>
   \<exists>D'. delete_chain ram_io (hd cs) st = Some (st\<lparr>dev := D'\<rparr>) \<and> cleared (vars st) (dev st) D'
     \<and> (\<forall>c. unat c < 2048 \<longrightarrow> fat_entry (vars st) D' 0 c = (if c \<in> set cs then 0 else fat_entry (vars st) (dev st) 0 c))"
proof (induction cs arbitrary: st)
  case (Cons x xs)
  let ?g = "vars st" and ?D = "dev st"
  let ?D1 = "fat_set ?g x 0 ?D"
  let ?st1 = "st\<lparr>dev := ?D1\<rparr>"
  have x: "2 \<le> unat x" "unat x < 2048" using Cons.prems(5) by simp_all
  note i = in_fat_small [OF Cons.prems(1) x(2)]
  have c1: "cleared ?g ?D ?D1" by (rule cleared_set [OF Cons.prems(1) i])
  then have l1: "layout_ok ?g ?D1" by (simp add: cleared_def)
  have e1: "fat_entry ?g ?D1 0 c = (if c = x then 0 else fat_entry ?g ?D 0 c)" if "unat c < 2048" for c
    using fat_entry_set [OF Cons.prems(1) i in_fat_small [OF Cons.prems(1) that]] layout_regions [OF Cons.prems(1)] by simp
  have step: "delete_chain ram_io x st = delete_chain ram_io (case xs of [] \<Rightarrow> 0xFFFF | y # _ \<Rightarrow> y) ?st1"
    using x read_entry [OF Cons.prems(1) i] write_entry [OF Cons.prems(1) i, of 0] Cons.prems(3)
    by (subst delete_chain.simps) (simp add: cluster_range)
  show ?case
  proof (cases xs)
    case Nil
    have "delete_chain ram_io 0xFFFF ?st1 = Some ?st1" by (subst delete_chain.simps) simp
    with Nil step c1 e1 show ?thesis by auto
  next
    case (Cons y ys)
    have ch: "chained ?g ?D1 xs" using Cons.prems(3-5) x by (simp add: chained_set [OF Cons.prems(1)])
    obtain D' where D': "delete_chain ram_io (hd xs) ?st1 = Some (?st1\<lparr>dev := D'\<rparr>)" "cleared ?g ?D1 D'"
       "\<forall>c. unat c < 2048 \<longrightarrow> fat_entry ?g D' 0 c = (if c \<in> set xs then 0 else fat_entry ?g ?D1 0 c)"
      using Cons.IH [of ?st1] l1 ch Cons Cons.prems(4,5) by auto
    with step cleared_trans [OF c1 D'(2)] e1 Cons show ?thesis by auto
  qed
qed simp
section \<open>fat16_delete_file\<close>

text \<open>Every file starts inside the table.\<close>

definition files_closed :: "fat_vars \<Rightarrow> bytes list \<Rightarrow> bool" where
  "files_closed g D \<longleftrightarrow> (\<forall>k < slots g. \<not> free_slot (slot g D k) \<longrightarrow>
      unat (ent_cluster (slot g D k)) < 2048 \<or> 0xFFF8 \<le> ent_cluster (slot g D k))"

lemma at_slot_delete:
  assumes "layout_ok (vars st) (dev st)" "k < slots (vars st)" "str_at name 0 s"
  defines "e \<equiv> slot (vars st) (dev st) k"
  shows "passes (fat83 s) e \<Longrightarrow> at_slot (delete_body ram_io name) st k = Some (Inr (), st)"
    "e ! 0 = 0 \<Longrightarrow> at_slot (delete_body ram_io name) st k = Some (Inl (- 1), st)"
    "matches (fat83 s) e \<Longrightarrow> delete_chain ram_io (ent_cluster e) st = Some (st\<lparr>dev := D'\<rparr>) \<Longrightarrow>
       length D' = length (dev st) \<Longrightarrow> D' ! slot_sec (vars st) k = dev st ! slot_sec (vars st) k \<Longrightarrow>
       at_slot (delete_body ram_io name) st k
         = Some (Inl 0, st\<lparr>dev := set_slot (vars st) k (e[0 := 0xE5]) D'\<rparr>)"
proof -
  let ?b = "dev st ! slot_sec (vars st) k" and ?p = "32 * (k mod 16)"
  note f = slot_fields [OF assms(1,2)]
  have m: "fat_name_match name ?b ?p = Some (take 11 e = fat83 s)"
    using name_match_ok [OF assms(3), of ?p ?b] f(5,6) by (simp add: e_def)
  show "passes (fat83 s) e \<Longrightarrow> at_slot (delete_body ram_io name) st k = Some (Inr (), st)"
    "e ! 0 = 0 \<Longrightarrow> at_slot (delete_body ram_io name) st k = Some (Inl (- 1), st)"
    using f(1) m by (auto simp: at_slot_def delete_body_def passes_def e_def)
  assume a: "matches (fat83 s) e" "delete_chain ram_io (ent_cluster e) st = Some (st\<lparr>dev := D'\<rparr>)"
    "length D' = length (dev st)" "D' ! slot_sec (vars st) k = ?b"
  let ?st1 = "st\<lparr>dev := D'\<rparr>"
  have kd: "16 * (k div 16) < slots (vars st)" "k div 16 < unat (root_dir_sectors (vars st))"
    using assms(2) by (simp_all add: slots_def less_mult_imp_div_less mult.commute)
  have ss: "slot_sec (vars st) (16 * (k div 16)) = slot_sec (vars st) k" by (simp add: slot_sec_def)
  have lba: "unat (root_dir_start_lba (vars st) + of_nat (k div 16)) = slot_sec (vars st) k"
    using root_read(2) [OF assms(1) kd(2)] ss by simp
  have "write_sec ram_io (root_dir_start_lba (vars st) + of_nat (k div 16)) (overwrite ?b ?p (e[0 := 0xE5])) ?st1
      = Some (?st1\<lparr>dev := D'[slot_sec (vars st) k := overwrite ?b ?p (e[0 := 0xE5])]\<rparr>)"
    using lba slot_sec_bound [OF assms(1,2)] a(3) f(6,8) by (subst ram_write) (simp_all add: e_def)
  with a f(1,3) f(9) [where v = "0xE5"] m show "at_slot (delete_body ram_io name) st k
         = Some (Inl 0, st\<lparr>dev := set_slot (vars st) k (e[0 := 0xE5]) D'\<rparr>)"
    by (auto simp: at_slot_def delete_body_def matches_def e_def set_slot_def)
qed

lemma slot_cleared:
  "cleared g D D' \<Longrightarrow> layout_ok g D \<Longrightarrow> k < slots g \<Longrightarrow> slot g D' k = slot g D k \<and> D' ! slot_sec g k = D ! slot_sec g k"
  using slot_sec_bound [of g D k] by (auto simp: cleared_def slot_def)

text \<open>What a deletion leaves: the slot is free, the chain cleared, nothing else changed.\<close>

lemma delete_hit:
  assumes "layout_ok (vars st) (dev st)" "str_at name 0 s" "dir_find (vars st) (dev st) (fat83 s) k"
    "delete_chain ram_io (ent_cluster (slot (vars st) (dev st) k)) st = Some (st\<lparr>dev := D'\<rparr>)"
    "cleared (vars st) (dev st) D'"
  shows "fat16_delete_file ram_io name st
     = Some (0, st\<lparr>dev := set_slot (vars st) k ((slot (vars st) (dev st) k)[0 := 0xE5]) D'\<rparr>)"
proof -
  have k: "k < slots (vars st)" using assms(3) by (simp add: dir_find_def)
  have "dir_scan ram_io (delete_body ram_io name) () st
      = Some (Inl 0, st\<lparr>dev := set_slot (vars st) k ((slot (vars st) (dev st) k)[0 := 0xE5]) D'\<rparr>)"
  proof (rule dir_scan_hit [OF assms(1) k])
    fix k' assume "k' < k"
    with assms(3) k show "at_slot (delete_body ram_io name) st k' = Some (Inr (), st)"
      by (intro at_slot_delete(1) [OF assms(1) _ assms(2)]) (auto simp: dir_find_def)
  next
    show "at_slot (delete_body ram_io name) st k
        = Some (Inl 0, st\<lparr>dev := set_slot (vars st) k ((slot (vars st) (dev st) k)[0 := 0xE5]) D'\<rparr>)"
      using assms(3-5) slot_cleared [OF assms(5,1) k]
      by (intro at_slot_delete(3) [OF assms(1) k assms(2)]) (auto simp: dir_find_def cleared_def)
  qed
  then show ?thesis by (simp add: fat16_delete_file_def)
qed

lemma delete_miss:
  assumes "layout_ok (vars st) (dev st)" "str_at name 0 s" "dir_absent (vars st) (dev st) (fat83 s)"
  shows "fat16_delete_file ram_io name st = Some (- 1, st)"
  using first_not_passing [of "vars st" "fat83 s" "dev st"]
proof
  assume "\<exists>k. k < slots (vars st) \<and> \<not> passes (fat83 s) (slot (vars st) (dev st) k)
     \<and> (\<forall>k' < k. passes (fat83 s) (slot (vars st) (dev st) k'))"
  then obtain k where k: "k < slots (vars st)" "\<not> passes (fat83 s) (slot (vars st) (dev st) k)"
      "\<forall>k' < k. passes (fat83 s) (slot (vars st) (dev st) k')" by blast
  then have "slot (vars st) (dev st) k ! 0 = 0"
    using assms(3) by (auto simp: dir_absent_def dir_find_def passes_def matches_def)
  then have "dir_scan ram_io (delete_body ram_io name) () st = Some (Inl (- 1), st)"
    using k by (intro dir_scan_hit [OF assms(1) k(1)] at_slot_delete(1,2) [OF assms(1) _ assms(2)]) auto
  then show ?thesis by (simp add: fat16_delete_file_def)
next
  assume "\<forall>k < slots (vars st). passes (fat83 s) (slot (vars st) (dev st) k)"
  then have "dir_scan ram_io (delete_body ram_io name) () st = Some (Inr (), st)"
    by (intro dir_scan_miss [OF assms(1)] at_slot_delete(1) [OF assms(1) _ assms(2)]) auto
  then show ?thesis by (simp add: fat16_delete_file_def)
qed

text \<open>Deletion always ends, and before the first free slot no entry has the name any more.\<close>

lemma delete_total:
  assumes "layout_ok (vars st) (dev st)" "fat_closed (vars st) (dev st)" "files_closed (vars st) (dev st)" "str_at name 0 s"
  shows "\<exists>r D'. fat16_delete_file ram_io name st = Some (r, st\<lparr>dev := D'\<rparr>) \<and> layout_ok (vars st) D'
     \<and> length D' = length (dev st)
     \<and> (\<forall>k0 < slots (vars st). (\<forall>k < k0. \<not> free_slot (slot (vars st) D' k)) \<longrightarrow>
          (\<forall>k < k0. passes (fat83 s) (slot (vars st) D' k)))"
proof (cases "dir_absent (vars st) (dev st) (fat83 s)")
  case True
  have "passes (fat83 s) (slot (vars st) (dev st) k)"
    if k0: "k0 < slots (vars st)" "\<forall>k < k0. \<not> free_slot (slot (vars st) (dev st) k)" and k: "k < k0" for k k0
    using first_not_passing [of "vars st" "fat83 s" "dev st"]
  proof
    assume "\<exists>k. k < slots (vars st) \<and> \<not> passes (fat83 s) (slot (vars st) (dev st) k)
       \<and> (\<forall>k' < k. passes (fat83 s) (slot (vars st) (dev st) k'))"
    then obtain k1 where k1: "k1 < slots (vars st)" "\<not> passes (fat83 s) (slot (vars st) (dev st) k1)"
        "\<forall>k' < k1. passes (fat83 s) (slot (vars st) (dev st) k')" by blast
    then have "slot (vars st) (dev st) k1 ! 0 = 0"
      using True by (auto simp: dir_absent_def dir_find_def passes_def matches_def)
    then have "\<not> k1 < k0" using k0(2) by (auto simp: free_slot_def)
    with k1(3) k show ?thesis by simp
  qed (use k0 k in simp)
  with delete_miss [OF assms(1,4) True] assms(1) show ?thesis
    by (intro exI [of _ "- 1"] exI [of _ "dev st"]) simp
next
  case False
  then obtain k1 where k1: "dir_find (vars st) (dev st) (fat83 s) k1" by (auto simp: dir_absent_def)
  then have k1s: "k1 < slots (vars st)" "\<not> free_slot (slot (vars st) (dev st) k1)"
    by (auto simp: dir_find_def matches_def free_slot_def)
  let ?e = "(slot (vars st) (dev st) k1)[0 := 0xE5]"
  obtain D' where D': "delete_chain ram_io (ent_cluster (slot (vars st) (dev st) k1)) st = Some (st\<lparr>dev := D'\<rparr>)"
      "cleared (vars st) (dev st) D'"
    using delete_chain_total [OF assms(1,2)] assms(3) k1s by (fastforce simp: files_closed_def)
  have l: "layout_ok (vars st) D'" "length D' = length (dev st)" using D'(2) by (simp_all add: cleared_def)
  have e: "length ?e = 32" "?e ! 0 = 0xE5" using slot_nth(2) [OF assms(1) k1s(1), of 0] by simp_all
  note ss = set_slot_ok [OF l(1) k1s(1) e(1)]
  have same: "slot (vars st) (set_slot (vars st) k1 ?e D') k = slot (vars st) (dev st) k" if "k < slots (vars st)" "k \<noteq> k1" for k
    using ss(3) [OF that(1)] that slot_cleared [OF D'(2) assms(1) that(1)] by simp
  have hit: "slot (vars st) (set_slot (vars st) k1 ?e D') k1 = ?e" using ss(3) [OF k1s(1)] by simp
  have "passes (fat83 s) (slot (vars st) (set_slot (vars st) k1 ?e D') k)"
    if k0: "k0 < slots (vars st)" "\<forall>k < k0. \<not> free_slot (slot (vars st) (set_slot (vars st) k1 ?e D') k)" and k: "k < k0" for k k0
  proof -
    have "\<not> k1 < k0" using k0(2) hit e(2) by (auto simp: free_slot_def)
    with k have "k < k1" by simp
    with k1 same [of k] k k0(1) show ?thesis by (simp add: dir_find_def)
  qed
  with delete_hit [OF assms(1,4) k1 D'] ss(1,2) l(2) show ?thesis
    by (intro exI [of _ 0] exI [of _ "set_slot (vars st) k1 ?e D'"]) simp
qed

section \<open>fat16_read_file\<close>

lemma at_slot_read:
  assumes "layout_ok (vars st) (dev st)" "k < slots (vars st)" "str_at name 0 s"
  defines "e \<equiv> slot (vars st) (dev st) k"
  shows "passes (fat83 s) e \<Longrightarrow> at_slot (read_body ram_io name buf bsz) st k = Some (Inr (), st)"
    "e ! 0 = 0 \<Longrightarrow> at_slot (read_body ram_io name buf bsz) st k = Some (Inl (- 1, buf), st)"
    "matches (fat83 s) e \<Longrightarrow> read_chain ram_io (ent_size e) bsz (ent_cluster e) 0 buf st = Some ((n, buf'), st) \<Longrightarrow>
       at_slot (read_body ram_io name buf bsz) st k = Some (Inl (sint n, buf'), st)"
    "matches (fat83 s) e \<Longrightarrow> read_chain ram_io (ent_size e) bsz (ent_cluster e) 0 buf st = None \<Longrightarrow>
       at_slot (read_body ram_io name buf bsz) st k = None"
proof -
  let ?b = "dev st ! slot_sec (vars st) k" and ?p = "32 * (k mod 16)"
  note f = slot_fields [OF assms(1,2)]
  have m: "fat_name_match name ?b ?p = Some (take 11 e = fat83 s)"
    using name_match_ok [OF assms(3), of ?p ?b] f(5,6) by (simp add: e_def)
  show "passes (fat83 s) e \<Longrightarrow> at_slot (read_body ram_io name buf bsz) st k = Some (Inr (), st)"
    "e ! 0 = 0 \<Longrightarrow> at_slot (read_body ram_io name buf bsz) st k = Some (Inl (- 1, buf), st)"
    "matches (fat83 s) e \<Longrightarrow> read_chain ram_io (ent_size e) bsz (ent_cluster e) 0 buf st = Some ((n, buf'), st) \<Longrightarrow>
       at_slot (read_body ram_io name buf bsz) st k = Some (Inl (sint n, buf'), st)"
    "matches (fat83 s) e \<Longrightarrow> read_chain ram_io (ent_size e) bsz (ent_cluster e) 0 buf st = None \<Longrightarrow>
       at_slot (read_body ram_io name buf bsz) st k = None"
    using f(1,3,4) m by (auto simp: at_slot_def read_body_def passes_def matches_def e_def)
qed

lemma read_hit:
  assumes "layout_ok (vars st) (dev st)" "str_at name 0 s" "dir_find (vars st) (dev st) (fat83 s) k"
    "read_chain ram_io (ent_size (slot (vars st) (dev st) k)) bsz (ent_cluster (slot (vars st) (dev st) k)) 0 buf st
       = Some ((n, buf'), st)"
  shows "fat16_read_file ram_io name buf bsz st = Some ((sint n, buf'), st)"
proof -
  have k: "k < slots (vars st)" using assms(3) by (simp add: dir_find_def)
  have "dir_scan ram_io (read_body ram_io name buf bsz) () st = Some (Inl (sint n, buf'), st)"
  proof (rule dir_scan_hit [OF assms(1) k])
    fix k' assume "k' < k"
    with assms(3) k show "at_slot (read_body ram_io name buf bsz) st k' = Some (Inr (), st)"
      by (intro at_slot_read(1) [OF assms(1) _ assms(2)]) (auto simp: dir_find_def)
  next
    show "at_slot (read_body ram_io name buf bsz) st k = Some (Inl (sint n, buf'), st)"
      using assms(3,4) by (intro at_slot_read(3) [OF assms(1) k assms(2)]) (auto simp: dir_find_def)
  qed
  then show ?thesis by (simp add: fat16_read_file_def)
qed

lemma read_hang:
  assumes "layout_ok (vars st) (dev st)" "str_at name 0 s" "dir_find (vars st) (dev st) (fat83 s) k"
    "read_chain ram_io (ent_size (slot (vars st) (dev st) k)) bsz (ent_cluster (slot (vars st) (dev st) k)) 0 buf st = None"
  shows "fat16_read_file ram_io name buf bsz st = None"
proof -
  have k: "k < slots (vars st)" using assms(3) by (simp add: dir_find_def)
  have "dir_scan ram_io (read_body ram_io name buf bsz) () st = None"
  proof (rule dir_scan_hang [OF assms(1) k])
    show "at_slot (read_body ram_io name buf bsz) st k' = Some (Inr (), st)" if "k' < k" for k'
      using that assms(3) k by (intro at_slot_read(1) [OF assms(1) _ assms(2)]) (auto simp: dir_find_def)
    show "at_slot (read_body ram_io name buf bsz) st k = None"
      using assms(3,4) by (intro at_slot_read(4) [OF assms(1) k assms(2)]) (auto simp: dir_find_def)
  qed
  then show ?thesis by (simp add: fat16_read_file_def)
qed

lemma read_miss:
  assumes "layout_ok (vars st) (dev st)" "str_at name 0 s" "dir_absent (vars st) (dev st) (fat83 s)"
  shows "fat16_read_file ram_io name buf bsz st = Some ((- 1, buf), st)"
  using first_not_passing [of "vars st" "fat83 s" "dev st"]
proof
  assume "\<exists>k. k < slots (vars st) \<and> \<not> passes (fat83 s) (slot (vars st) (dev st) k)
     \<and> (\<forall>k' < k. passes (fat83 s) (slot (vars st) (dev st) k'))"
  then obtain k where k: "k < slots (vars st)" "\<not> passes (fat83 s) (slot (vars st) (dev st) k)"
      "\<forall>k' < k. passes (fat83 s) (slot (vars st) (dev st) k')" by blast
  then have "slot (vars st) (dev st) k ! 0 = 0"
    using assms(3) by (auto simp: dir_absent_def dir_find_def passes_def matches_def)
  then have "dir_scan ram_io (read_body ram_io name buf bsz) () st = Some (Inl (- 1, buf), st)"
    using k by (intro dir_scan_hit [OF assms(1) k(1)] at_slot_read(1,2) [OF assms(1) _ assms(2)]) auto
  then show ?thesis by (simp add: fat16_read_file_def)
next
  assume "\<forall>k < slots (vars st). passes (fat83 s) (slot (vars st) (dev st) k)"
  then have "dir_scan ram_io (read_body ram_io name buf bsz) () st = Some (Inr (), st)"
    by (intro dir_scan_miss [OF assms(1)] at_slot_read(1) [OF assms(1) _ assms(2)]) auto
  then show ?thesis by (simp add: fat16_read_file_def)
qed
section \<open>fat16_write_file\<close>

definition mk_entry :: "bytes \<Rightarrow> u16 \<Rightarrow> u32 \<Rightarrow> bytes" where
  "mk_entry nm c n = put16 (put16 (put16 ((nm @ replicate 21 0)[11 := 0x20]) 26 c) 28 (ucast n)) 30 (ucast (drop_bit 16 n))"

lemma overwrite_put16:
  "p + length e \<le> length b \<Longrightarrow> i + 1 < length e \<Longrightarrow> put16 (overwrite b p e) (p + i) v = overwrite b p (put16 e i v)"
  by (simp add: put16_def overwrite_def list_update_append min_def)

lemma overwrite_update:
  "p + length e \<le> length b \<Longrightarrow> i < length e \<Longrightarrow> (overwrite b p e)[p + i := v] = overwrite b p (e[i := v])"
  by (simp add: overwrite_def list_update_append min_def)

lemma overwrite_overwrite:
  "p + length e \<le> length b \<Longrightarrow> length xs \<le> length e \<Longrightarrow>
   overwrite (overwrite b p e) p xs = overwrite b p (xs @ drop (length xs) e)"
  by (simp add: overwrite_def)

lemma mk_entry_fields:
  assumes "length nm = 11"
  shows "length (mk_entry nm c n) = 32" "take 11 (mk_entry nm c n) = nm" "mk_entry nm c n ! 0 = nm ! 0"
    "ent_cluster (mk_entry nm c n) = c" "ent_size (mk_entry nm c n) = n" "mk_entry nm c n ! 11 = 0x20"
proof -
  show l: "length (mk_entry nm c n) = 32" using assms by (simp add: mk_entry_def)
  have low: "mk_entry nm c n ! i = (nm @ replicate 21 0)[11 := 0x20] ! i" if "i < 26" for i
    using that by (simp add: mk_entry_def nth_put16_other)
  then show "mk_entry nm c n ! 0 = nm ! 0" "mk_entry nm c n ! 11 = 0x20"
    using assms by (simp_all add: nth_append)
  show "take 11 (mk_entry nm c n) = nm"
    using assms l low by (intro nth_equalityI) (simp_all add: nth_append)
  show "ent_cluster (mk_entry nm c n) = c"
    using assms by (simp add: ent_cluster_def mk_entry_def get16_put16 get16_put16_other)
  have "ucast (ucast n :: u16) OR push_bit 16 (ucast (ucast (drop_bit 16 n) :: u16)) = n"
    by (rule bit_word_eqI) (auto simp: bit_simps)
  then show "ent_size (mk_entry nm c n) = n"
    using assms by (simp add: ent_size_def mk_entry_def get16_put16 get16_put16_other)
qed

lemma at_slot_write:
  assumes "layout_ok (vars st) (dev st)" "k < slots (vars st)" "str_at name 0 s"
  defines "e \<equiv> slot (vars st) (dev st) k"
  shows "\<not> free_slot e \<Longrightarrow> at_slot (write_body ram_io name c n) st k = Some (Inr (), st)"
    "free_slot e \<Longrightarrow> at_slot (write_body ram_io name c n) st k
       = Some (Inl 0, st\<lparr>dev := set_slot (vars st) k (mk_entry (fat83 s) c n) (dev st)\<rparr>)"
proof -
  let ?b = "dev st ! slot_sec (vars st) k" and ?p = "32 * (k mod 16)"
  note f = slot_fields [OF assms(1,2)]
  show "\<not> free_slot e \<Longrightarrow> at_slot (write_body ram_io name c n) st k = Some (Inr (), st)"
    using f(1) by (auto simp: at_slot_def write_body_def free_slot_def e_def)
  assume a: "free_slot e"
  let ?e1 = "fat83 s @ replicate 21 0"
  let ?e2 = "?e1[11 := 0x20]"
  have 0: "memset ?b ?p 0 32 = Some (overwrite ?b ?p (replicate 32 0))"
    using f(6) by (simp add: memset_ok overwrite_def)
  have 1: "to_fat_name name (overwrite ?b ?p (replicate 32 0)) ?p = Some (overwrite ?b ?p ?e1)"
    using to_fat_name_ok [OF assms(3), of ?p "overwrite ?b ?p (replicate 32 0)"] f(6) by (simp add: overwrite_overwrite)
  have 2: "aput (overwrite ?b ?p ?e1) (?p + 11) 0x20 = Some (overwrite ?b ?p ?e2)"
    using f(6) overwrite_update [of ?p ?e1 ?b 11] by simp
  have 3: "wr16 (overwrite ?b ?p ?e2) (?p + 26) c = Some (overwrite ?b ?p (put16 ?e2 26 c))"
    using f(6) overwrite_put16 [of ?p ?e2 ?b 26] by (simp add: wr16_in)
  have 4: "wr32 (overwrite ?b ?p (put16 ?e2 26 c)) (?p + 28) n = Some (overwrite ?b ?p (mk_entry (fat83 s) c n))"
    using f(6) overwrite_put16 [of ?p "put16 ?e2 26 c" ?b 28 "ucast n"]
      overwrite_put16 [of ?p "put16 (put16 ?e2 26 c) 28 (ucast n)" ?b 30 "ucast (drop_bit 16 n)"]
    by (simp add: wr32_def wr16_in mk_entry_def add.commute)
  have kd: "k div 16 < unat (root_dir_sectors (vars st))"
    using assms(2) by (simp add: slots_def less_mult_imp_div_less mult.commute)
  have lba: "unat (root_dir_start_lba (vars st) + of_nat (k div 16)) = slot_sec (vars st) k"
    using root_read(2) [OF assms(1) kd] by (simp add: slot_sec_def)
  have "write_sec ram_io (root_dir_start_lba (vars st) + of_nat (k div 16)) (overwrite ?b ?p (mk_entry (fat83 s) c n)) st
      = Some (st\<lparr>dev := set_slot (vars st) k (mk_entry (fat83 s) c n) (dev st)\<rparr>)"
    using lba slot_sec_bound [OF assms(1,2)] f(6) mk_entry_fields(1) [of "fat83 s" c n]
    by (subst ram_write) (simp_all add: set_slot_def)
  with a f(1) 0 1 2 3 4 show "at_slot (write_body ram_io name c n) st k
       = Some (Inl 0, st\<lparr>dev := set_slot (vars st) k (mk_entry (fat83 s) c n) (dev st)\<rparr>)"
    by (auto simp: at_slot_def write_body_def free_slot_def e_def)
qed

text \<open>The clusters a file of \<open>n\<close> bytes needs, at least one.\<close>

definition clusters_for :: "fat_vars \<Rightarrow> nat \<Rightarrow> nat" where
  "clusters_for g n = max 1 ((n + 512 * unat (sectors_per_cluster g) - 1) div (512 * unat (sectors_per_cluster g)))"

lemma ceil_bound: "0 < (c :: nat) \<Longrightarrow> n \<le> c * ((n + c - 1) div c)"
proof -
  assume c: "0 < c"
  have "n + c - 1 = c * ((n + c - 1) div c) + (n + c - 1) mod c" by simp
  moreover have "(n + c - 1) mod c < c" using c by simp
  ultimately show ?thesis using c by linarith
qed

lemma clusters_needed_word:
  fixes sz :: u32
  assumes "1 \<le> unat (sectors_per_cluster g)" "unat sz + 512 * unat (sectors_per_cluster g) < 2 ^ 32"
  defines "cb \<equiv> ucast (sectors_per_cluster g) * 512 :: u32"
  defines "q \<equiv> (sz + cb - 1) div cb"
  shows "unat cb = 512 * unat (sectors_per_cluster g)" "cb \<noteq> 0"
    "unat (if q = 0 then 1 else q) = clusters_for g (unat sz)" "unat (if q = 0 then 1 else q) * unat cb < 2 ^ 32"
    "unat sz \<le> 512 * (clusters_for g (unat sz) * unat (sectors_per_cluster g))"
proof -
  let ?c = "512 * unat (sectors_per_cluster g)"
  have "unat (sectors_per_cluster g) < 256" using unsigned_less [of "sectors_per_cluster g"] by simp
  moreover from this have "unat (ucast (sectors_per_cluster g) :: u32) = unat (sectors_per_cluster g)"
    by (simp add: unsigned_ucast_eq take_bit_nat_eq_self)
  ultimately show cb: "unat cb = ?c" by (simp add: cb_def unat_word_ariths)
  with assms(1) show cb0: "cb \<noteq> 0" by auto
  have "unat (sz + cb) = unat sz + ?c" using assms(2) cb by (simp add: unat_word_ariths)
  moreover have "sz + cb \<noteq> 0"
  proof
    assume "sz + cb = 0"
    then have "unat (sz + cb) = 0" by simp
    with calculation assms(1) show False by simp
  qed
  ultimately have m: "unat (sz + cb - 1) = unat sz + ?c - 1" by (simp add: unat_minus_one)
  have q: "unat q = (unat sz + ?c - 1) div ?c" by (simp add: q_def unat_div m cb)
  show u: "unat (if q = 0 then 1 else q) = clusters_for g (unat sz)"
    by (auto simp: clusters_for_def max_def q simp flip: unat_eq_0)
  have "unat q * ?c \<le> unat sz + ?c - 1" unfolding q by simp
  then have "unat q * unat cb < 2 ^ 32" unfolding cb using assms(2) by linarith
  moreover have "unat cb < 2 ^ 32" unfolding cb using assms(2) by linarith
  ultimately show "unat (if q = 0 then 1 else q) * unat cb < 2 ^ 32" by simp
  have "unat sz \<le> ?c * ((unat sz + ?c - 1) div ?c)" using assms(1) by (intro ceil_bound) simp
  also have "\<dots> \<le> ?c * clusters_for g (unat sz)" unfolding clusters_for_def by (intro mult_le_mono2) simp
  finally show "unat sz \<le> 512 * (clusters_for g (unat sz) * unat (sectors_per_cluster g))"
    by (simp add: mult.assoc mult.commute mult.left_commute)
qed

lemma free_clusters_length: "length (free_clusters g D) \<le> 2046"
proof -
  have "length (scan_from 2) = 2046" by (simp add: scan_from_def del: upt_rec_numeral)
  then show ?thesis by (metis free_clusters_def length_filter_le)
qed

text \<open>A successful write, from the state after the deletion.\<close>

lemma write_ok:
  assumes del: "fat16_delete_file ram_io name st = Some (r0, st1)"
    and g: "vars st1 = g" "layout_ok g (dev st1)" and nm: "str_at name 0 s" "fat83 s ! 0 \<noteq> 0xE5" "fat83 s ! 0 \<noteq> 0"
    and sz: "unat sz \<le> length data" "unat sz + 512 * unat (sectors_per_cluster g) < 2 ^ 32"
    and room: "clusters_for g (unat sz) \<le> length (free_clusters g (dev st1))"
      "\<forall>c \<in> set (take (clusters_for g (unat sz)) (free_clusters g (dev st1))). on_disk g (dev st1) c"
    and slot: "k0 < slots g" "free_slot (slot g (dev st1) k0)" "\<forall>k < k0. passes (fat83 s) (slot g (dev st1) k)"
      "\<forall>k < k0. \<not> free_slot (slot g (dev st1) k)"
  shows "\<exists>D'. fat16_write_file ram_io name data sz st = Some (0, st1\<lparr>dev := D'\<rparr>) \<and> layout_ok g D'
     \<and> length D' = length (dev st1) \<and> dir_find g D' (fat83 s) k0
     \<and> slot g D' k0 = mk_entry (fat83 s) (hd (free_clusters g (dev st1))) sz
     \<and> (\<forall>k < slots g. k \<noteq> k0 \<longrightarrow> slot g D' k = slot g (dev st1) k)
     \<and> (let cs = take (clusters_for g (unat sz)) (free_clusters g (dev st1)) in
          chained g D' cs
          \<and> (\<forall>c. unat c < 2048 \<and> c \<noteq> 0 \<and> c \<notin> set cs \<longrightarrow> fat_entry g D' 0 c = fat_entry g (dev st1) 0 c)
          \<and> (\<forall>i. unat (data_start_lba g) \<le> i \<and> (\<forall>x \<in> set cs. \<not> in_cluster g x i) \<longrightarrow> D' ! i = dev st1 ! i)
          \<and> (\<forall>j < length cs. \<forall>k < unat (sectors_per_cluster g).
               D' ! (clba g (cs ! j) + k) = file_sector (take (unat sz) data) (j * unat (sectors_per_cluster g) + k)))"
proof -
  let ?cb = "ucast (sectors_per_cluster g) * 512 :: u32"
  let ?q = "(sz + ?cb - 1) div ?cb"
  let ?nd = "if ?q = 0 then 1 else ?q"
  let ?fr = "free_clusters g (dev st1)"
  let ?m = "clusters_for g (unat sz)"
  have spc: "1 \<le> unat (sectors_per_cluster g)" using g(2) by (simp add: layout_ok_def)
  note w = clusters_needed_word [OF spc sz(2)]
  have m: "1 \<le> ?m" by (simp add: clusters_for_def)
  have ex: "\<exists>D1. write_clusters ram_io data sz ?cb ?nd 0 0 0 st1
       = Some (Some (if (0 :: u32) = 0 \<and> 0 < ?m then hd ?fr else 0), st1\<lparr>dev := D1\<rparr>)
     \<and> wrote g (take (unat sz) data) (unat (0 :: u32) * unat (sectors_per_cluster g)) 0 (take ?m ?fr) (dev st1) D1"
    by (rule write_clusters_ram [OF g sz(1) refl]) (use w room in auto)
  then obtain D1 where D1: "write_clusters ram_io data sz ?cb ?nd 0 0 0 st1 = Some (Some (hd ?fr), st1\<lparr>dev := D1\<rparr>)"
     "wrote g (take (unat sz) data) 0 0 (take ?m ?fr) (dev st1) D1"
    using m by auto
  then have l1: "layout_ok g D1" "length D1 = length (dev st1)" by (simp_all add: wrote_def)
  have root: "D1 ! i = dev st1 ! i" if "unat (root_dir_start_lba g) \<le> i" "i < unat (data_start_lba g)" for i
    using D1(2) that by (simp add: wrote_def)
  have sl: "slot g D1 k = slot g (dev st1) k" if "k < slots g" for k
    using root that by (intro slot_cong [OF g(2)]) auto
  let ?e = "mk_entry (fat83 s) (hd ?fr) sz"
  let ?D2 = "set_slot g k0 ?e D1"
  have e: "length ?e = 32" "take 11 ?e = fat83 s" "?e ! 0 = fat83 s ! 0"
    by (simp_all add: mk_entry_fields)
  note ss = set_slot_ok [OF l1(1) slot(1) e(1)]
  have scan: "dir_scan ram_io (write_body ram_io name (hd ?fr) sz) () (st1\<lparr>dev := D1\<rparr>)
      = Some (Inl 0, st1\<lparr>dev := ?D2\<rparr>)"
  proof (rule dir_scan_hit [where k = k0])
    fix k' assume "k' < k0"
    with slot sl [of k'] l1 g show "at_slot (write_body ram_io name (hd ?fr) sz) (st1\<lparr>dev := D1\<rparr>) k' = Some (Inr (), st1\<lparr>dev := D1\<rparr>)"
      by (intro at_slot_write(1) [OF _ _ nm(1)]) simp_all
  next
    show "at_slot (write_body ram_io name (hd ?fr) sz) (st1\<lparr>dev := D1\<rparr>) k0 = Some (Inl 0, st1\<lparr>dev := ?D2\<rparr>)"
      using at_slot_write(2) [of "st1\<lparr>dev := D1\<rparr>" k0 name s "hd ?fr" sz] slot sl [of k0] l1 g nm(1) by simp
  qed (use l1 g slot in simp_all)
  have wr: "fat16_write_file ram_io name data sz st = Some (0, st1\<lparr>dev := ?D2\<rparr>)"
    using del g(1) w(2) D1(1) scan by (simp add: fat16_write_file_def Let_def)
  have find: "dir_find g ?D2 (fat83 s) k0"
    using slot ss(3) sl nm e by (auto simp: dir_find_def matches_def)
  note r = layout_regions [OF g(2)]
  have fe: "fat_entry g ?D2 0 c = fat_entry g D1 0 c" if "unat c < 2048" for c
    using ss(4) r by (intro fat_entry_cong [OF l1(1) in_fat_small [OF l1(1) that]]) auto
  have cm: "2 \<le> unat c \<and> unat c < 2048" if "c \<in> set (take ?m ?fr)" for c
    using in_set_takeD [OF that] by (simp add: free_clusters_mem)
  have ch: "chained g ?D2 xs = chained g D1 xs" if "set xs \<subseteq> set (take ?m ?fr)" for xs
    using that by (induction xs) (auto simp: fe dest!: cm)
  have dat: "?D2 ! i = D1 ! i" if "unat (data_start_lba g) \<le> i" for i
    using ss(4) that by auto
  have "chained g ?D2 (take ?m ?fr)" using ch [of "take ?m ?fr"] D1(2) by (simp add: wrote_def)
  moreover have "\<forall>c. unat c < 2048 \<and> c \<noteq> 0 \<and> c \<notin> set (take ?m ?fr) \<longrightarrow> fat_entry g ?D2 0 c = fat_entry g (dev st1) 0 c"
    using D1(2) fe in_fat_small [OF g(2)] by (simp add: wrote_def)
  moreover have "\<forall>i. unat (data_start_lba g) \<le> i \<and> (\<forall>x \<in> set (take ?m ?fr). \<not> in_cluster g x i) \<longrightarrow> ?D2 ! i = dev st1 ! i"
    using D1(2) dat by (simp add: wrote_def)
  moreover have "\<forall>j < length (take ?m ?fr). \<forall>k < unat (sectors_per_cluster g).
       ?D2 ! (clba g (take ?m ?fr ! j) + k) = file_sector (take (unat sz) data) (j * unat (sectors_per_cluster g) + k)"
    using D1(2) dat unfolding wrote_def by (simp add: clba_def)
  moreover have "\<forall>k < slots g. k \<noteq> k0 \<longrightarrow> slot g ?D2 k = slot g (dev st1) k"
    using ss(3) sl by simp
  ultimately show ?thesis
    using wr find ss(1,2) ss(3) [OF slot(1)] l1(2) by (intro exI [of _ ?D2]) (simp add: Let_def)
qed

end
