(* ===== verification/Bh_FatVolume.thy ===== *)
theory Bh_FatVolume
  imports Bh_FatOps
begin

text \<open>
  The abstract file system: a map from 8.3 names to contents. \<open>volume\<close> is the invariant that
  ties it to the sectors: every used directory slot holds a file whose chain is proper, lies on
  the disk, shares no cluster with another file and holds the contents. Reading, deleting and
  writing are shown to be lookup, removal and update of that map; nothing happens to the other
  files.
\<close>

section \<open>Files in slots\<close>

definition file_at :: "fat_vars \<Rightarrow> bytes list \<Rightarrow> nat \<Rightarrow> bytes \<Rightarrow> bytes \<Rightarrow> u16 list \<Rightarrow> bool" where
  "file_at g D k nm data cs \<longleftrightarrow>
     take 11 (slot g D k) = nm \<and> ent_cluster (slot g D k) = hd cs \<and> unat (ent_size (slot g D k)) = length data
     \<and> cs \<noteq> [] \<and> distinct cs \<and> chained g D cs
     \<and> (\<forall>x \<in> set cs. on_disk g D x \<and> unat x < 2048)
     \<and> length data \<le> 512 * (length cs * unat (sectors_per_cluster g))
     \<and> (\<forall>j < length cs. \<forall>i < unat (sectors_per_cluster g).
          D ! (clba g (cs ! j) + i) = file_sector data (j * unat (sectors_per_cluster g) + i))"

type_synonym files = "nat \<Rightarrow> (bytes \<times> bytes \<times> u16 list) option"

definition volume :: "fat_vars \<Rightarrow> bytes list \<Rightarrow> files \<Rightarrow> bool" where
  "volume g D F \<longleftrightarrow> layout_ok g D
     \<and> (\<forall>k. F k \<noteq> None \<longrightarrow> k < slots g)
     \<and> (\<forall>k < slots g. F k = None \<longleftrightarrow> free_slot (slot g D k))
     \<and> (\<forall>k nm data cs. F k = Some (nm, data, cs) \<longrightarrow>
          file_at g D k nm data cs \<and> (\<forall>k' < k. slot g D k' ! 0 \<noteq> 0))
     \<and> (\<forall>k k' nm data cs nm' data' cs'. F k = Some (nm, data, cs) \<and> F k' = Some (nm', data', cs') \<and> k \<noteq> k' \<longrightarrow>
          nm \<noteq> nm' \<and> set cs \<inter> set cs' = {})"

definition contents :: "files \<Rightarrow> (bytes \<Rightarrow> bytes option) \<Rightarrow> bool" where
  "contents F M \<longleftrightarrow> (\<forall>nm data. M nm = Some data \<longleftrightarrow> (\<exists>k cs. F k = Some (nm, data, cs)))"

definition represents :: "fat_vars \<Rightarrow> bytes list \<Rightarrow> (bytes \<Rightarrow> bytes option) \<Rightarrow> bool" where
  "represents g D M \<longleftrightarrow> (\<exists>F. volume g D F \<and> contents F M)"

lemma volumeD:
  assumes "volume g D F"
  shows "layout_ok g D" "F k \<noteq> None \<Longrightarrow> k < slots g" "k < slots g \<Longrightarrow> F k = None \<longleftrightarrow> free_slot (slot g D k)"
    "F k = Some (nm, data, cs) \<Longrightarrow> file_at g D k nm data cs"
    "F k = Some (nm, data, cs) \<Longrightarrow> k' < k \<Longrightarrow> slot g D k' ! 0 \<noteq> 0"
    "F k = Some (nm, data, cs) \<Longrightarrow> F k' = Some (nm', data', cs') \<Longrightarrow> k \<noteq> k' \<Longrightarrow> nm \<noteq> nm' \<and> set cs \<inter> set cs' = {}"
proof -
  note v = assms [unfolded volume_def]
  show "layout_ok g D" "F k \<noteq> None \<Longrightarrow> k < slots g" "k < slots g \<Longrightarrow> F k = None \<longleftrightarrow> free_slot (slot g D k)"
    using v by simp_all
  have f: "\<forall>k nm data cs. F k = Some (nm, data, cs) \<longrightarrow> file_at g D k nm data cs \<and> (\<forall>k' < k. slot g D k' ! 0 \<noteq> 0)"
    by (rule v [THEN conjunct2, THEN conjunct2, THEN conjunct2, THEN conjunct1])
  then show "F k = Some (nm, data, cs) \<Longrightarrow> file_at g D k nm data cs"
    "F k = Some (nm, data, cs) \<Longrightarrow> k' < k \<Longrightarrow> slot g D k' ! 0 \<noteq> 0" by blast+
  show "F k = Some (nm, data, cs) \<Longrightarrow> F k' = Some (nm', data', cs') \<Longrightarrow> k \<noteq> k' \<Longrightarrow> nm \<noteq> nm' \<and> set cs \<inter> set cs' = {}"
    by (rule v [THEN conjunct2, THEN conjunct2, THEN conjunct2, THEN conjunct2, rule_format]) simp
qed

lemma file_at_cong:
  assumes "file_at g D k nm data cs" "slot g D' k = slot g D k" "length D' = length D"
    "\<And>x. x \<in> set cs \<Longrightarrow> fat_entry g D' 0 x = fat_entry g D 0 x"
    "\<And>x i. x \<in> set cs \<Longrightarrow> in_cluster g x i \<Longrightarrow> D' ! i = D ! i"
  shows "file_at g D' k nm data cs"
proof -
  have "chained g D' ys = chained g D ys" if "set ys \<subseteq> set cs" for ys
    using that by (induction ys) (auto simp: assms(4))
  moreover have "D' ! (clba g (cs ! j) + i) = D ! (clba g (cs ! j) + i)"
    if "j < length cs" "i < unat (sectors_per_cluster g)" for i j
    using that by (intro assms(5) [of "cs ! j"]) (simp_all add: in_cluster_def)
  ultimately show ?thesis using assms(1-3) by (simp add: file_at_def on_disk_def)
qed

lemma chained_used: "chained g D cs \<Longrightarrow> \<forall>x \<in> set cs. 2 \<le> unat x \<Longrightarrow> x \<in> set cs \<Longrightarrow> fat_entry g D 0 x \<noteq> 0"
proof (induction cs)
  case (Cons y ys)
  then have "unat (fat_entry g D 0 y) \<noteq> 0" by (cases ys) auto
  with Cons show ?case by auto
qed simp

lemma file_used:
  assumes "file_at g D k nm data cs" "x \<in> set cs"
  shows "2 \<le> unat x" "unat x < 2048" "fat_entry g D 0 x \<noteq> 0"
  using assms chained_used [of g D cs x] by (auto simp: file_at_def on_disk_def)

lemma file_not_free: "file_at g D k nm data cs \<Longrightarrow> set cs \<inter> set (free_clusters g D) = {}"
  using file_used(3) [of g D k nm data cs] by (auto simp: free_clusters_mem)

lemma file_size_bound:
  assumes "file_at g D k nm data cs"
  shows "length data < 2 ^ 31"
proof -
  have sub: "unat ` set cs \<subseteq> {2..<2048}" using file_used(1,2) [OF assms] by auto
  have "length cs = card (set cs)" using assms by (simp add: file_at_def distinct_card)
  also have "\<dots> = card (unat ` set cs)" by (rule card_image [symmetric]) (auto intro: inj_onI simp: word_unat_eq_iff)
  also have "\<dots> \<le> 2046" using card_mono [OF _ sub] by simp
  finally have "length cs \<le> 2046" .
  moreover have "unat (sectors_per_cluster g) < 256" using unsigned_less [of "sectors_per_cluster g"] by simp
  then have "unat (sectors_per_cluster g) \<le> 255" by linarith
  ultimately have "length cs * unat (sectors_per_cluster g) \<le> 2046 * 255" by (rule mult_le_mono)
  moreover have "length data \<le> 512 * (length cs * unat (sectors_per_cluster g))" using assms by (simp add: file_at_def)
  ultimately show ?thesis by simp
qed

section \<open>Reading\<close>

lemma sint_small:
  assumes "unat (n :: u32) < 2 ^ 31"
  shows "sint n = int (unat n)"
proof -
  have "sint n = signed_take_bit 31 (uint n)" by (subst sint_uint) simp
  also have "uint n = int (unat n)" by (rule uint_nat)
  also have "signed_take_bit 31 (int (unat n)) = int (unat n)"
  proof (rule signed_take_bit_int_eq_self)
    have "int (unat n) < int (2 ^ 31)" using assms by (simp only: of_nat_less_iff)
    then show "int (unat n) < 2 ^ 31" by (simp only: of_nat_power of_nat_numeral)
    have "- (2 ^ 31) \<le> (0 :: int)" by simp
    also have "0 \<le> int (unat n)" by (rule of_nat_0_le_iff)
    finally show "- (2 ^ 31) \<le> int (unat n)" .
  qed
  finally show ?thesis .
qed

lemma read_file_at:
  assumes "layout_ok (vars st) (dev st)" "file_at (vars st) (dev st) k nm data cs"
    "m = min (length data) (unat bsz)" "m \<le> length buf"
  shows "read_chain ram_io (ent_size (slot (vars st) (dev st) k)) bsz (ent_cluster (slot (vars st) (dev st) k)) 0 buf st
    = Some ((of_nat m, take m data @ drop m buf), st)"
proof -
  have f: "filled data buf 0 = buf" "\<And>n. filled data buf n = take n data @ drop n buf"
    by (simp_all add: filled_def)
  show ?thesis
    using read_chain_ram [OF refl assms(1), of "ent_size (slot (vars st) (dev st) k)" data m bsz buf cs 0 0] assms(2-4)
    by (simp add: file_at_def f)
qed

text \<open>What a scan for a name meets.\<close>

lemma volume_find:
  assumes v: "volume g D F" and k: "F k = Some (nm, data, cs)"
  shows "dir_find g D nm k"
proof -
  note d = volumeD [OF v]
  have f: "take 11 (slot g D k) = nm" "\<not> free_slot (slot g D k)" "k < slots g"
    using d(2) [of k] d(3) [of k] d(4) [OF k] k by (auto simp: file_at_def)
  have "passes nm (slot g D k')" if "k' < k" for k'
  proof -
    have n0: "slot g D k' ! 0 \<noteq> 0" by (rule d(5) [OF k that])
    show ?thesis
    proof (cases "F k'")
      case None
      with d(3) [of k'] f(3) that n0 show ?thesis by (auto simp: passes_def free_slot_def)
    next
      case (Some t)
      then obtain nm' data' cs' where "F k' = Some (nm', data', cs')" by (cases t) auto
      with d(4) [OF this] d(6) [OF k this] that n0 show ?thesis by (auto simp: passes_def file_at_def)
    qed
  qed
  with f show ?thesis by (auto simp: dir_find_def matches_def free_slot_def)
qed

lemma volume_absent:
  assumes v: "volume g D F" and nm: "\<And>k data cs. F k \<noteq> Some (nm, data, cs)"
  shows "dir_absent g D nm"
proof -
  have False if f: "dir_find g D nm k" for k
  proof -
    from f have "k < slots g" "\<not> free_slot (slot g D k)" "take 11 (slot g D k) = nm"
      by (auto simp: dir_find_def matches_def free_slot_def)
    moreover from this obtain nm' data' cs' where F: "F k = Some (nm', data', cs')"
      using volumeD(3) [OF v, of k] by (cases "F k") auto
    ultimately have "nm' = nm" using volumeD(4) [OF v F] by (simp add: file_at_def)
    with F nm show False by simp
  qed
  then show ?thesis by (auto simp: dir_absent_def)
qed


section \<open>Deleting\<close>

text \<open>A change that leaves the sectors and entries of the files of \<open>F\<close> alone keeps the volume.\<close>

lemma volume_change:
  assumes v: "volume g D F" and l: "layout_ok g D'" "length D' = length D"
    and s: "\<And>k. k < slots g \<Longrightarrow> slot g D' k = (if k = k0 then e else slot g D k)"
    and e: "k0 < slots g" "e ! 0 \<noteq> 0" "f = None \<longleftrightarrow> free_slot e"
    and fe: "\<And>k nm data cs x. F k = Some (nm, data, cs) \<Longrightarrow> k \<noteq> k0 \<Longrightarrow> x \<in> set cs \<Longrightarrow> fat_entry g D' 0 x = fat_entry g D 0 x"
    and dat: "\<And>k nm data cs x i. F k = Some (nm, data, cs) \<Longrightarrow> k \<noteq> k0 \<Longrightarrow> x \<in> set cs \<Longrightarrow> in_cluster g x i \<Longrightarrow> D' ! i = D ! i"
    and new: "\<And>nm data cs. f = Some (nm, data, cs) \<Longrightarrow> file_at g D' k0 nm data cs \<and> (\<forall>k < k0. slot g D k ! 0 \<noteq> 0)
       \<and> (\<forall>k nm' data' cs'. F k = Some (nm', data', cs') \<and> k \<noteq> k0 \<longrightarrow> nm \<noteq> nm' \<and> set cs \<inter> set cs' = {})"
  shows "volume g D' (F(k0 := f))"
proof -
  note d = volumeD [OF v]
  have old: "file_at g D' k nm data cs" if "F k = Some (nm, data, cs)" "k \<noteq> k0" for k nm data cs
    using d(2) [of k] s [of k] that l(2) fe [OF that] dat [OF that] by (intro file_at_cong [OF d(4) [OF that(1)]]) auto
  have mark: "slot g D' k' ! 0 \<noteq> 0" if "F k = Some (nm, data, cs)" "k \<noteq> k0" "k' < k" for k k' nm data cs
    using d(2) [of k] d(5) [OF that(1,3)] s [of k'] e(2) that by (cases "k' = k0") auto
  have mark0: "slot g D' k ! 0 \<noteq> 0" if "f = Some (nm, data, cs)" "k < k0" for k nm data cs
    using new [OF that(1)] s [of k] that(2) e(1) by auto
  have free: "(F(k0 := f)) k = None \<longleftrightarrow> free_slot (slot g D' k)" if "k < slots g" for k
    using d(3) [OF that] s [OF that] e(3) by simp
  have used: "file_at g D' k nm data cs \<and> (\<forall>k' < k. slot g D' k' ! 0 \<noteq> 0)"
    if "(F(k0 := f)) k = Some (nm, data, cs)" for k nm data cs
  proof (cases "k = k0")
    case True
    with that have "f = Some (nm, data, cs)" by simp
    with True new [OF this] mark0 [OF this] show ?thesis by blast
  next
    case False
    with that have "F k = Some (nm, data, cs)" by simp
    with False old [OF this] mark [OF this] show ?thesis by blast
  qed
  have new_apart: "nm \<noteq> nm' \<and> set cs \<inter> set cs' = {}"
    if "f = Some (nm, data, cs)" "F k = Some (nm', data', cs')" "k \<noteq> k0" for k nm data cs nm' data' cs'
    using new [OF that(1)] that(2,3) by blast
  have apart: "nm \<noteq> nm' \<and> set cs \<inter> set cs' = {}"
    if "(F(k0 := f)) k = Some (nm, data, cs)" "(F(k0 := f)) k' = Some (nm', data', cs')" "k \<noteq> k'"
    for k k' nm data cs nm' data' cs'
  proof (cases "k = k0")
    case True
    with that new_apart [of nm data cs k' nm' data' cs'] show ?thesis by simp
  next
    case False
    note ne = this
    show ?thesis
    proof (cases "k' = k0")
      case True
      with that ne have "nm' \<noteq> nm \<and> set cs' \<inter> set cs = {}" by (intro new_apart [of nm' data' cs' k nm data cs]) simp_all
      then show ?thesis by blast
    next
      case False
      with that ne show ?thesis by (intro d(6) [of k nm data cs k' nm' data' cs']) simp_all
    qed
  qed
  have bound: "(F(k0 := f)) k \<noteq> None \<Longrightarrow> k < slots g" for k
    using d(2) [of k] e(1) by (cases "k = k0") auto
  show ?thesis
    unfolding volume_def
  proof (intro conjI allI impI)
    fix k nm data cs assume "(F(k0 := f)) k = Some (nm, data, cs)"
    from used [OF this] show "file_at g D' k nm data cs" "\<And>k'. k' < k \<Longrightarrow> slot g D' k' ! 0 \<noteq> 0" by blast+
  next
    fix k k' nm data cs nm' data' cs'
    assume a: "(F(k0 := f)) k = Some (nm, data, cs) \<and> (F(k0 := f)) k' = Some (nm', data', cs') \<and> k \<noteq> k'"
    from apart [OF a [THEN conjunct1] a [THEN conjunct2, THEN conjunct1] a [THEN conjunct2, THEN conjunct2]]
    show "nm \<noteq> nm'" "set cs \<inter> set cs' = {}" by (rule conjunct1, rule conjunct2)
  qed (fact l(1), erule bound, erule free)
qed

lemma delete_volume:
  assumes v: "volume (vars st) (dev st) F" and nm: "str_at name 0 s" and k: "F k = Some (fat83 s, data, cs)"
  shows "\<exists>D'. fat16_delete_file ram_io name st = Some (0, st\<lparr>dev := D'\<rparr>) \<and> volume (vars st) D' (F(k := None))
     \<and> length D' = length (dev st)
     \<and> (\<forall>c. unat c < 2048 \<longrightarrow> fat_entry (vars st) D' 0 c = (if c \<in> set cs then 0 else fat_entry (vars st) (dev st) 0 c))"
proof -
  let ?g = "vars st" and ?D = "dev st"
  note d = volumeD [OF v]
  note f = d(4) [OF k]
  have ks: "k < slots ?g" using d(2) [of k] k by simp
  let ?e = "(slot ?g ?D k)[0 := 0xE5]"
  have e: "length ?e = 32" "?e ! 0 = 0xE5" using slot_nth(2) [OF d(1) ks, of 0] by simp_all
  obtain D1 where D1: "delete_chain ram_io (ent_cluster (slot ?g ?D k)) st = Some (st\<lparr>dev := D1\<rparr>)" "cleared ?g ?D D1"
     "\<forall>c. unat c < 2048 \<longrightarrow> fat_entry ?g D1 0 c = (if c \<in> set cs then 0 else fat_entry ?g ?D 0 c)"
    using delete_chain_exact [OF d(1), of cs] f file_used(1,2) [OF f] by (auto simp: file_at_def)
  have l: "layout_ok ?g D1" "length D1 = length ?D" using D1(2) by (simp_all add: cleared_def)
  let ?D2 = "set_slot ?g k ?e D1"
  note ss = set_slot_ok [OF l(1) ks e(1)]
  note r = layout_regions [OF d(1)]
  have fe: "fat_entry ?g ?D2 0 c = (if c \<in> set cs then 0 else fat_entry ?g ?D 0 c)" if "unat c < 2048" for c
  proof -
    have "fat_entry ?g ?D2 0 c = fat_entry ?g D1 0 c"
      using ss(4) r by (intro fat_entry_cong [OF l(1) in_fat_small [OF l(1) that]]) auto
    with D1(3) that show ?thesis by simp
  qed
  have dat: "?D2 ! i = ?D ! i" if "unat (data_start_lba ?g) \<le> i" for i
    using ss(4) [of i] D1(2) r that by (simp add: cleared_def)
  have "volume ?g ?D2 (F(k := None))"
  proof (rule volume_change [OF v ss(1) _ _ ks])
    show "slot ?g ?D2 k' = (if k' = k then ?e else slot ?g ?D k')" if "k' < slots ?g" for k'
      using ss(3) [OF that] slot_cleared [OF D1(2) d(1) that] by simp
    fix k' nm' data' cs' x assume o: "F k' = Some (nm', data', cs')" "k' \<noteq> k" "x \<in> set cs'"
    note f' = d(4) [OF o(1)]
    show "fat_entry ?g ?D2 0 x = fat_entry ?g ?D 0 x"
      using fe file_used(2) [OF f' o(3)] d(6) [OF k o(1)] o by auto
    show "?D2 ! i = ?D ! i" if "in_cluster ?g x i" for i
      using clba_data [of ?g ?D x] f' o(3) that by (intro dat) (auto simp: file_at_def in_cluster_def)
  qed (use e l ss(2) in \<open>simp_all add: free_slot_def\<close>)
  with delete_hit [OF d(1) nm volume_find [OF v k] D1(1,2)] fe ss(2) l(2) show ?thesis
    by (intro exI [of _ ?D2]) simp
qed

lemma free_after:
  assumes "\<forall>c. unat c < 2048 \<longrightarrow> fat_entry g D' 0 c = (if c \<in> set cs then 0 else fat_entry g D 0 c)"
    "\<forall>x \<in> set cs. 2 \<le> unat x \<and> unat x < 2048"
  shows "set (free_clusters g D') = set (free_clusters g D) \<union> set cs"
  using assms by (auto simp: free_clusters_mem)


section \<open>Writing\<close>

lemma first_free_slot:
  assumes v: "volume g D F" and nm: "\<And>k data cs. F k \<noteq> Some (nm, data, cs)" and ex: "\<exists>k < slots g. F k = None"
  obtains k0 where "k0 < slots g" "free_slot (slot g D k0)" "\<forall>k < k0. passes nm (slot g D k)"
    "\<forall>k < k0. \<not> free_slot (slot g D k)"
proof
  define k0 where "k0 = (LEAST k. k < slots g \<and> F k = None)"
  note d = volumeD [OF v]
  have k0: "k0 < slots g \<and> F k0 = None" unfolding k0_def by (rule LeastI_ex [OF ex])
  then show "k0 < slots g" "free_slot (slot g D k0)" using d(3) by auto
  have used: "\<exists>nm' data' cs'. F k = Some (nm', data', cs')" if "k < k0" for k
  proof -
    have "\<not> (k < slots g \<and> F k = None)" using not_less_Least [OF that [unfolded k0_def]] .
    with that k0 have "F k \<noteq> None" by auto
    then show ?thesis by (cases "F k") auto
  qed
  have both: "\<not> free_slot (slot g D k) \<and> passes nm (slot g D k)" if lt: "k < k0" for k
  proof -
    obtain nm' data' cs' where F: "F k = Some (nm', data', cs')" using used [OF lt] by blast
    then have "\<not> free_slot (slot g D k)" using d(2) [of k] d(3) [of k] by simp
    moreover have "take 11 (slot g D k) \<noteq> nm" using d(4) [OF F] F nm by (auto simp: file_at_def)
    ultimately show ?thesis by (simp add: passes_def free_slot_def)
  qed
  then show "\<forall>k < k0. passes nm (slot g D k)" "\<forall>k < k0. \<not> free_slot (slot g D k)" by blast+
qed

lemma fat_upper_nonzero: "c \<noteq> 0 \<Longrightarrow> fat_upper c \<noteq> 0"
  by (auto simp: fat_upper_def word_le_nat_alt)

lemma fat83_start: "0 \<notin> set s \<Longrightarrow> fat83 s ! 0 \<noteq> 0"
proof -
  assume "0 \<notin> set s"
  then have "0 \<notin> set (base_part s)" by (auto simp: base_part_def dest: set_takeWhileD)
  moreover have "fat83 s ! 0 = (case base_part s of [] \<Rightarrow> 32 | c # _ \<Rightarrow> fat_upper c)"
    by (cases "base_part s") (simp_all add: fat83_def pad_to_def nth_append)
  ultimately show ?thesis by (cases "base_part s") (auto simp: fat_upper_nonzero)
qed

lemma write_volume:
  assumes del: "fat16_delete_file ram_io name st = Some (r0, st1)" and g: "vars st1 = g"
    and v: "volume g (dev st1) F" and nm: "str_at name 0 s" "fat83 s ! 0 \<noteq> 0xE5"
    and new: "\<And>k data cs. F k \<noteq> Some (fat83 s, data, cs)" and slot: "\<exists>k < slots g. F k = None"
    and sz: "unat sz \<le> length data" "unat sz + 512 * unat (sectors_per_cluster g) < 2 ^ 32"
    and room: "clusters_for g (unat sz) \<le> length (free_clusters g (dev st1))"
      "\<forall>c \<in> set (take (clusters_for g (unat sz)) (free_clusters g (dev st1))). on_disk g (dev st1) c"
  shows "\<exists>D' k0. fat16_write_file ram_io name data sz st = Some (0, st1\<lparr>dev := D'\<rparr>) \<and> F k0 = None
     \<and> volume g D' (F(k0 := Some (fat83 s, take (unat sz) data, take (clusters_for g (unat sz)) (free_clusters g (dev st1)))))
     \<and> length D' = length (dev st1)
     \<and> (\<forall>c. unat c < 2048 \<and> c \<noteq> 0 \<and> c \<notin> set (take (clusters_for g (unat sz)) (free_clusters g (dev st1))) \<longrightarrow>
          fat_entry g D' 0 c = fat_entry g (dev st1) 0 c)"
proof -
  let ?D = "dev st1"
  let ?cs = "take (clusters_for g (unat sz)) (free_clusters g ?D)"
  note d = volumeD [OF v]
  have nz: "fat83 s ! 0 \<noteq> 0" using nm(1) by (intro fat83_start) (simp add: str_at_def)
  obtain k0 where k0: "k0 < slots g" "free_slot (slot g ?D k0)" "\<forall>k < k0. passes (fat83 s) (slot g ?D k)"
      "\<forall>k < k0. \<not> free_slot (slot g ?D k)"
    using first_free_slot [OF v new slot] by metis
  let ?e = "mk_entry (fat83 s) (hd (free_clusters g ?D)) sz"
  obtain D' where wr: "fat16_write_file ram_io name data sz st = Some (0, st1\<lparr>dev := D'\<rparr>)"
    and l: "layout_ok g D'" "length D' = length ?D" and e: "slot g D' k0 = ?e"
    and others: "\<forall>k < slots g. k \<noteq> k0 \<longrightarrow> slot g D' k = slot g ?D k"
    and ch: "chained g D' ?cs"
    and fe: "\<forall>c. unat c < 2048 \<and> c \<noteq> 0 \<and> c \<notin> set ?cs \<longrightarrow> fat_entry g D' 0 c = fat_entry g ?D 0 c"
    and dat: "\<forall>i. unat (data_start_lba g) \<le> i \<and> (\<forall>x \<in> set ?cs. \<not> in_cluster g x i) \<longrightarrow> D' ! i = ?D ! i"
    and sec: "\<forall>j < length ?cs. \<forall>k < unat (sectors_per_cluster g).
               D' ! (clba g (?cs ! j) + k) = file_sector (take (unat sz) data) (j * unat (sectors_per_cluster g) + k)"
    using write_ok [OF del g d(1) nm nz sz room k0] unfolding Let_def by blast
  have spc: "1 \<le> unat (sectors_per_cluster g)" using d(1) by (simp add: layout_ok_def)
  have m: "1 \<le> clusters_for g (unat sz)" by (simp add: clusters_for_def)
  have lc: "length ?cs = clusters_for g (unat sz)" using room(1) by simp
  have cf: "x \<in> set (free_clusters g ?D)" if "x \<in> set ?cs" for x using in_set_takeD [OF that] .
  have fa: "file_at g D' k0 (fat83 s) (take (unat sz) data) ?cs"
    unfolding file_at_def
  proof (intro conjI)
    show "take 11 (slot g D' k0) = fat83 s" "unat (ent_size (slot g D' k0)) = length (take (unat sz) data)"
      using sz(1) by (simp_all add: e mk_entry_fields)
    show "?cs \<noteq> []" using m lc by auto
    then show "ent_cluster (slot g D' k0) = hd ?cs" using m by (simp add: e mk_entry_fields)
    show "distinct ?cs" by (rule distinct_take) (rule distinct_free)
    show "\<forall>x \<in> set ?cs. on_disk g D' x \<and> unat x < 2048"
      using room(2) cf l(2) by (auto simp: on_disk_def free_clusters_mem)
    show "length (take (unat sz) data) \<le> 512 * (length ?cs * unat (sectors_per_cluster g))"
      using clusters_needed_word(5) [OF spc sz(2)] sz(1) lc by simp
  qed (fact ch sec)+
  have "volume g D' (F(k0 := Some (fat83 s, take (unat sz) data, ?cs)))"
  proof (rule volume_change [OF v l _ k0(1)])
    show "slot g D' k = (if k = k0 then ?e else slot g ?D k)" if "k < slots g" for k
      using e others that by simp
    fix k nm' data' cs' x assume o: "F k = Some (nm', data', cs')" "k \<noteq> k0" "x \<in> set cs'"
    note f' = d(4) [OF o(1)]
    have nx: "x \<notin> set ?cs" using file_not_free [OF f'] o(3) cf by auto
    show "fat_entry g D' 0 x = fat_entry g ?D 0 x"
      using fe file_used(1,2) [OF f' o(3)] nx by auto
    have ox: "on_disk g ?D x" using f' o(3) by (simp add: file_at_def)
    show "D' ! i = ?D ! i" if "in_cluster g x i" for i
    proof -
      have "\<not> in_cluster g y i" if "y \<in> set ?cs" for y
        using nx that \<open>in_cluster g x i\<close> room(2) by (intro clusters_apart [OF ox]) auto
      then show ?thesis using dat clba_data [OF ox] that by (auto simp: in_cluster_def)
    qed
  next
    show "?e ! 0 \<noteq> 0" "Some (fat83 s, take (unat sz) data, ?cs) = None \<longleftrightarrow> free_slot ?e"
      using nz nm(2) by (simp_all add: mk_entry_fields free_slot_def)
  next
    have "\<forall>k < k0. slot g ?D k ! 0 \<noteq> 0" using k0(3) by (simp add: passes_def)
    moreover have "set ?cs \<inter> set cs' = {}" if "F k = Some (nm', data', cs')" for k nm' data' cs'
      using file_not_free [OF d(4) [OF that]] cf by blast
    moreover have "fat83 s \<noteq> nm'" if "F k = Some (nm', data', cs')" for k nm' data' cs'
      using new that by blast
    ultimately show "file_at g D' k0 nm' data' cs' \<and> (\<forall>k < k0. slot g ?D k ! 0 \<noteq> 0)
       \<and> (\<forall>k nm'' data'' cs''. F k = Some (nm'', data'', cs'') \<and> k \<noteq> k0 \<longrightarrow> nm' \<noteq> nm'' \<and> set cs' \<inter> set cs'' = {})"
      if "Some (fat83 s, take (unat sz) data, ?cs) = Some (nm', data', cs')" for nm' data' cs'
      using fa that by blast
  qed
  moreover have "F k0 = None" using d(3) [OF k0(1)] k0(2) by simp
  ultimately show ?thesis using wr l(2) fe by blast
qed


text \<open>A write that does not fit.\<close>

lemma volume_frame:
  assumes v: "volume g D F" and l: "layout_ok g D'" "length D' = length D"
    and s: "\<And>k. k < slots g \<Longrightarrow> slot g D' k = slot g D k"
    and fe: "\<And>k nm data cs x. F k = Some (nm, data, cs) \<Longrightarrow> x \<in> set cs \<Longrightarrow> fat_entry g D' 0 x = fat_entry g D 0 x"
    and dat: "\<And>k nm data cs x i. F k = Some (nm, data, cs) \<Longrightarrow> x \<in> set cs \<Longrightarrow> in_cluster g x i \<Longrightarrow> D' ! i = D ! i"
  shows "volume g D' F"
proof -
  note d = volumeD [OF v]
  show ?thesis
    unfolding volume_def
  proof (intro conjI allI impI)
    show "F k \<noteq> None \<Longrightarrow> k < slots g" for k by (rule d(2))
    show "F k = None \<longleftrightarrow> free_slot (slot g D' k)" if "k < slots g" for k using d(3) [OF that] s [OF that] by simp
  next
    fix k nm data cs assume f: "F k = Some (nm, data, cs)"
    then have k: "k < slots g" using d(2) [of k] by simp
    show "file_at g D' k nm data cs" by (rule file_at_cong [OF d(4) [OF f] s [OF k] l(2) fe [OF f] dat [OF f]])
    show "slot g D' k' ! 0 \<noteq> 0" if "k' < k" for k' using d(5) [OF f that] s [of k'] that k by simp
  next
    fix k k' nm data cs nm' data' cs'
    assume "F k = Some (nm, data, cs) \<and> F k' = Some (nm', data', cs') \<and> k \<noteq> k'"
    with d(6) [of k nm data cs k' nm' data' cs'] show "nm \<noteq> nm'" "set cs \<inter> set cs' = {}" by simp_all
  qed (fact l(1))
qed

text \<open>Allocating and filling free clusters leaves the files where they are.\<close>

lemma wrote_volume:
  assumes v: "volume g D F" and w: "wrote g data 0 0 cs D D'"
    and cs: "set cs \<subseteq> set (free_clusters g D)" "\<forall>c \<in> set cs. on_disk g D c"
  shows "volume g D' F"
proof (rule volume_frame [OF v])
  note d = volumeD [OF v]
  show "layout_ok g D'" "length D' = length D" using w by (simp_all add: wrote_def)
  show "slot g D' k = slot g D k" if "k < slots g" for k
    using w that by (intro slot_cong [OF d(1)]) (auto simp: wrote_def)
  fix k nm data' cs' x assume f: "F k = Some (nm, data', cs')" "x \<in> set cs'"
  note fa = d(4) [OF f(1)]
  have nx: "x \<notin> set cs" using file_not_free [OF fa] f(2) cs(1) by blast
  have "x \<noteq> 0" using file_used(1) [OF fa f(2)] by auto
  then show "fat_entry g D' 0 x = fat_entry g D 0 x"
    using w nx in_fat_small [OF d(1) file_used(2) [OF fa f(2)]] by (simp add: wrote_def)
  have ox: "on_disk g D x" using fa f(2) by (simp add: file_at_def)
  show "D' ! i = D ! i" if ic: "in_cluster g x i" for i
  proof -
    have "\<not> in_cluster g y i" if "y \<in> set cs" for y
      using nx that cs(2) by (intro clusters_apart [OF ox _ _ ic]) auto
    then show ?thesis using w clba_data [OF ox] ic by (simp add: wrote_def in_cluster_def)
  qed
qed

lemma say_plain:
  "0 \<notin> set (ascii m) \<Longrightarrow> \<exists>t. render (ascii m) [] = Some t \<Longrightarrow> \<exists>v. say m [] (st :: 'd fs) = Some (st\<lparr>scr := v\<rparr>)"
  using printf_render [of "ascii m" "[]" "scr st"] by (auto simp: say_def lit_def)

lemma say_disk_full: "\<exists>v. say (''[FAT16] ERROR: Disk full!'' @ [CHR 0x0A]) [] (st :: 'd fs) = Some (st\<lparr>scr := v\<rparr>)"
  by (rule say_plain) (simp_all add: ascii_def)

lemma say_root_full:
  "\<exists>v. say (''[FAT16] ERROR: Root directory full!'' @ [CHR 0x0A]) [] (st :: 'd fs) = Some (st\<lparr>scr := v\<rparr>)"
  by (rule say_plain) (simp_all add: ascii_def)

lemma write_full_volume:
  assumes del: "fat16_delete_file ram_io name st = Some (r0, st1)" and g: "vars st1 = g"
    and v: "volume g (dev st1) F"
    and sz: "unat sz \<le> length data" "unat sz + 512 * unat (sectors_per_cluster g) < 2 ^ 32"
    and full: "length (free_clusters g (dev st1)) < clusters_for g (unat sz)"
      "\<forall>c \<in> set (free_clusters g (dev st1)). on_disk g (dev st1) c"
  shows "\<exists>D' w. fat16_write_file ram_io name data sz st = Some (- 1, st1\<lparr>dev := D', scr := w\<rparr>)
     \<and> volume g D' F \<and> length D' = length (dev st1) \<and> free_clusters g D' = []"
proof -
  let ?D = "dev st1"
  let ?cb = "ucast (sectors_per_cluster g) * 512 :: u32"
  let ?q = "(sz + ?cb - 1) div ?cb"
  let ?nd = "if ?q = 0 then 1 else ?q"
  note d = volumeD [OF v]
  have spc: "1 \<le> unat (sectors_per_cluster g)" using d(1) by (simp add: layout_ok_def)
  note w = clusters_needed_word [OF spc sz(2)]
  have "\<exists>D'. write_clusters ram_io data sz ?cb ?nd 0 0 0 st1 = Some (None, st1\<lparr>dev := D'\<rparr>)
     \<and> free_clusters g D' = []
     \<and> wrote g (take (unat sz) data) (unat (0 :: u32) * unat (sectors_per_cluster g)) 0 (free_clusters g ?D) ?D D'"
    by (rule write_clusters_full [OF g d(1) sz(1) refl]) (use w full in auto)
  then obtain D' where D': "write_clusters ram_io data sz ?cb ?nd 0 0 0 st1 = Some (None, st1\<lparr>dev := D'\<rparr>)"
     "free_clusters g D' = []" "wrote g (take (unat sz) data) 0 0 (free_clusters g ?D) ?D D'" by auto
  obtain w' where "say (''[FAT16] ERROR: Disk full!'' @ [CHR 0x0A]) [] (st1\<lparr>dev := D'\<rparr>) = Some (st1\<lparr>dev := D', scr := w'\<rparr>)"
    using say_disk_full [of "st1\<lparr>dev := D'\<rparr>"] by auto
  then have "fat16_write_file ram_io name data sz st = Some (- 1, st1\<lparr>dev := D', scr := w'\<rparr>)"
    using del g(1) w(2) D'(1) by (simp add: fat16_write_file_def Let_def)
  with wrote_volume [OF v D'(3) _ full(2)] D'(2,3) show ?thesis by (auto simp: wrote_def)
qed

text \<open>A write that finds every directory slot taken: the clusters are allocated and filled all the same.\<close>

lemma write_no_slot_volume:
  assumes del: "fat16_delete_file ram_io name st = Some (r0, st1)" and g: "vars st1 = g"
    and v: "volume g (dev st1) F" and nm: "str_at name 0 s" and taken: "\<forall>k < slots g. F k \<noteq> None"
    and sz: "unat sz \<le> length data" "unat sz + 512 * unat (sectors_per_cluster g) < 2 ^ 32"
    and room: "clusters_for g (unat sz) \<le> length (free_clusters g (dev st1))"
      "\<forall>c \<in> set (take (clusters_for g (unat sz)) (free_clusters g (dev st1))). on_disk g (dev st1) c"
  shows "\<exists>D' w. fat16_write_file ram_io name data sz st = Some (- 1, st1\<lparr>dev := D', scr := w\<rparr>)
     \<and> volume g D' F \<and> length D' = length (dev st1)"
proof -
  let ?D = "dev st1"
  let ?cb = "ucast (sectors_per_cluster g) * 512 :: u32"
  let ?q = "(sz + ?cb - 1) div ?cb"
  let ?nd = "if ?q = 0 then 1 else ?q"
  let ?cs = "take (clusters_for g (unat sz)) (free_clusters g ?D)"
  note d = volumeD [OF v]
  have spc: "1 \<le> unat (sectors_per_cluster g)" using d(1) by (simp add: layout_ok_def)
  note w = clusters_needed_word [OF spc sz(2)]
  have "\<exists>D'. write_clusters ram_io data sz ?cb ?nd 0 0 0 st1
       = Some (Some (if (0 :: u32) = 0 \<and> 0 < clusters_for g (unat sz) then hd (free_clusters g ?D) else 0), st1\<lparr>dev := D'\<rparr>)
     \<and> wrote g (take (unat sz) data) (unat (0 :: u32) * unat (sectors_per_cluster g)) 0 ?cs ?D D'"
    by (rule write_clusters_ram [OF g d(1) sz(1) refl]) (use w room in auto)
  then obtain c D' where D': "write_clusters ram_io data sz ?cb ?nd 0 0 0 st1 = Some (Some c, st1\<lparr>dev := D'\<rparr>)"
     "wrote g (take (unat sz) data) 0 0 ?cs ?D D'" by auto
  have v': "volume g D' F" by (rule wrote_volume [OF v D'(2) _ room(2)]) (rule set_take_subset)
  note d' = volumeD [OF v']
  have "dir_scan ram_io (write_body ram_io name c sz) () (st1\<lparr>dev := D'\<rparr>) = Some (Inr (), st1\<lparr>dev := D'\<rparr>)"
  proof (rule dir_scan_miss)
    fix k assume "k < slots (vars (st1\<lparr>dev := D'\<rparr>))"
    then show "at_slot (write_body ram_io name c sz) (st1\<lparr>dev := D'\<rparr>) k = Some (Inr (), st1\<lparr>dev := D'\<rparr>)"
      using d'(1,3) g taken by (intro at_slot_write(1) [OF _ _ nm]) auto
  qed (use d'(1) g in simp)
  moreover obtain w' where "say (''[FAT16] ERROR: Root directory full!'' @ [CHR 0x0A]) [] (st1\<lparr>dev := D'\<rparr>)
      = Some (st1\<lparr>dev := D', scr := w'\<rparr>)"
    using say_root_full [of "st1\<lparr>dev := D'\<rparr>"] by auto
  ultimately have "fat16_write_file ram_io name data sz st = Some (- 1, st1\<lparr>dev := D', scr := w'\<rparr>)"
    using del g(1) w(2) D'(1) by (simp add: fat16_write_file_def Let_def)
  with v' D'(2) show ?thesis by (auto simp: wrote_def)
qed

text \<open>The free list only grows by a deletion, so that room before it is room after it.\<close>

lemma take_filter_mono:
  assumes "sorted_wrt (\<lambda>x y. f x \<le> (f y :: nat)) xs" "\<And>x. x \<in> set xs \<Longrightarrow> P x \<Longrightarrow> Q x"
    "\<And>x y. x \<in> set xs \<Longrightarrow> f x \<le> f y \<Longrightarrow> G y \<Longrightarrow> G x"
    "m \<le> length (filter P xs)" "\<forall>y \<in> set (take m (filter P xs)). G y"
  shows "m \<le> length (filter Q xs) \<and> (\<forall>y \<in> set (take m (filter Q xs)). G y)"
  using assms
proof (induction xs arbitrary: m)
  case (Cons x xs)
  have ih: "k \<le> length (filter Q xs) \<and> (\<forall>y \<in> set (take k (filter Q xs)). G y)"
    if "k \<le> length (filter P xs)" "\<forall>y \<in> set (take k (filter P xs)). G y" for k
    using Cons.prems(1-3) that by (intro Cons.IH) simp_all
  show ?case
  proof (cases m)
    case (Suc k)
    show ?thesis
    proof (cases "P x")
      case True
      with Cons.prems(2,4,5) Suc ih [of k] show ?thesis by simp
    next
      case False
      then have i: "m \<le> length (filter P xs)" "\<forall>y \<in> set (take m (filter P xs)). G y" using Cons.prems(4,5) by simp_all
      show ?thesis
      proof (cases "Q x")
        case True
        obtain y ys where y: "filter P xs = y # ys" using i(1) Suc by (cases "filter P xs") auto
        then have "y \<in> set (filter P xs)" "G y" using i(2) Suc by simp_all
        then have "y \<in> set xs" by simp
        then have "G x" using Cons.prems(1,3) \<open>G y\<close> by auto
        moreover have "set (take k (filter Q xs)) \<subseteq> set (take m (filter Q xs))"
          using Suc by (intro set_take_subset_set_take) simp
        ultimately show ?thesis using ih [OF i] True Suc by auto
      next
        case False
        with ih [OF i] show ?thesis by simp
      qed
    qed
  qed simp
qed simp

lemma sorted_scan: "sorted_wrt (\<lambda>x y. unat x \<le> unat y) (scan_from 2)"
  unfolding scan_from_def sorted_wrt_map
proof (rule sorted_wrt_mono_rel [of _ "(<)"])
  fix x y :: nat assume "x \<in> set [2..<2048]" "y \<in> set [2..<2048]" "x < y"
  then show "unat (of_nat x :: u16) \<le> unat (of_nat y :: u16)"
    unfolding set_upt by (simp add: unat_small16)
qed (rule sorted_wrt_upt)

lemma on_disk_mono: "2 \<le> unat x \<Longrightarrow> unat x \<le> unat y \<Longrightarrow> on_disk g D y \<Longrightarrow> on_disk g D x"
proof -
  assume a: "2 \<le> unat x" "unat x \<le> unat y" "on_disk g D y"
  then have "(unat x - 2) * unat (sectors_per_cluster g) \<le> (unat y - 2) * unat (sectors_per_cluster g)"
    by (intro mult_le_mono1) simp
  with a show ?thesis unfolding on_disk_def clba_def by linarith
qed

definition room :: "fat_vars \<Rightarrow> bytes list \<Rightarrow> nat \<Rightarrow> bool" where
  "room g D m \<longleftrightarrow> m \<le> length (free_clusters g D) \<and> (\<forall>c \<in> set (take m (free_clusters g D)). on_disk g D c)"

lemma room_after:
  assumes "room g D m" "length D' = length D" "set (free_clusters g D) \<subseteq> set (free_clusters g D')"
  shows "room g D' m"
proof -
  have od: "on_disk g D' c = on_disk g D c" for c using assms(2) by (simp add: on_disk_def)
  show ?thesis
    unfolding room_def od free_clusters_def
  proof (rule take_filter_mono [OF sorted_scan, where P = "\<lambda>c. fat_entry g D 0 c = 0"])
    show "fat_entry g D' 0 x = 0" if "x \<in> set (scan_from 2)" "fat_entry g D 0 x = 0" for x
      using assms(3) that by (auto simp: scan_mem free_clusters_mem)
    show "on_disk g D x" if "x \<in> set (scan_from 2)" "unat x \<le> unat y" "on_disk g D y" for x y
      using that by (auto simp: scan_mem elim: on_disk_mono)
  qed (use assms(1) in \<open>simp_all add: room_def free_clusters_def\<close>)
qed

section \<open>The abstract map\<close>

lemma contents_lookup: "contents F M \<Longrightarrow> M nm = None \<Longrightarrow> F k \<noteq> Some (nm, data, cs)"
  unfolding contents_def by (metis option.distinct(1))

lemma contents_remove:
  assumes "volume g D F" "contents F M" "F k = Some (nm, data, cs)"
  shows "contents (F(k := None)) (M(nm := None))"
  unfolding contents_def
proof (intro allI)
  fix nm' data'
  show "((M(nm := None)) nm' = Some data') = (\<exists>k' cs. (F(k := None)) k' = Some (nm', data', cs))"
  proof (cases "nm' = nm")
    case True
    have "k' = k" if "F k' = Some (nm, data', cs')" for k' cs'
      using volumeD(6) [OF assms(1,3) that] by auto
    with True show ?thesis by auto
  next
    case False
    then have "k' \<noteq> k" if "F k' = Some (nm', data', cs')" for k' cs' using that assms(3) by auto
    then have "(\<exists>k' cs. (F(k := None)) k' = Some (nm', data', cs)) = (\<exists>k' cs. F k' = Some (nm', data', cs))"
      by (metis fun_upd_other fun_upd_same option.distinct(1))
    with False assms(2) show ?thesis by (simp add: contents_def)
  qed
qed

lemma contents_add:
  assumes "contents F M" "M nm = None" "F k = None"
  shows "contents (F(k := Some (nm, data, cs))) (M(nm \<mapsto> data))"
  unfolding contents_def
proof (intro allI)
  fix nm' data'
  show "((M(nm \<mapsto> data)) nm' = Some data') = (\<exists>k' cs'. (F(k := Some (nm, data, cs))) k' = Some (nm', data', cs'))"
  proof (cases "nm' = nm")
    case True
    then show ?thesis using contents_lookup [OF assms(1,2)] by auto
  next
    case False
    then have "(F(k := Some (nm, data, cs))) k' = Some (nm', data', cs') \<longleftrightarrow> F k' = Some (nm', data', cs')" for k' cs'
      using assms(3) by simp
    with False assms(1) show ?thesis by (simp add: contents_def)
  qed
qed

end
