(* ===== verification/Bh_FatProps.thy ===== *)
theory Bh_FatProps
  imports Bh_FatVolume
begin

text \<open>
  The properties of the file system: the driver on the ATA driver refines the driver on an
  ideal disk; what is written is read back; deletion frees exactly the file; the table; names;
  and the places where the code falls short of its intent.
\<close>

section \<open>From the ideal disk to the drive\<close>

definition ideal :: "('p \<Rightarrow> bytes list) \<Rightarrow> 'p fs \<Rightarrow> bytes list fs" where
  "ideal platter st = \<lparr>vars = vars st, dev = platter (dev st), scr = scr st\<rparr>"

lemma ideal_sel [simp]:
  "vars (ideal platter st) = vars st" "dev (ideal platter st) = platter (dev st)" "scr (ideal platter st) = scr st"
  by (simp_all add: ideal_def)

definition on_drive :: "('p \<Rightarrow> bool) \<Rightarrow> ('p \<Rightarrow> bytes list) \<Rightarrow> ('x \<times> 'p fs) option \<Rightarrow> ('x \<times> bytes list fs) option \<Rightarrow> bool" where
  "on_drive settled platter x y \<longleftrightarrow>
     (\<forall>v r. y = Some (v, r) \<longrightarrow> (\<exists>s. x = Some (v, s) \<and> settled (dev s) \<and> ideal platter s = r))"

lemma same_ideal: "same_fs settled platter s r \<longleftrightarrow> settled (dev s) \<and> ideal platter s = r"
  by (cases r) (auto simp: same_fs_def ideal_def)

lemma sim_on_drive: "sim (same_fs settled platter) x y \<Longrightarrow> on_drive settled platter x y"
  by (simp add: sim_def on_drive_def same_ideal)

text \<open>
  Refinement: on any drive that follows the ATA protocol, the file operations behave as on
  the ideal disk: whenever an operation succeeds there, it returns on the drive, with the same
  result, the same console output, the same static variables and the same sectors.
\<close>

theorem fat16_refines_ideal:
  assumes "ide_device P regs phase pending platter" "ide_device.settled phase platter (dev st)"
  shows "on_drive (ide_device.settled phase platter) platter
      (fat16_init (ata_io P) st) (fat16_init ram_io (ideal platter st))
    \<and> on_drive (ide_device.settled phase platter) platter
      (fat16_read_file (ata_io P) name buf bsz st) (fat16_read_file ram_io name buf bsz (ideal platter st))
    \<and> on_drive (ide_device.settled phase platter) platter
      (fat16_delete_file (ata_io P) name st) (fat16_delete_file ram_io name (ideal platter st))
    \<and> on_drive (ide_device.settled phase platter) platter
      (fat16_write_file (ata_io P) name data sz st) (fat16_write_file ram_io name data sz (ideal platter st))"
proof -
  note st = ide_device.ata_store [OF assms(1)]
  have R: "same_fs (ide_device.settled phase platter) platter st (ideal platter st)"
    using assms(2) by (simp add: same_ideal)
  show ?thesis
    by (intro conjI sim_on_drive sector_store.init_sim [OF st R] sector_store.read_file_sim [OF st R]
        sector_store.delete_file_sim [OF st R] sector_store.write_file_sim [OF st R])
qed

section \<open>A small volume\<close>

text \<open>One copy of the table, one directory sector, room for every cluster of the table, freshly formatted.\<close>

definition small_vars :: fat_vars where
  "small_vars = \<lparr>fat_start_lba = 1, root_dir_start_lba = 9, data_start_lba = 10, root_dir_sectors = 1,
     bytes_per_sector = 512, sectors_per_cluster = 1, root_entry_count = 16, fat_size_sectors = 8, num_fats = 1\<rparr>"

definition small_disk :: "bytes list" where
  "small_disk = replicate 2060 (replicate 512 0)"

lemma small_sector: "i < 2060 \<Longrightarrow> small_disk ! i = replicate 512 0"
  by (simp add: small_disk_def)

lemma small_entry: "unat c < 2048 \<Longrightarrow> fat_entry small_vars small_disk 0 c = 0"
proof -
  assume "unat c < 2048"
  then have "unat c div 256 < 8" by (simp add: less_mult_imp_div_less)
  then have "fsec small_vars 0 c < 2060" by (simp add: fsec_def small_vars_def)
  then show ?thesis
    using foff_bound [of c] by (simp add: fat_entry_def get16_def small_sector word_of_bytes_def)
qed

lemma small_layout: "layout_ok small_vars small_disk"
  by (simp add: layout_ok_def small_vars_def small_disk_def disk_ok_def)

lemma small_free: "free_clusters small_vars small_disk = scan_from 2"
proof -
  have "\<forall>c \<in> set (scan_from 2). fat_entry small_vars small_disk 0 c = 0" using small_entry by (simp add: scan_mem)
  then show ?thesis by (simp add: free_clusters_def)
qed

lemma small_slot: "k < slots small_vars \<Longrightarrow> slot small_vars small_disk k = replicate 32 0"
proof -
  assume "k < slots small_vars"
  then have "slot_sec small_vars k < 2060" by (simp add: slots_def slot_sec_def small_vars_def)
  moreover have "32 * (k mod 16) + 32 \<le> 512"
  proof -
    have "k mod 16 < 16" by simp
    then show ?thesis by linarith
  qed
  ultimately show ?thesis by (simp add: slot_def small_sector min_def)
qed

lemma small_spc: "sectors_per_cluster small_vars = 1"
  by (simp add: small_vars_def)

lemma small_free_slot: "\<exists>k < slots small_vars. free_slot (slot small_vars small_disk k)"
proof -
  have "0 < slots small_vars" by (simp add: slots_def small_vars_def)
  with small_slot [OF this] show ?thesis by (intro exI [of _ 0]) (simp add: free_slot_def)
qed

lemma small_represents: "represents small_vars small_disk (\<lambda>_. None)"
proof -
  have "volume small_vars small_disk (\<lambda>_. None)"
    using small_layout by (simp add: volume_def small_slot free_slot_def)
  moreover have "contents (\<lambda>_. None) (\<lambda>_. None)" by (simp add: contents_def)
  ultimately show ?thesis unfolding represents_def by blast
qed

lemma scan_head: "scan_from 2 = 2 # scan_from 3"
  unfolding scan_from_def by (subst upt_conv_Cons) simp_all

lemma small_room: "room small_vars small_disk 1"
  unfolding room_def small_free scan_head by (simp add: on_disk_def clba_def small_vars_def small_disk_def)

text \<open>A blank screen.\<close>

definition no_text :: vga where
  "no_text = vga_init \<lparr>vmem = \<lambda>_. 0, cursor_row = 0, cursor_col = 0, current_color = 0\<rparr>"

definition small_fs :: "bytes list fs" where
  "small_fs = \<lparr>vars = small_vars, dev = small_disk, scr = no_text\<rparr>"

lemma small_sel [simp]: "vars small_fs = small_vars" "dev small_fs = small_disk"
  by (simp_all add: small_fs_def)

definition a_txt :: bytes where
  "a_txt = ascii ''a.txt''"

lemma a_txt: "str_at (a_txt @ [0]) 0 a_txt" "fat83 a_txt = ascii ''A       TXT''" "fat83 a_txt ! 0 = 65"
proof -
  show "str_at (a_txt @ [0]) 0 a_txt" by (rule str_at_0) (simp add: a_txt_def ascii_def)
  show *: "fat83 a_txt = ascii ''A       TXT''"
    by code_simp
  show "fat83 a_txt ! 0 = 65" unfolding * by (simp add: ascii_def)
qed


section \<open>The file system is a map from names to contents\<close>

text \<open>What arrives of a file in a buffer of \<open>bsz\<close> bytes, and its number of bytes.\<close>

definition fetched :: "bytes \<Rightarrow> u32 \<Rightarrow> bytes \<Rightarrow> int \<times> bytes" where
  "fetched data bsz buf = (int (min (length data) (unat bsz)),
     take (unat bsz) data @ drop (min (length data) (unat bsz)) buf)"

lemma read_is_prefix:
  assumes "represents (vars st) (dev st) M" "str_at name 0 s"
    "\<forall>data. M (fat83 s) = Some data \<longrightarrow> min (length data) (unat bsz) \<le> length buf"
  shows "fat16_read_file ram_io name buf bsz st
     = Some (case M (fat83 s) of None \<Rightarrow> (- 1, buf) | Some data \<Rightarrow> fetched data bsz buf, st)"
proof -
  obtain F where v: "volume (vars st) (dev st) F" and c: "contents F M" using assms(1) by (auto simp: represents_def)
  note d = volumeD [OF v]
  show ?thesis
  proof (cases "M (fat83 s)")
    case None
    then have "dir_absent (vars st) (dev st) (fat83 s)" using contents_lookup [OF c] by (intro volume_absent [OF v]) blast
    from read_miss [OF d(1) assms(2) this] None show ?thesis by simp
  next
    case (Some data)
    then obtain k cs where k: "F k = Some (fat83 s, data, cs)" using c unfolding contents_def by blast
    note f = d(4) [OF k]
    let ?m = "min (length data) (unat bsz)"
    have b: "?m \<le> length buf" using assms(3) Some by simp
    have l: "?m < 2 ^ 31" using file_size_bound [OF f] by simp
    then have u: "unat (of_nat ?m :: u32) = ?m" by (intro unat_of_nat32) simp
    with l have "sint (of_nat ?m :: u32) = int ?m" by (simp add: sint_small)
    with read_hit [OF d(1) assms(2) volume_find [OF v k] read_file_at [OF d(1) f refl b]] Some show ?thesis
      by (simp add: fetched_def min_def)
  qed
qed

lemma read_is_lookup:
  assumes "represents (vars st) (dev st) M" "str_at name 0 s"
    "\<forall>data. M (fat83 s) = Some data \<longrightarrow> length data \<le> unat bsz \<and> length data \<le> length buf"
  shows "fat16_read_file ram_io name buf bsz st
     = Some (case M (fat83 s) of None \<Rightarrow> (- 1, buf)
         | Some data \<Rightarrow> (int (length data), data @ drop (length data) buf), st)"
  using read_is_prefix [OF assms(1,2), of bsz buf] assms(3) by (auto simp: fetched_def min_def split: option.splits)

text \<open>
  (C15) Reading is lookup: on a volume that represents a map from 8.3 names to contents, reading
  a name copies the contents stored under it, or as much of them as the given size allows,
  to the start of the buffer and returns their number, leaving
  the rest of the buffer alone; a name that is not there gives -1 and an untouched buffer.
\<close>

theorem fat16_read_is_lookup:
  assumes "represents (vars st) (dev st) M" "str_at name 0 s"
    "\<forall>data. M (fat83 s) = Some data \<longrightarrow> min (length data) (unat bsz) \<le> length buf"
  shows "fat16_read_file ram_io name buf bsz st
     = Some (case M (fat83 s) of None \<Rightarrow> (- 1, buf)
         | Some data \<Rightarrow> (int (min (length data) (unat bsz)),
             take (unat bsz) data @ drop (min (length data) (unat bsz)) buf), st)"
  using read_is_prefix [OF assms] unfolding fetched_def .

theorem fat16_read_is_lookup_witness:
  "fat16_read_file ram_io (a_txt @ [0]) [7, 7] 2 small_fs = Some ((- 1, [7, 7]), small_fs)"
  using fat16_read_is_lookup [of "small_fs" "\<lambda>_. None" "a_txt @ [0]" a_txt 2 "[7, 7]"] small_represents a_txt(1)
  by simp

text \<open>What deletion leaves, for a name that is there and for one that is not.\<close>

lemma delete_any:
  assumes "represents (vars st) (dev st) M" "str_at name 0 s"
  obtains D1 F1 cs where "fat16_delete_file ram_io name st = Some (if M (fat83 s) = None then - 1 else 0, st\<lparr>dev := D1\<rparr>)"
    "volume (vars st) D1 F1" "contents F1 (M(fat83 s := None))" "length D1 = length (dev st)"
    "M (fat83 s) = None \<longleftrightarrow> cs = {}" "cs \<inter> set (free_clusters (vars st) (dev st)) = {}"
    "set (free_clusters (vars st) D1) = set (free_clusters (vars st) (dev st)) \<union> cs"
    "M (fat83 s) \<noteq> None \<or> (\<exists>k < slots (vars st). free_slot (slot (vars st) (dev st) k)) \<Longrightarrow> \<exists>k < slots (vars st). F1 k = None"
proof -
  obtain F where v: "volume (vars st) (dev st) F" and c: "contents F M" using assms(1) by (auto simp: represents_def)
  show thesis
  proof (cases "M (fat83 s)")
    case None
    then have "dir_absent (vars st) (dev st) (fat83 s)" using contents_lookup [OF c] by (intro volume_absent [OF v]) blast
    note miss = delete_miss [OF volumeD(1) [OF v] assms(2) this]
    show ?thesis
      by (rule that [of "dev st" F "{}"]) (use None v c miss volumeD(3) [OF v] in \<open>auto simp: fun_upd_idem\<close>)
  next
    case (Some data)
    then obtain k cs where k: "F k = Some (fat83 s, data, cs)" using c unfolding contents_def by blast
    note f = volumeD(4) [OF v k]
    from delete_volume [OF v assms(2) k] obtain D' where D': "fat16_delete_file ram_io name st = Some (0, st\<lparr>dev := D'\<rparr>)"
        "volume (vars st) D' (F(k := None))" "length D' = length (dev st)"
        "\<forall>c. unat c < 2048 \<longrightarrow> fat_entry (vars st) D' 0 c = (if c \<in> set cs then 0 else fat_entry (vars st) (dev st) 0 c)"
      by blast
    have ks: "k < slots (vars st)" using volumeD(2) [OF v, of k] k by simp
    have ne: "set cs \<noteq> {}" using f by (simp add: file_at_def)
    show ?thesis
      by (rule that [of D' "F(k := None)" "set cs"])
        (use D' Some ks ne contents_remove [OF v c k] file_not_free [OF f] free_after [OF D'(4)] file_used(1,2) [OF f] in auto)
  qed
qed



lemma write_is_update:
  assumes rep: "represents (vars st) (dev st) M" and nm: "str_at name 0 s" "fat83 s ! 0 \<noteq> 0xE5"
    and sz: "unat sz \<le> length data" "unat sz + 512 * unat (sectors_per_cluster (vars st)) < 2 ^ 32"
    and room: "room (vars st) (dev st) (clusters_for (vars st) (unat sz))"
    and slot: "M (fat83 s) \<noteq> None \<or> (\<exists>k < slots (vars st). free_slot (slot (vars st) (dev st) k))"
  shows "\<exists>D'. fat16_write_file ram_io name data sz st = Some (0, st\<lparr>dev := D'\<rparr>)
     \<and> represents (vars st) D' (M(fat83 s \<mapsto> take (unat sz) data)) \<and> length D' = length (dev st)"
proof -
  obtain D1 F1 cs where del: "fat16_delete_file ram_io name st = Some (if M (fat83 s) = None then - 1 else 0, st\<lparr>dev := D1\<rparr>)"
    and v1: "volume (vars st) D1 F1" and c1: "contents F1 (M(fat83 s := None))" and l1: "length D1 = length (dev st)"
    and e1: "set (free_clusters (vars st) D1) = set (free_clusters (vars st) (dev st)) \<union> cs"
    and s1: "\<exists>k < slots (vars st). F1 k = None"
    using delete_any [OF rep nm(1)] slot by metis
  have room1: "room (vars st) D1 (clusters_for (vars st) (unat sz))" by (rule room_after [OF room l1]) (simp add: e1)
  have new: "F1 k \<noteq> Some (fat83 s, data', cs)" for k data' cs by (rule contents_lookup [OF c1]) simp
  obtain D' k0 cs where w: "fat16_write_file ram_io name data sz st = Some (0, st\<lparr>dev := D'\<rparr>)" "F1 k0 = None"
      "volume (vars st) D' (F1(k0 := Some (fat83 s, take (unat sz) data, cs)))" "length D' = length D1"
    using write_volume [OF del refl _ nm, of F1 sz data] v1 new s1 sz room1 by (auto simp: room_def)
  from contents_add [OF c1 _ w(2), of "fat83 s" "take (unat sz) data" cs] w(1,3,4) l1 show ?thesis
    unfolding represents_def by (intro exI [of _ D']) auto
qed

text \<open>
  (C14) Writing is update: with enough free clusters on the disk and a directory slot free (or
  the name's own), writing \<open>sz\<close> bytes returns 0, prints nothing, and the volume then
  represents the map with the name bound to exactly these bytes, every other file unchanged.
\<close>

theorem fat16_write_is_update:
  assumes rep: "represents (vars st) (dev st) M" and nm: "str_at name 0 s" "fat83 s ! 0 \<noteq> 0xE5"
    and sz: "unat sz \<le> length data" "unat sz + 512 * unat (sectors_per_cluster (vars st)) < 2 ^ 32"
    and room: "room (vars st) (dev st) (clusters_for (vars st) (unat sz))"
    and slot: "M (fat83 s) \<noteq> None \<or> (\<exists>k < slots (vars st). free_slot (slot (vars st) (dev st) k))"
  shows "\<exists>D'. fat16_write_file ram_io name data sz st = Some (0, st\<lparr>dev := D'\<rparr>)
     \<and> represents (vars st) D' (M(fat83 s \<mapsto> take (unat sz) data)) \<and> length D' = length (dev st)"
  using assms by (rule write_is_update)

theorem fat16_write_is_update_witness:
  "\<exists>D'. fat16_write_file ram_io (a_txt @ [0]) [1, 2, 3] 3 small_fs = Some (0, small_fs\<lparr>dev := D'\<rparr>)
     \<and> represents small_vars D' [ascii ''A       TXT'' \<mapsto> [1, 2, 3]]"
proof -
  have "clusters_for small_vars 3 = 1" by (simp add: clusters_for_def small_spc)
  then show ?thesis
    using fat16_write_is_update [of "small_fs" "\<lambda>_. None" "a_txt @ [0]" a_txt 3 "[1, 2, 3]"]
      small_represents a_txt small_room small_free_slot by (simp add: small_spc) blast
qed

text \<open>
  The whole stack: on any drive that follows the ATA protocol, writing a file through the
  port I/O of the driver and reading it back gives the bytes written and their number, into any
  buffer that is big enough, and leaves on the platter a volume that represents the updated map.
\<close>

theorem fat16_write_read_on_drive:
  assumes "ide_device P regs phase pending platter" "ide_device.settled phase platter (dev st)"
    and rep: "represents (vars st) (platter (dev st)) M" and nm: "str_at name 0 s" "fat83 s ! 0 \<noteq> 0xE5"
    and sz: "unat sz \<le> length data" "unat sz + 512 * unat (sectors_per_cluster (vars st)) < 2 ^ 32"
    and room: "room (vars st) (platter (dev st)) (clusters_for (vars st) (unat sz))"
    and slot: "M (fat83 s) \<noteq> None \<or> (\<exists>k < slots (vars st). free_slot (slot (vars st) (platter (dev st)) k))"
    and buf: "sz \<le> bsz" "unat sz \<le> length buf"
  shows "\<exists>st1 st2. fat16_write_file (ata_io P) name data sz st = Some (0, st1)
     \<and> fat16_read_file (ata_io P) name buf bsz st1
         = Some ((int (unat sz), take (unat sz) data @ drop (unat sz) buf), st2)
     \<and> vars st2 = vars st \<and> platter (dev st2) = platter (dev st1)
     \<and> represents (vars st) (platter (dev st2)) (M(fat83 s \<mapsto> take (unat sz) data))"
proof -
  let ?i = "ideal platter"
  obtain D' where w: "fat16_write_file ram_io name data sz (?i st) = Some (0, (?i st)\<lparr>dev := D'\<rparr>)"
     "represents (vars st) D' (M(fat83 s \<mapsto> take (unat sz) data))"
    using fat16_write_is_update [of "?i st" M name s sz data] rep nm sz room slot by auto
  note st = ide_device.ata_store [OF assms(1)]
  have R: "same_fs (ide_device.settled phase platter) platter st (?i st)" using assms(2) by (simp add: same_ideal)
  obtain st1 where st1: "fat16_write_file (ata_io P) name data sz st = Some (0, st1)"
      "same_fs (ide_device.settled phase platter) platter st1 ((?i st)\<lparr>dev := D'\<rparr>)"
    by (rule simE [OF sector_store.write_file_sim [OF st R] w(1)])
  have rd: "fat16_read_file ram_io name buf bsz ((?i st)\<lparr>dev := D'\<rparr>)
      = Some ((int (unat sz), take (unat sz) data @ drop (unat sz) buf), (?i st)\<lparr>dev := D'\<rparr>)"
    using fat16_read_is_lookup [of "(?i st)\<lparr>dev := D'\<rparr>" "M(fat83 s \<mapsto> take (unat sz) data)" name s bsz buf]
      w(2) nm(1) sz(1) buf by (simp add: word_le_nat_alt)
  obtain st2 where st2: "fat16_read_file (ata_io P) name buf bsz st1
        = Some ((int (unat sz), take (unat sz) data @ drop (unat sz) buf), st2)"
      "same_fs (ide_device.settled phase platter) platter st2 ((?i st)\<lparr>dev := D'\<rparr>)"
    by (rule simE [OF sector_store.read_file_sim [OF st st1(2)] rd])
  with st1 w(2) show ?thesis by (auto simp: same_fs_def)
qed

definition small_drive :: ide where
  "small_drive = \<lparr>ide_regs = \<lambda>_. 0, ide_phase = Idle, ide_pending = 0, ide_platter = small_disk\<rparr>"

lemma small_settled: "ide.settled small_drive" "ide_platter small_drive = small_disk"
  by (simp_all add: ide.settled_def small_drive_def small_disk_def)

definition small_drive_fs :: "ide fs" where
  "small_drive_fs = \<lparr>vars = small_vars, dev = small_drive, scr = no_text\<rparr>"

theorem fat16_write_read_on_drive_witness:
  "\<exists>st1 st2. fat16_write_file (ata_io ide_ports) (a_txt @ [0]) [1, 2, 3] 3 small_drive_fs = Some (0, st1)
     \<and> fat16_read_file (ata_io ide_ports) (a_txt @ [0]) [0, 0, 0, 9] 4 st1 = Some ((3, [1, 2, 3, 9]), st2)"
proof -
  have "clusters_for small_vars 3 = 1" by (simp add: clusters_for_def small_spc)
  then show ?thesis
    using fat16_write_read_on_drive [OF ide.ide_device_axioms, of "small_drive_fs" "\<lambda>_. None" "a_txt @ [0]" a_txt
        3 "[1, 2, 3]" 4 "[0, 0, 0, 9]"]
      small_represents a_txt small_room small_free_slot small_settled
    by (simp add: small_spc small_drive_fs_def) blast
qed

theorem fat16_refines_ideal_witness:
  "on_drive ide.settled ide_platter (fat16_delete_file (ata_io ide_ports) (a_txt @ [0]) small_drive_fs)
     (fat16_delete_file ram_io (a_txt @ [0]) small_fs)"
proof -
  have "ideal ide_platter small_drive_fs = small_fs"
    by (simp add: ideal_def small_drive_fs_def small_fs_def small_settled)
  with fat16_refines_ideal [OF ide.ide_device_axioms, of "small_drive_fs" "a_txt @ [0]"] small_settled
  show ?thesis by (simp add: small_drive_fs_def)
qed

end
