(* ===== verification/Bh_FatLimits.thy ===== *)
theory Bh_FatLimits
  imports Bh_FatProps
begin

text \<open>
  More of the file system: undoing a write, the table and its copies, names, mounting a volume,
  and the places where the code falls short: a write that does not fit, a cyclic chain, long
  base names, clusters beyond the disk, the directory listing.
\<close>

section \<open>Writes that do not fit, writes undone\<close>

text \<open>
  (C29) Overwriting a file with contents that do not fit returns -1 only after the old file has
  been deleted and every free cluster has been taken: the name is gone, the other files are
  intact, and no cluster is free any more although no file uses the ones the loop took.
\<close>

theorem fat16_write_full_destroys:
  assumes v: "volume (vars st) (dev st) F" and nm: "str_at name 0 s" and k: "F k = Some (fat83 s, old, cs)"
    and sz: "unat sz \<le> length data" "unat sz + 512 * unat (sectors_per_cluster (vars st)) < 2 ^ 32"
    and full: "length (free_clusters (vars st) (dev st)) + length cs < clusters_for (vars st) (unat sz)"
      "\<forall>c \<in> set (free_clusters (vars st) (dev st)). on_disk (vars st) (dev st) c"
  shows "\<exists>D' w. fat16_write_file ram_io name data sz st = Some (- 1, st\<lparr>dev := D', scr := w\<rparr>)
     \<and> volume (vars st) D' (F(k := None)) \<and> free_clusters (vars st) D' = []"
proof -
  obtain D1 where D1: "fat16_delete_file ram_io name st = Some (0, st\<lparr>dev := D1\<rparr>)" "volume (vars st) D1 (F(k := None))"
      "length D1 = length (dev st)"
      "\<forall>c. unat c < 2048 \<longrightarrow> fat_entry (vars st) D1 0 c = (if c \<in> set cs then 0 else fat_entry (vars st) (dev st) 0 c)"
    using delete_volume [OF v nm k] by blast
  note f = volumeD(4) [OF v k]
  have free: "set (free_clusters (vars st) D1) = set (free_clusters (vars st) (dev st)) \<union> set cs"
    using free_after [OF D1(4)] file_used(1,2) [OF f] by simp
  have "length (free_clusters (vars st) D1) = card (set (free_clusters (vars st) D1))"
    by (simp add: distinct_card distinct_free)
  also have "\<dots> \<le> card (set (free_clusters (vars st) (dev st))) + card (set cs)" unfolding free by (rule card_Un_le)
  also have "\<dots> \<le> length (free_clusters (vars st) (dev st)) + length cs" by (intro add_mono card_length)
  finally have "length (free_clusters (vars st) D1) < clusters_for (vars st) (unat sz)" using full(1) by simp
  moreover have "\<forall>c \<in> set (free_clusters (vars st) D1). on_disk (vars st) D1 c"
    using full(2) f D1(3) unfolding free by (auto simp: on_disk_def file_at_def)
  ultimately show ?thesis
    using write_full_volume [OF D1(1) refl, of "F(k := None)" sz data] D1(2) sz by simp blast
qed

text \<open>
  Writing a new file and deleting it again restores the map and frees exactly the clusters
  that were free before, so that no space is lost.
\<close>

theorem fat16_write_delete_restores:
  assumes rep: "represents (vars st) (dev st) M" and nm: "str_at name 0 s" "fat83 s ! 0 \<noteq> 0xE5"
    and new: "M (fat83 s) = None"
    and sz: "unat sz \<le> length data" "unat sz + 512 * unat (sectors_per_cluster (vars st)) < 2 ^ 32"
    and room: "room (vars st) (dev st) (clusters_for (vars st) (unat sz))"
    and slot: "\<exists>k < slots (vars st). free_slot (slot (vars st) (dev st) k)"
  shows "\<exists>st1 D2. fat16_write_file ram_io name data sz st = Some (0, st1)
     \<and> fat16_delete_file ram_io name st1 = Some (0, st\<lparr>dev := D2\<rparr>)
     \<and> represents (vars st) D2 M \<and> free_clusters (vars st) D2 = free_clusters (vars st) (dev st)"
proof -
  let ?g = "vars st"
  let ?cs = "take (clusters_for ?g (unat sz)) (free_clusters ?g (dev st))"
  obtain F where v: "volume ?g (dev st) F" and c: "contents F M" using rep by (auto simp: represents_def)
  have n: "F k \<noteq> Some (fat83 s, data', cs)" for k data' cs by (rule contents_lookup [OF c new])
  have del: "fat16_delete_file ram_io name st = Some (- 1, st)"
    using n by (intro delete_miss [OF volumeD(1) [OF v] nm(1)] volume_absent [OF v]) blast
  have "\<exists>k < slots ?g. F k = None" using slot volumeD(3) [OF v] by auto
  from write_volume [OF del refl v nm n this sz] room obtain D1 k0 where
    w: "fat16_write_file ram_io name data sz st = Some (0, st\<lparr>dev := D1\<rparr>)" "F k0 = None"
      "volume ?g D1 (F(k0 := Some (fat83 s, take (unat sz) data, ?cs)))"
      "\<forall>c. unat c < 2048 \<and> c \<noteq> 0 \<and> c \<notin> set ?cs \<longrightarrow> fat_entry ?g D1 0 c = fat_entry ?g (dev st) 0 c"
    unfolding room_def by blast
  let ?st1 = "st\<lparr>dev := D1\<rparr>"
  let ?F1 = "F(k0 := Some (fat83 s, take (unat sz) data, ?cs))"
  have k0: "?F1 k0 = Some (fat83 s, take (unat sz) data, ?cs)" by simp
  obtain D2 where D2: "fat16_delete_file ram_io name ?st1 = Some (0, st\<lparr>dev := D2\<rparr>)"
      "volume ?g D2 (?F1(k0 := None))"
      "\<forall>c. unat c < 2048 \<longrightarrow> fat_entry ?g D2 0 c = (if c \<in> set ?cs then 0 else fat_entry ?g D1 0 c)"
    using delete_volume [of ?st1 ?F1 name s k0 "take (unat sz) data" ?cs] w(3) nm(1) k0 by auto
  have "?F1(k0 := None) = F" using w(2) by auto
  then have rep2: "represents ?g D2 M" using D2(2) c unfolding represents_def by auto
  have "fat_entry ?g D2 0 c = 0 \<longleftrightarrow> fat_entry ?g (dev st) 0 c = 0" if "c \<in> set (scan_from 2)" for c
  proof (cases "c \<in> set ?cs")
    case True
    with D2(3) that in_set_takeD [OF True] show ?thesis by (simp add: scan_mem free_clusters_mem)
  next
    case False
    moreover have "c \<noteq> 0" "unat c < 2048" using that by (auto simp: scan_mem)
    ultimately show ?thesis using D2(3) w(4) by simp
  qed
  then have "free_clusters ?g D2 = free_clusters ?g (dev st)" unfolding free_clusters_def by (intro filter_cong) auto
  with w(1) D2(1) rep2 show ?thesis by blast
qed

theorem fat16_write_delete_restores_witness:
  "\<exists>st1 D2. fat16_write_file ram_io (a_txt @ [0]) [1, 2, 3] 3 small_fs = Some (0, st1)
     \<and> fat16_delete_file ram_io (a_txt @ [0]) st1 = Some (0, small_fs\<lparr>dev := D2\<rparr>)
     \<and> free_clusters small_vars D2 = scan_from 2"
proof -
  have "clusters_for small_vars 3 = 1" by (simp add: clusters_for_def small_spc)
  then show ?thesis
    using fat16_write_delete_restores [of "small_fs" "\<lambda>_. None" "a_txt @ [0]" a_txt 3 "[1, 2, 3]"]
      small_represents a_txt small_room small_free_slot by (simp add: small_spc small_free) blast
qed

text \<open>A volume without free clusters, with one file of one byte.\<close>

definition full_disk :: "bytes list" where
  "full_disk = replicate 512 0 # replicate 8 (replicate 512 255)
     @ (mk_entry (fat83 a_txt) 2 1 @ replicate 480 0) # (7 # replicate 511 0) # replicate 9 (replicate 512 0)"

lemma full_nth: "1 \<le> i \<Longrightarrow> i < 9 \<Longrightarrow> full_disk ! i = replicate 512 255"
  "full_disk ! 9 = mk_entry (fat83 a_txt) 2 1 @ replicate 480 0" "full_disk ! 10 = 7 # replicate 511 0"
proof -
  assume i: "1 \<le> i" "i < 9"
  then have "i - 1 < 8" by linarith
  with i show "full_disk ! i = replicate 512 255" by (simp add: full_disk_def nth_Cons' nth_append)
qed (simp_all add: full_disk_def nth_Cons' nth_append)

lemma full_entry: "unat c < 2048 \<Longrightarrow> fat_entry small_vars full_disk 0 c = 0xFFFF"
proof -
  assume "unat c < 2048"
  then have "unat c div 256 < 8" by (simp add: less_mult_imp_div_less)
  then have "full_disk ! fsec small_vars 0 c = replicate 512 255"
    by (intro full_nth) (simp_all add: fsec_def small_vars_def)
  then show ?thesis
    using foff_bound [of c] by (simp add: fat_entry_def get16_def word_of_bytes_def)
qed

lemma full_free: "free_clusters small_vars full_disk = []"
  using full_entry by (auto simp: free_clusters_def filter_empty_conv scan_mem)

lemma full_layout: "layout_ok small_vars full_disk"
  by (simp add: layout_ok_def small_vars_def full_disk_def disk_ok_def mk_entry_fields)

lemma full_slot:
  assumes "k < slots small_vars"
  shows "slot small_vars full_disk k = (if k = 0 then mk_entry (fat83 a_txt) 2 1 else replicate 32 0)"
proof -
  have k: "k < 16" using assms by (simp add: slots_def small_vars_def)
  then have "slot_sec small_vars k = 9" by (simp add: slot_sec_def small_vars_def)
  moreover have "k \<noteq> 0 \<Longrightarrow> 32 \<le> 512 - 32 * k" using k by linarith
  ultimately show ?thesis using k by (simp add: slot_def full_nth mk_entry_fields take_append drop_append min_def)
qed

lemma full_volume: "volume small_vars full_disk [0 \<mapsto> (fat83 a_txt, [7], [2])]"
  unfolding volume_def
proof (intro conjI allI impI)
  show "layout_ok small_vars full_disk" by (rule full_layout)
  show "([0 \<mapsto> (fat83 a_txt, [7 :: u8], [2 :: u16])] k = None) = free_slot (slot small_vars full_disk k)"
    if "k < slots small_vars" for k
    using that a_txt(3) by (simp add: full_slot free_slot_def mk_entry_fields)
next
  fix k :: nat and nm data cs assume "[0 \<mapsto> (fat83 a_txt, [7 :: u8], [2 :: u16])] k = Some (nm, data, cs)"
  then have k: "k = 0" "nm = fat83 a_txt" "data = [7]" "cs = [2]" by (auto split: if_splits)
  then show "slot small_vars full_disk k' ! 0 \<noteq> 0" if "k' < k" for k' using that by simp
  have "0 < slots small_vars" by (simp add: slots_def small_vars_def)
  note s = full_slot [OF this]
  have fsz: "length full_disk = 20" by (simp add: full_disk_def)
  have fs0: "full_disk ! 10 = file_sector [7] 0" by (simp add: full_nth file_sector_def)
  have ds: "unat (data_start_lba small_vars) = 10" by (simp add: small_vars_def)
  show "file_at small_vars full_disk k nm data cs"
    using s full_entry [of 2] fsz fs0 unfolding k
    by (simp add: file_at_def mk_entry_fields small_spc clba_def on_disk_def ds)
qed (simp_all add: slots_def small_vars_def split: if_splits)

theorem fat16_write_full_destroys_witness:
  "\<exists>D' w. fat16_write_file ram_io (a_txt @ [0]) (replicate 600 1) 600 \<lparr>vars = small_vars, dev = full_disk, scr = no_text\<rparr>
     = Some (- 1, \<lparr>vars = small_vars, dev = D', scr = w\<rparr>) \<and> volume small_vars D' (\<lambda>_. None)"
proof -
  have "clusters_for small_vars 600 = 2" by (simp add: clusters_for_def small_spc)
  then show ?thesis
    using fat16_write_full_destroys [of "\<lparr>vars = small_vars, dev = full_disk, scr = no_text\<rparr>"
        "[0 \<mapsto> (fat83 a_txt, [7], [2])]" "a_txt @ [0]" a_txt 0 "[7]" "[2]" 600 "replicate 600 1"]
      full_volume a_txt(1) full_free by (simp add: small_spc) blast
qed

section \<open>Reading a cyclic chain\<close>

lemma read_cluster_bound:
  "read_cluster ram_io lba fsz bsz spc sec br buf st = Some ((br', buf'), st') \<Longrightarrow> br \<le> bsz \<Longrightarrow> bsz < fsz \<Longrightarrow>
   br' \<le> bsz \<and> st' = st"
proof (induction "unat spc - unat sec" arbitrary: sec br buf)
  case 0
  then have "\<not> sec < spc" by (simp add: word_less_nat_alt)
  with 0 show ?case by (subst (asm) read_cluster.simps) simp
next
  case (Suc m)
  then have lt: "sec < spc" by (simp add: word_less_nat_alt)
  have br: "br < fsz" using Suc.prems(2,3) by simp
  let ?c = "if fsz - br > 512 then 512 else fsz - br"
  let ?t = "if br + ?c > bsz then bsz - br else ?c"
  from Suc.prems(1) lt br obtain tmp st1 buf1 where
    rd: "read_sec ram_io (lba + ucast sec) st = Some (tmp, st1)"
    and rest: "read_cluster ram_io lba fsz bsz spc (sec + 1) (br + ?t) buf1 st1 = Some ((br', buf'), st')"
    by (subst (asm) read_cluster.simps) (auto simp: Let_def split: option.splits)
  have st1: "st1 = st" using rd by (auto simp: read_sec_def ram_io_def split: if_splits Option.bind_splits)
  have "br + ?t \<le> bsz" by (cases "br + ?c > bsz") (auto simp: linorder_not_less)
  then show ?case
    using Suc.hyps(1) [of "sec + 1" "br + ?t" buf1] rest Suc.hyps(2) unat_inc [OF lt] Suc.prems(3) by (simp add: st1)
qed

text \<open>
  (C30) A chain whose first cluster points to itself hangs the kernel when the file is longer
  than the buffer: the copy stops at the end of the buffer, the loop does not.
\<close>

theorem fat16_read_cycle_hangs:
  assumes l: "layout_ok (vars st) (dev st)" and nm: "str_at name 0 s" and k: "dir_find (vars st) (dev st) (fat83 s) k"
    and c: "ent_cluster (slot (vars st) (dev st) k) = c" "2 \<le> unat c" "unat c < 2048" "fat_entry (vars st) (dev st) 0 c = c"
    and big: "bsz < ent_size (slot (vars st) (dev st) k)"
  shows "fat16_read_file ram_io name buf bsz st = None"
proof -
  let ?fsz = "ent_size (slot (vars st) (dev st) k)"
  have cl: "2 \<le> c" "c < 0xFFF8" using c(2,3) by (simp_all add: word_le_nat_alt word_less_nat_alt)
  have fe: "fat_read_entry ram_io c st = Some (c, st)"
    using read_entry [OF l in_fat_small [OF l c(3)]] c(4) by simp
  have never: "x = c \<longrightarrow> br \<le> bsz \<longrightarrow> s' = st \<longrightarrow> fs = ?fsz \<longrightarrow> bs = bsz \<longrightarrow> io = ram_io \<longrightarrow> False"
    if "read_chain io fs bs x br b s' = Some y" for io fs bs x br b s' y
    using _ that
  proof (rule read_chain.raw_induct [where P = "\<lambda>io fs bs x br b s' y.
      x = c \<longrightarrow> br \<le> bsz \<longrightarrow> s' = st \<longrightarrow> fs = ?fsz \<longrightarrow> bs = bsz \<longrightarrow> io = ram_io \<longrightarrow> False"])
    fix f :: "bytes list sector_io \<Rightarrow> u32 \<Rightarrow> u32 \<Rightarrow> u16 \<Rightarrow> u32 \<Rightarrow> bytes \<Rightarrow> bytes list fs \<Rightarrow> ((u32 \<times> bytes) \<times> bytes list fs) option"
    fix io fs bs x br b s' y
    assume ih: "\<And>io fs bs x br b s' y. f io fs bs x br b s' = Some y \<Longrightarrow>
        x = c \<longrightarrow> br \<le> bsz \<longrightarrow> s' = st \<longrightarrow> fs = ?fsz \<longrightarrow> bs = bsz \<longrightarrow> io = ram_io \<longrightarrow> False"
      and body: "(if 2 \<le> x \<and> x < 0xFFF8 \<and> br < fs
         then read_cluster io (cluster_to_lba (vars s') x) fs bs (sectors_per_cluster (vars s')) 0 br b s' \<bind>
              (\<lambda>((br, buffer1), st1). fat_read_entry io x st1 \<bind>
                (\<lambda>(next_cluster, st2). f io fs bs next_cluster br buffer1 st2))
         else Some ((br, b), s')) = Some y"
    show "x = c \<longrightarrow> br \<le> bsz \<longrightarrow> s' = st \<longrightarrow> fs = ?fsz \<longrightarrow> bs = bsz \<longrightarrow> io = ram_io \<longrightarrow> False"
    proof (intro impI)
    assume e: "x = c" "br \<le> bsz" "s' = st" "fs = ?fsz" "bs = bsz" "io = ram_io"
    have "br < ?fsz" using e(2) big by simp
    with body e cl obtain br' b' s1 where
      rc: "read_cluster ram_io (cluster_to_lba (vars st) c) ?fsz bsz (sectors_per_cluster (vars st)) 0 br b st = Some ((br', b'), s1)"
      and rest: "(fat_read_entry ram_io c s1 \<bind> (\<lambda>(next_cluster, st2). f ram_io ?fsz bsz next_cluster br' b' st2)) = Some y"
      by (auto split: Option.bind_splits)
    from read_cluster_bound [OF rc e(2) big] rest fe have "br' \<le> bsz" "f ram_io ?fsz bsz c br' b' st = Some y" by simp_all
    from ih [OF this(2)] this(1) show False by simp
    qed
  qed
  have none: "read_chain ram_io ?fsz bsz c 0 buf st = None"
    using never [of ram_io ?fsz bsz c 0 buf st] by (cases "read_chain ram_io ?fsz bsz c 0 buf st") auto
  have ks: "k < slots (vars st)" using k by (simp add: dir_find_def)
  show ?thesis
    by (rule read_hang [OF l nm k none [folded c(1)]])
qed

theorem fat16_read_cycle_hangs_witness:
  "fat16_read_file ram_io (a_txt @ [0]) [] 0
     \<lparr>vars = small_vars, dev = fat_set small_vars 2 2 full_disk, scr = no_text\<rparr> = None"
proof -
  let ?D = "fat_set small_vars 2 2 full_disk"
  have i: "in_fat small_vars 2" by (simp add: in_fat_def small_vars_def)
  have s0: "0 < slots small_vars" by (simp add: slots_def small_vars_def)
  have "slot small_vars ?D 0 = slot small_vars full_disk 0"
    using fat_set_outside [OF full_layout i] by (intro slot_cong [OF full_layout s0]) auto
  then have s: "slot small_vars ?D 0 = mk_entry (fat83 a_txt) 2 1" by (simp add: full_slot [OF s0])
  have f: "dir_find small_vars ?D (fat83 a_txt) 0"
    using s0 a_txt(3) by (simp add: dir_find_def matches_def s mk_entry_fields)
  have "fat_entry small_vars ?D 0 2 = 2"
    using fat_entry_set [OF full_layout i i, of 0 2] by (simp add: small_vars_def)
  then show ?thesis
    using fat16_read_cycle_hangs [of "\<lparr>vars = small_vars, dev = ?D, scr = no_text\<rparr>" "a_txt @ [0]" a_txt 0 2 0 "[]"]
      fat_set_ok(1) [OF full_layout i] a_txt(1) f s by (simp add: mk_entry_fields)
qed

section \<open>The table and its copies\<close>

text \<open>
  Writing a table entry and reading it gives the value; it is written in every copy of the
  table, no other entry of any copy changes, nothing outside the table changes, and copies that
  agreed still agree.
\<close>

theorem fat_write_entry_copies:
  assumes "layout_ok (vars st) (dev st)" "in_fat (vars st) c"
  shows "\<exists>D'. fat_write_entry ram_io c v st = Some (st\<lparr>dev := D'\<rparr>) \<and> layout_ok (vars st) D'
     \<and> fat_read_entry ram_io c (st\<lparr>dev := D'\<rparr>) = Some (v, st\<lparr>dev := D'\<rparr>)
     \<and> (\<forall>k c'. k < unat (num_fats (vars st)) \<and> in_fat (vars st) c' \<longrightarrow>
          fat_entry (vars st) D' k c' = (if c' = c then v else fat_entry (vars st) (dev st) k c'))
     \<and> (\<forall>i. i < unat (fat_start_lba (vars st)) \<or> unat (root_dir_start_lba (vars st)) \<le> i \<longrightarrow> D' ! i = dev st ! i)"
proof -
  let ?D = "fat_set (vars st) c v (dev st)"
  note l = fat_set_ok(1) [OF assms, of v]
  have n: "0 < unat (num_fats (vars st))" using assms(1) by (simp add: layout_ok_def)
  have "fat_read_entry ram_io c (st\<lparr>dev := ?D\<rparr>) = Some (v, st\<lparr>dev := ?D\<rparr>)"
    using read_entry [of "st\<lparr>dev := ?D\<rparr>" c] l assms(2) fat_entry_set [OF assms assms(2) n, of v] by simp
  with l write_entry [OF assms, of v] fat_entry_set [OF assms, where v = v] fat_set_outside [OF assms, where v = v] show ?thesis
    by (intro exI [of _ ?D]) auto
qed

theorem fat_write_entry_copies_witness:
  "\<exists>D'. fat_write_entry ram_io 5 7 small_fs = Some (small_fs\<lparr>dev := D'\<rparr>) \<and> fat_entry small_vars D' 0 5 = 7"
proof -
  have "in_fat small_vars 5" "0 < unat (num_fats small_vars)" by (simp_all add: in_fat_def small_vars_def)
  with fat_write_entry_copies [of "small_fs" 5 7] small_layout show ?thesis by auto
qed

text \<open>
  The allocator returns the least free cluster of the table, or 0 exactly if none of the
  clusters 2 to 2047 is free, and changes nothing.
\<close>

theorem fat_alloc_least:
  assumes "layout_ok (vars st) (dev st)"
  shows "\<exists>c. fat_alloc_cluster ram_io st = Some (c, st)
     \<and> (c = 0 \<longleftrightarrow> (\<forall>x. 2 \<le> unat x \<and> unat x < 2048 \<longrightarrow> fat_entry (vars st) (dev st) 0 x \<noteq> 0))
     \<and> (c \<noteq> 0 \<longrightarrow> 2 \<le> unat c \<and> unat c < 2048 \<and> fat_entry (vars st) (dev st) 0 c = 0
          \<and> (\<forall>x. 2 \<le> unat x \<and> x < c \<longrightarrow> fat_entry (vars st) (dev st) 0 x \<noteq> 0))"
proof -
  let ?fr = "free_clusters (vars st) (dev st)"
  have mem: "x \<in> set ?fr \<longleftrightarrow> 2 \<le> unat x \<and> unat x < 2048 \<and> fat_entry (vars st) (dev st) 0 x = 0" for x
    by (rule free_clusters_mem)
  show ?thesis
  proof (cases ?fr)
    case Nil
    then have "\<forall>x. 2 \<le> unat x \<and> unat x < 2048 \<longrightarrow> fat_entry (vars st) (dev st) 0 x \<noteq> 0" using mem by auto
    with Nil alloc_ram [OF assms] show ?thesis by (simp add: first_or_0_def)
  next
    case (Cons c cs)
    then have c: "2 \<le> unat c" "unat c < 2048" "fat_entry (vars st) (dev st) 0 c = 0" using mem [of c] by simp_all
    then have "c \<noteq> 0" by auto
    have "sorted_wrt (\<lambda>x y. unat x \<le> unat y) ?fr"
      unfolding free_clusters_def by (rule sorted_wrt_filter) (rule sorted_scan)
    then have low: "unat c \<le> unat x" if "x \<in> set ?fr" for x using that Cons by auto
    have "fat_entry (vars st) (dev st) 0 x \<noteq> 0" if "2 \<le> unat x" "x < c" for x
      using low [of x] mem [of x] that c(2) by (auto simp: word_less_nat_alt)
    with Cons alloc_ram [OF assms] c \<open>c \<noteq> 0\<close> show ?thesis by (auto simp: first_or_0_def)
  qed
qed

theorem fat_alloc_least_witness:
  "fat_alloc_cluster ram_io small_fs = Some (2, small_fs)"
proof -
  obtain c where c: "fat_alloc_cluster ram_io small_fs = Some (c, small_fs)"
    "c = 0 \<longleftrightarrow> (\<forall>x. 2 \<le> unat x \<and> unat x < 2048 \<longrightarrow> fat_entry small_vars small_disk 0 x \<noteq> 0)"
    "c \<noteq> 0 \<longrightarrow> 2 \<le> unat c \<and> (\<forall>x. 2 \<le> unat x \<and> x < c \<longrightarrow> fat_entry small_vars small_disk 0 x \<noteq> 0)"
    using fat_alloc_least [of "small_fs"] small_layout by auto
  have e: "fat_entry small_vars small_disk 0 2 = 0" by (rule small_entry) simp
  then have "c \<noteq> 0" using c(2) by (auto intro!: exI [of _ 2])
  with c(3) e have "2 \<le> c" "\<not> 2 < c" by (auto simp: word_le_nat_alt)
  with c(1) show ?thesis by simp
qed

section \<open>Names\<close>

text \<open>
  (C37) A name becomes the upper-case base name, cut or padded to eight characters, and the first
  three characters after the dot; the comparison with a directory entry holds exactly if the
  entry starts with these eleven bytes. A base name of more than eight characters loses its
  extension, so that files with different extensions are one file to the driver.
\<close>

theorem fat_names:
  assumes "str_at input 0 s" "p + 11 \<le> length b"
  shows "to_fat_name input b p = Some (take p b @ fat83 s @ drop (p + 11) b)
     \<and> fat_name_match input b p = Some (take 11 (drop p b) = fat83 s)
     \<and> (\<forall>base ext ext'. 8 < length base \<and> 46 \<notin> set base \<longrightarrow> fat83 (base @ 46 # ext) = fat83 (base @ 46 # ext'))"
proof (intro conjI allI impI)
  show "to_fat_name input b p = Some (take p b @ fat83 s @ drop (p + 11) b)"
    using to_fat_name_ok [OF assms] by (simp add: overwrite_def)
  show "fat_name_match input b p = Some (take 11 (drop p b) = fat83 s)" by (rule name_match_ok [OF assms])
  fix base ext ext' :: bytes assume a: "8 < length base \<and> 46 \<notin> set base"
  then have "\<forall>x \<in> set base. x \<noteq> 46" by auto
  then have "base_part (base @ 46 # e) = base" for e by (simp add: base_part_def takeWhile_append)
  with a show "fat83 (base @ 46 # ext) = fat83 (base @ 46 # ext')" by (simp add: fat83_def ext_part_def)
qed

theorem fat_names_witness:
  "to_fat_name (a_txt @ [0]) (replicate 11 0) 0 = Some (ascii ''A       TXT'')"
  using fat_names [of "a_txt @ [0]" a_txt 0 "replicate 11 0"] a_txt by simp

section \<open>Mounting\<close>

lemma bpb_words:
  fixes r f n :: u16 and c :: u8
  shows "unat (ucast r :: u32) = unat r"
    "unat (ucast r + ucast c * ucast f :: u32) = unat r + unat c * unat f"
    "unat ((ucast n * 32 + 511) div 512 :: u32) = (unat n + 15) div 16"
    "unat (ucast r + ucast c * ucast f + (ucast n * 32 + 511) div 512 :: u32)
       = unat r + unat c * unat f + (unat n + 15) div 16"
proof -
  have add: "unat (x + y) = unat x + unat y" if "unat x + unat y < 2 ^ 32" for x y :: u32
    using that by (simp add: unat_word_ariths)
  have b: "unat r < 65536" "unat f < 65536" "unat n < 65536" "unat c < 256"
    using unsigned_less [of r] unsigned_less [of f] unsigned_less [of n] unsigned_less [of c] by simp_all
  then have u: "unat (ucast r :: u32) = unat r" "unat (ucast f :: u32) = unat f" "unat (ucast n :: u32) = unat n"
    "unat (ucast c :: u32) = unat c" by (simp_all add: unsigned_ucast_eq take_bit_nat_eq_self)
  show "unat (ucast r :: u32) = unat r" by (rule u(1))
  have m: "unat c * unat f \<le> 255 * 65535" using b by (intro mult_le_mono) simp_all
  then have cf: "unat (ucast c * ucast f :: u32) = unat c * unat f" by (simp add: unat_word_ariths u)
  with m b show s: "unat (ucast r + ucast c * ucast f :: u32) = unat r + unat c * unat f"
    by (simp add: unat_word_ariths u)
  have "unat (ucast n * 32 + 511 :: u32) = unat n * 32 + 511" using b by (simp add: unat_word_ariths u)
  then show q: "unat ((ucast n * 32 + 511) div 512 :: u32) = (unat n + 15) div 16" by (simp add: unat_div)
  have "(unat n + 15) div 16 \<le> 65550" using b by simp
  with m b s q show "unat (ucast r + ucast c * ucast f + (ucast n * 32 + 511) div 512 :: u32)
       = unat r + unat c * unat f + (unat n + 15) div 16"
    by (subst add) simp_all
qed

text \<open>The static variables a boot sector gives.\<close>

definition bpb_vars :: "bytes \<Rightarrow> fat_vars" where
  "bpb_vars b =
     (let start = ucast (get16 b 14); root = start + ucast (b ! 16) * ucast (get16 b 22);
          rsec = (ucast (get16 b 17) * 32 + 511) div 512
      in \<lparr>fat_start_lba = start, root_dir_start_lba = root, data_start_lba = root + rsec,
          root_dir_sectors = rsec, bytes_per_sector = get16 b 11, sectors_per_cluster = b ! 13,
          root_entry_count = get16 b 17, fat_size_sectors = get16 b 22, num_fats = b ! 16\<rparr>)"

lemma fat16_init_ram:
  assumes "disk_ok (dev st)" "0 < length (dev st)"
  shows "get16 (dev st ! 0) 11 \<noteq> 512 \<Longrightarrow> \<exists>v. fat16_init ram_io st = Some (- 1, st\<lparr>scr := v\<rparr>)"
    "get16 (dev st ! 0) 11 = 512 \<Longrightarrow>
       \<exists>v. fat16_init ram_io st = Some (0, st\<lparr>vars := bpb_vars (dev st ! 0), scr := v\<rparr>)"
proof -
  let ?b = "dev st ! 0" and ?g = "bpb_vars (dev st ! 0)"
  have l: "length ?b = 512" using assms by (simp add: disk_ok_sector)
  have rd: "read_sec ram_io 0 st = Some (?b, st)" using assms by (simp add: ram_read)
  have pr: "\<exists>v. say f [Arg_int x] s = Some (s\<lparr>scr := v\<rparr>)" if "0 \<notin> set (ascii f)" "\<exists>t. render (ascii f) [Arg_int x] = Some t"
    for f x and s :: "bytes list fs"
    using printf_render [OF that(1), of "[Arg_int x]" "scr s"] that(2) by (auto simp: say_def lit_def)
  have "\<exists>v. say (''[FAT16] ERROR: Unsupported sector size %u'' @ [CHR 0x0A]) [Arg_int (ucast (get16 ?b 11))] st
      = Some (st\<lparr>scr := v\<rparr>)" by (rule pr) (simp_all add: ascii_def render_conv_def)
  then show "get16 ?b 11 \<noteq> 512 \<Longrightarrow> \<exists>v. fat16_init ram_io st = Some (- 1, st\<lparr>scr := v\<rparr>)"
    using rd l by (auto simp: fat16_init_def rd16_in)
  have "\<exists>v. say (''> FAT16 initialized. Data starts at LBA %u.'' @ [CHR 0x0A])
            [Arg_int (data_start_lba ?g)] (st\<lparr>vars := ?g\<rparr>) = Some (st\<lparr>vars := ?g, scr := v\<rparr>)"
    by (rule pr [of _ _ "st\<lparr>vars := ?g\<rparr>", simplified]) (simp_all add: ascii_def render_conv_def)
  then show "get16 ?b 11 = 512 \<Longrightarrow> \<exists>v. fat16_init ram_io st = Some (0, st\<lparr>vars := ?g, scr := v\<rparr>)"
    using rd l by (auto simp: fat16_init_def rd16_in Let_def bpb_vars_def)
qed

text \<open>
  Mounting a volume whose boot sector describes 512-byte sectors, at least one sector per
  cluster, at least one table of at least eight sectors and regions inside the disk returns 0
  and establishes the layout the other operations rely on: the table at the end of the reserved
  sectors, the directory behind its copies, the data behind the directory. Any other sector
  size is refused with -1 and leaves the static variables alone.
\<close>

theorem fat16_init_layout:
  assumes d: "disk_ok (dev st)" "0 < length (dev st)"
  defines "b \<equiv> dev st ! 0"
  shows "if get16 b 11 \<noteq> 512 then \<exists>v. fat16_init ram_io st = Some (- 1, st\<lparr>scr := v\<rparr>)
     else \<exists>g v. fat16_init ram_io st = Some (0, st\<lparr>vars := g, scr := v\<rparr>)
       \<and> sectors_per_cluster g = b ! 13 \<and> num_fats g = b ! 16 \<and> fat_size_sectors g = get16 b 22
       \<and> unat (fat_start_lba g) = unat (get16 b 14)
       \<and> unat (root_dir_start_lba g) = unat (get16 b 14) + unat (b ! 16) * unat (get16 b 22)
       \<and> unat (root_dir_sectors g) = (unat (get16 b 17) + 15) div 16
       \<and> unat (data_start_lba g) = unat (root_dir_start_lba g) + unat (root_dir_sectors g)
       \<and> (1 \<le> unat (b ! 13) \<and> 1 \<le> unat (b ! 16) \<and> 8 \<le> unat (get16 b 22)
            \<and> unat (data_start_lba g) \<le> length (dev st) \<longrightarrow> layout_ok g (dev st))"
proof -
  have pb: "disk_ok (dev st)" "0 < length (dev st)" by (fact d)+
  show ?thesis
  proof (cases "get16 b 11 = 512")
    case False
    with fat16_init_ram(1) [OF pb] show ?thesis by (simp add: b_def)
  next
    case True
    then obtain v where "fat16_init ram_io st = Some (0, st\<lparr>vars := bpb_vars b, scr := v\<rparr>)"
      using fat16_init_ram(2) [OF pb] by (auto simp: b_def)
    then show ?thesis
      unfolding True by (simp only: simp_thms if_False)
        (intro exI [of _ "bpb_vars b"] exI [of _ v], simp add: bpb_vars_def Let_def bpb_words layout_ok_def d(1))
  qed
qed

text \<open>
  The volume the build script formats: 2048 sectors, one reserved, two tables of eight sectors,
  512 directory entries, one sector per cluster.
\<close>

definition shipped_boot :: bytes where
  "shipped_boot = (replicate 512 0)[0 := 0xEB, 1 := 0x3C, 2 := 0x90, 3 := 66, 4 := 72, 5 := 79, 6 := 76, 7 := 69,
     8 := 49, 9 := 54, 10 := 32, 11 := 0, 12 := 2, 13 := 1, 14 := 1, 15 := 0, 16 := 2, 17 := 0, 18 := 2, 19 := 0,
     20 := 8, 21 := 0xF8, 22 := 8, 23 := 0, 24 := 0x20, 26 := 2, 510 := 0x55, 511 := 0xAA]"

definition shipped_table :: "bytes list" where
  "shipped_table = (0xF8 # 0xFF # 0xFF # 0xFF # replicate 508 0) # replicate 7 (replicate 512 0)"

definition shipped_disk :: "bytes list" where
  "shipped_disk = shipped_boot # shipped_table @ shipped_table @ replicate 2031 (replicate 512 0)"

lemma shipped_fields: "length shipped_boot = 512" "get16 shipped_boot 11 = 512" "get16 shipped_boot 14 = 1"
  "shipped_boot ! 13 = 1" "shipped_boot ! 16 = 2" "get16 shipped_boot 17 = 512" "get16 shipped_boot 22 = 8"
  by (simp_all add: shipped_boot_def get16_def word_of_bytes_def)

lemma shipped_len: "length shipped_table = 8"
  by (simp add: shipped_table_def)

lemma shipped_ok: "disk_ok shipped_disk" "0 < length shipped_disk" "shipped_disk ! 0 = shipped_boot" "length shipped_disk = 2048"
  by (simp_all add: shipped_disk_def shipped_table_def disk_ok_def shipped_fields)

text \<open>What mounting it gives.\<close>

definition shipped_vars :: fat_vars where
  "shipped_vars = \<lparr>fat_start_lba = 1, root_dir_start_lba = 17, data_start_lba = 49, root_dir_sectors = 32,
     bytes_per_sector = 512, sectors_per_cluster = 1, root_entry_count = 512, fat_size_sectors = 8, num_fats = 2\<rparr>"

lemma shipped_layout: "layout_ok shipped_vars shipped_disk"
  using shipped_ok by (simp add: layout_ok_def shipped_vars_def)

lemma shipped_entry:
  assumes "2 \<le> unat c" "unat c < 2048"
  shows "fat_entry shipped_vars shipped_disk 0 c = 0"
proof -
  let ?i = "unat c div 256"
  have i: "?i < 8" using assms(2) by (simp add: less_mult_imp_div_less)
  have sec: "shipped_disk ! fsec shipped_vars 0 c = shipped_table ! ?i"
    using i by (simp add: fsec_def shipped_vars_def shipped_disk_def nth_append shipped_len)
  have "shipped_table ! ?i ! foff c = 0 \<and> shipped_table ! ?i ! (foff c + 1) = 0"
  proof (cases "?i = 0")
    case True
    then have "unat c mod 256 = unat c" by (metis div_eq_0_iff mod_less zero_neq_numeral)
    then have f: "4 \<le> foff c" using assms(1) by (simp add: foff_def)
    have "foff c - 4 + 1 < 508" using foff_bound [of c] f by linarith
    then have "(0xF8 # 0xFF # 0xFF # 0xFF # replicate 508 (0 :: u8)) ! (4 + (foff c - 4)) = 0"
      "(0xF8 # 0xFF # 0xFF # 0xFF # replicate 508 (0 :: u8)) ! (4 + (foff c - 4 + 1)) = 0"
      by (simp_all add: numeral_eq_Suc del: replicate.simps replicate_Suc)
    with f True show ?thesis by (simp add: shipped_table_def)
  next
    case False
    with i have "shipped_table ! ?i = replicate 512 0" by (simp add: shipped_table_def nth_Cons')
    then show ?thesis using foff_bound [of c] by simp
  qed
  then show ?thesis by (simp add: fat_entry_def sec get16_def word_of_bytes_def)
qed

theorem fat16_init_layout_witness:
  "\<exists>g v. fat16_init ram_io \<lparr>vars = small_vars, dev = shipped_disk, scr = no_text\<rparr>
       = Some (0, \<lparr>vars = g, dev = shipped_disk, scr = v\<rparr>) \<and> unat (data_start_lba g) = 49 \<and> layout_ok g shipped_disk"
proof -
  have "unat (get16 shipped_boot 14) = 1" "unat (shipped_boot ! 13) = 1" "unat (shipped_boot ! 16) = 2"
    "unat (get16 shipped_boot 17) = 512" "unat (get16 shipped_boot 22) = 8" by (simp_all add: shipped_fields)
  with fat16_init_layout [of "\<lparr>vars = small_vars, dev = shipped_disk, scr = no_text\<rparr>"] shipped_ok shipped_fields(2)
  show ?thesis by auto
qed

text \<open>
  (C38) On the volume the build script formats the allocator scans 47 clusters behind the end of
  the disk: they read as free, the data of a file that gets one of them would go to sectors that
  do not exist, and exactly the clusters up to 2000 are safe.
\<close>

theorem fat_scan_beyond_disk:
  "(\<exists>v. fat16_init ram_io \<lparr>vars = g0, dev = shipped_disk, scr = v0\<rparr>
        = Some (0, \<lparr>vars = shipped_vars, dev = shipped_disk, scr = v\<rparr>))
   \<and> (\<forall>c st. vars st = shipped_vars \<and> dev st = shipped_disk \<and> 2 \<le> unat c \<and> unat c < 2048 \<longrightarrow>
        fat_read_entry ram_io c st = Some (0, st)
        \<and> (\<forall>data. length data = 512 \<longrightarrow>
             (write_cluster ram_io (cluster_to_lba shipped_vars c) data 512 0 1 0 st = None \<longleftrightarrow> 2000 < unat c)))"
proof (intro conjI allI impI)
  have "bpb_vars shipped_boot = shipped_vars" by (simp add: bpb_vars_def shipped_fields shipped_vars_def)
  with fat16_init_ram(2) [of "\<lparr>vars = g0, dev = shipped_disk, scr = v0\<rparr>"] shipped_ok shipped_fields(2)
  show "\<exists>v. fat16_init ram_io \<lparr>vars = g0, dev = shipped_disk, scr = v0\<rparr>
        = Some (0, \<lparr>vars = shipped_vars, dev = shipped_disk, scr = v\<rparr>)" by simp
next
  fix c :: u16 and st :: "bytes list fs" and data :: bytes
  assume a: "vars st = shipped_vars \<and> dev st = shipped_disk \<and> 2 \<le> unat c \<and> unat c < 2048"
  then show "fat_read_entry ram_io c st = Some (0, st)"
    using read_entry [of st c] shipped_layout shipped_entry in_fat_small [OF shipped_layout] by simp
  have "cluster_to_lba shipped_vars c = ucast c + 47" by (simp add: cluster_to_lba_def shipped_vars_def)
  moreover have "unat (ucast c :: u32) = unat c" using a by (simp add: unsigned_ucast_eq take_bit_nat_eq_self)
  ultimately have lba: "unat (cluster_to_lba shipped_vars c) = unat c + 47" using a by (simp add: unat_word_ariths)
  have one: "write_cluster ram_io lba data 512 0 1 1 s = Some s" for lba s by (subst write_cluster.simps) simp
  assume l: "length data = 512"
  have "write_cluster ram_io (cluster_to_lba shipped_vars c) data 512 0 1 0 st
      = write_sec ram_io (cluster_to_lba shipped_vars c) data st"
    by (subst write_cluster.simps) (use l one in \<open>auto simp: memset_ok memcpy_ok split: option.splits\<close>)
  then show "write_cluster ram_io (cluster_to_lba shipped_vars c) data 512 0 1 0 st = None \<longleftrightarrow> 2000 < unat c"
    using a l lba shipped_ok(4) by (auto simp: write_sec_def ram_io_def)
qed

theorem fat_scan_beyond_disk_witness:
  "fat_read_entry ram_io 2047 \<lparr>vars = shipped_vars, dev = shipped_disk, scr = no_text\<rparr>
     = Some (0, \<lparr>vars = shipped_vars, dev = shipped_disk, scr = no_text\<rparr>)
   \<and> write_cluster ram_io (cluster_to_lba shipped_vars 2047) (replicate 512 1) 512 0 1 0
       \<lparr>vars = shipped_vars, dev = shipped_disk, scr = no_text\<rparr> = None"
  using fat_scan_beyond_disk [THEN conjunct2, rule_format, of "\<lparr>vars = shipped_vars, dev = shipped_disk, scr = no_text\<rparr>" 2047]
  by simp

section \<open>The directory listing\<close>

lemma name_copy_ok:
  "p + hi \<le> length sector \<Longrightarrow> n + (hi - j) \<le> length name \<Longrightarrow>
   \<exists>name' n'. name_copy sector p j hi name n = Some (name', n') \<and> length name' = length name \<and> n' \<le> n + (hi - j)"
proof (induction "hi - j" arbitrary: j name n)
  case 0
  then show ?case by (subst name_copy.simps) simp
next
  case (Suc m)
  then have j: "j < hi" by simp
  show ?case
  proof (cases "sector ! (p + j) = 32")
    case True
    with Suc.hyps(1) [of "Suc j" n name] Suc.hyps(2) Suc.prems j show ?thesis
      by (subst name_copy.simps) fastforce
  next
    case False
    with Suc.hyps(1) [of "Suc j" "Suc n" "name[n := sector ! (p + j)]"] Suc.hyps(2) Suc.prems j show ?thesis
      by (subst name_copy.simps) fastforce
  qed
qed

text \<open>
  (C40) The listing does not print names or sizes: for every ordinary file it writes the
  characters of the unsupported width specification and then the address of the name buffer,
  in decimal, where the size should be.
\<close>

theorem fat16_list_prints_address:
  assumes "p + 32 \<le> length sector" "sector ! p \<noteq> 0" "sector ! p \<noteq> 0xE5" "sector ! (p + 11) AND 0x0F = 0"
  shows "list_body name_addr i sector p n st
     = Some (Inr (n + 1), st\<lparr>scr := fold vga_putchar
         (ascii ''  %-13s '' @ numeral_str 10 (unat name_addr) @ ascii '' bytes'' @ [10]) (scr st)\<rparr>)"
proof -
  have at: "aget sector (p + k) = Some (sector ! (p + k))" if "k < 32" for k using assms(1) that by simp
  have vol: "sector ! (p + 11) AND 0x08 = 0"
  proof -
    have "sector ! (p + 11) AND 0x08 = (sector ! (p + 11) AND 0x0F) AND 0x08" by (simp add: and.assoc)
    then show ?thesis using assms(4) by simp
  qed
  obtain n1 k1 where c1: "name_copy sector p 0 8 (replicate 13 0) 0 = Some (n1, k1)" "length n1 = 13" "k1 \<le> 8"
    using name_copy_ok [of p 8 sector 0 0 "replicate 13 0"] assms(1) by auto
  have "\<exists>n2 k2. (if sector ! (p + 8) \<noteq> 32 then do { nm \<leftarrow> aput n1 k1 46; name_copy sector p 8 11 nm (Suc k1) }
        else Some (n1, k1)) = Some (n2, k2) \<and> length n2 = 13 \<and> k2 \<le> 12"
    using name_copy_ok [of p 11 sector "Suc k1" 8 "n1[k1 := 46]"] c1 assms(1) by fastforce
  then obtain n2 k2 where c2: "(if sector ! (p + 8) \<noteq> 32 then do { nm \<leftarrow> aput n1 k1 46; name_copy sector p 8 11 nm (Suc k1) }
        else Some (n1, k1)) = Some (n2, k2)" "length n2 = 13" "k2 \<le> 12" by blast
  have c3: "aput n2 k2 0 = Some (n2[k2 := 0])" using c2 by simp
  have c4: "\<exists>x. rd32 sector (p + 28) = Some x" using assms(1) by (simp add: rd32_def rd16_in)
  let ?f = "''  %-13s %u bytes'' @ [CHR 0x0A]"
  have "render (ascii ?f) [Arg_ptr name_addr nm, Arg_int x]
      = Some (ascii ''  %-13s '' @ numeral_str 10 (unat name_addr) @ ascii '' bytes'' @ [10])" for nm x
    by (simp add: ascii_def render_conv_def)
  then have "say ?f [Arg_ptr name_addr nm, Arg_int x] st = Some (st\<lparr>scr := fold vga_putchar
         (ascii ''  %-13s '' @ numeral_str 10 (unat name_addr) @ ascii '' bytes'' @ [10]) (scr st)\<rparr>)" for nm x
    using printf_render [of "ascii ?f" "[Arg_ptr name_addr nm, Arg_int x]" "scr st"]
    by (simp add: say_def lit_def ascii_def)
  then show ?thesis
    using at [of 0] at [of 8] at [of 11] assms(2-4) vol c1(1) c2(1) c3 c4
    by (auto simp: list_body_def)
qed

theorem fat16_list_prints_address_witness:
  "\<exists>st1. list_body 0x9000 0 (mk_entry (fat83 a_txt) 2 1) 0 0 small_fs = Some (Inr 1, st1)"
proof -
  have "mk_entry (fat83 a_txt) 2 1 ! 11 AND 0x0F = 0"
    by (subst mk_entry_fields(6)) simp_all
  then show ?thesis
    using fat16_list_prints_address [where p = 0 and sector = "mk_entry (fat83 a_txt) 2 1" and name_addr = "0x9000"
        and i = 0 and n = 0 and st = "small_fs"] a_txt(3)
    by (simp add: mk_entry_fields)
qed

end
