(* ===== verification/Bh_Shell.thy ===== *)
theory Bh_Shell
  imports Bh_Isr Bh_Paging Bh_FatLimits
begin

text \<open>
  The shell, \<^verbatim>\<open>shell/shell.c\<close>: the command interpreter with its commands, the prompt
  loop, the ring 3 program and the background thread. The machine joins the states of the
  components the commands reach. A command gives \<open>Inr\<close> the machine it returns with, or
  \<open>Inl\<close> the machine halted in the page-fault handler; \<^const>\<open>None\<close> is a hang or undefined
  behaviour. The parameter \<open>fp\<close> is the address of a local array; it matters only for not
  being null and in the directory listing, which prints it.
\<close>

section \<open>The machine\<close>

record 'd machine =
  fsys :: "'d fs"
  ram :: mem
  pg :: paging
  tmr :: timer
  keys :: kbd
  pending :: "irq list"

abbreviation screen :: "'d machine \<Rightarrow> vga" where "screen m \<equiv> scr (fsys m)"

definition set_screen :: "vga \<Rightarrow> 'd machine \<Rightarrow> 'd machine" where
  "set_screen v m = m\<lparr>fsys := (fsys m)\<lparr>scr := v\<rparr>\<rparr>"

definition msay :: "string \<Rightarrow> arg list \<Rightarrow> 'd machine \<Rightarrow> 'd machine option" where
  "msay fmt args m = do { f \<leftarrow> say fmt args (fsys m); Some (m\<lparr>fsys := f\<rparr>) }"

definition color :: "u8 \<Rightarrow> 'd machine \<Rightarrow> 'd machine" where
  "color fg m = set_screen (vga_set_color fg VGA_BLACK (screen m)) m"

abbreviation (input) nl :: string where "nl \<equiv> [CHR 0x0A]"

section \<open>Commands\<close>

definition shell_init :: "'d machine \<Rightarrow> 'd machine option" where
  "shell_init m = do {
     m1 \<leftarrow> msay (nl @ ''========================================'' @ nl) [] (color VGA_LIGHT_CYAN m);
     m2 \<leftarrow> msay (''   Welcome to BlackHole OS Shell v0.1   '' @ nl) [] m1;
     m3 \<leftarrow> msay (''========================================'' @ nl @ nl) [] m2;
     msay (''Type '' @ [CHR 0x27] @ ''help'' @ [CHR 0x27] @ '' for a list of commands.'' @ nl @ nl) [] (color VGA_WHITE m3) }"

definition cmd_help :: "'d machine \<Rightarrow> 'd machine option" where
  "cmd_help m = do {
     m1 \<leftarrow> msay (''Available commands:'' @ nl) [] (color VGA_LIGHT_BLUE m);
     m2 \<leftarrow> msay (''  help        - Show this help message'' @ nl) [] (color VGA_WHITE m1);
     m3 \<leftarrow> msay (''  echo <text> - Print text back to the screen'' @ nl) [] m2;
     m4 \<leftarrow> msay (''  clear       - Clear the screen'' @ nl) [] m3;
     m5 \<leftarrow> msay (''  alloc       - Test memory allocator'' @ nl) [] m4;
     m6 \<leftarrow> msay (''  uptime      - Show system uptime in centiseconds'' @ nl) [] m5;
     m7 \<leftarrow> msay (''  sleep       - Sleep for 1 second'' @ nl) [] m6;
     m8 \<leftarrow> msay (''  pagefault   - Trigger a deliberate Page Fault (Security Test)'' @ nl) [] m7;
     m9 \<leftarrow> msay (''  diskread    - Read sector 10 from HDD'' @ nl) [] m8;
     m10 \<leftarrow> msay (''  diskwrite   - Write '' @ [CHR 0x27] @ ''Hello Disk!'' @ [CHR 0x27] @ '' to sector 10 of HDD'' @ nl) [] m9;
     m11 \<leftarrow> msay (''  ls          - List files in root directory'' @ nl) [] m10;
     m12 \<leftarrow> msay (''  cat <file>  - Read and display file contents'' @ nl) [] m11;
     m13 \<leftarrow> msay (''  write <f> <text> - Create/overwrite a file'' @ nl) [] m12;
     msay (''  rm <file>   - Delete a file'' @ nl) [] m13 }"

definition cmd_alloc :: "'d machine \<Rightarrow> 'd machine option" where
  "cmd_alloc m = do {
     m1 \<leftarrow> msay ''Allocating 64 bytes... '' [] m;
     (ptr, r) \<leftarrow> memory_alloc 64 (ram m1);
     let m2 = m1\<lparr>ram := r\<rparr>;
     if ptr \<noteq> 0 then do {
       m3 \<leftarrow> msay (''SUCCESS'' @ nl) [] (color VGA_LIGHT_GREEN m2);
       let m4 = color VGA_WHITE m3;
       r' \<leftarrow> memory_free ptr (ram m4);
       msay (''Memory block freed.'' @ nl) [] (m4\<lparr>ram := r'\<rparr>) }
     else do {
       m3 \<leftarrow> msay (''FAILED'' @ nl) [] (color VGA_LIGHT_RED m2);
       Some (color VGA_WHITE m3) } }"

definition cmd_sleep :: "'d machine \<Rightarrow> 'd machine option" where
  "cmd_sleep m = do {
     m1 \<leftarrow> msay ''Sleeping for 1000ms... '' [] m;
     (irqs, t, k) \<leftarrow> sleep 1000 (pending m1) (tmr m1) (keys m1);
     msay (''Done!'' @ nl) [] (m1\<lparr>pending := irqs, tmr := t, keys := k\<rparr>) }"

text \<open>A store through the page tables: a fault enters the handler and halts the machine.\<close>

definition cmd_pagefault :: "'d machine \<Rightarrow> ('d machine + 'd machine) option" where
  "cmd_pagefault m = do {
     m1 \<leftarrow> msay (''Triggering Page Fault at 0xFFFFF000...'' @ nl) [] m;
     let bad_ptr = 0xFFFFF000;
     (case mmu (pg m1) (ram m1) False True bad_ptr of
        Some pa \<Rightarrow> Some (Inr (m1\<lparr>ram := st32 (ram m1) pa 0xDEADBEEF\<rparr>))
      | None \<Rightarrow> do { v \<leftarrow> isr14_handler bad_ptr (screen m1); Some (Inl (set_screen v m1)) }) }"

definition cmd_diskwrite :: "'d sector_io \<Rightarrow> 'd machine \<Rightarrow> 'd machine option" where
  "cmd_diskwrite io m = do {
     buffer \<leftarrow> memset (replicate 512 0) 0 0 512;
     buffer1 \<leftarrow> strcpy buffer 0 (lit ''Hello Disk! BlackHole OS was here.'') 0;
     m1 \<leftarrow> msay (''Writing to LBA 10...'' @ nl) [] m;
     f \<leftarrow> write_sec io 10 buffer1 (fsys m1);
     msay (''Write complete.'' @ nl) [] (m1\<lparr>fsys := f\<rparr>) }"

definition cmd_diskread :: "'d sector_io \<Rightarrow> u32 \<Rightarrow> 'd machine \<Rightarrow> 'd machine option" where
  "cmd_diskread io fp m = do {
     m1 \<leftarrow> msay (''Reading from LBA 10...'' @ nl) [] m;
     (buffer, f) \<leftarrow> read_sec io 10 (fsys m1);
     msay (''Data: %s'' @ nl) [Arg_ptr fp buffer] (m1\<lparr>fsys := f\<rparr>) }"

definition cmd_ls :: "'d sector_io \<Rightarrow> u32 \<Rightarrow> 'd machine \<Rightarrow> 'd machine option" where
  "cmd_ls io fp m = do {
     m1 \<leftarrow> msay (''Root directory:'' @ nl) [] m;
     f \<leftarrow> fat16_list_root io fp (fsys m1);
     Some (m1\<lparr>fsys := f\<rparr>) }"

definition cmd_cat :: "'d sector_io \<Rightarrow> u32 \<Rightarrow> bytes \<Rightarrow> 'd machine \<Rightarrow> 'd machine option" where
  "cmd_cat io fp filename m = do {
     buf \<leftarrow> memset (replicate 2048 0) 0 0 2048;
     ((bytes, buf1), f) \<leftarrow> fat16_read_file io filename buf 2047 (fsys m);
     let m1 = m\<lparr>fsys := f\<rparr>;
     if bytes < 0 then do {
       m2 \<leftarrow> msay (''File not found: %s'' @ nl) [Arg_ptr fp filename] (color VGA_LIGHT_RED m1);
       Some (color VGA_WHITE m2) }
     else do {
       buf2 \<leftarrow> aput buf1 (nat bytes) 0;
       msay (''%s'' @ nl) [Arg_ptr fp buf2] m1 } }"

function name_loop :: "bytes \<Rightarrow> nat \<Rightarrow> bytes \<Rightarrow> (bytes \<times> nat) option" where
  "name_loop args i filename = (case aget args i of
     None \<Rightarrow> None
   | Some c \<Rightarrow>
       if c \<noteq> 0 \<and> c \<noteq> 32 \<and> i < 31 then (case aput filename i c of
           None \<Rightarrow> None
         | Some filename' \<Rightarrow> name_loop args (Suc i) filename')
       else Some (filename, i))"
  by pat_completeness auto
termination by (relation "measure (\<lambda>(args, i, filename). 31 - i)") auto

declare name_loop.simps [simp del]

definition cmd_write :: "'d sector_io \<Rightarrow> u32 \<Rightarrow> bytes \<Rightarrow> 'd machine \<Rightarrow> 'd machine option" where
  "cmd_write io fp args m = do {
     (filename0, i0) \<leftarrow> name_loop args 0 (replicate 32 0);
     filename \<leftarrow> aput filename0 i0 0;
     c \<leftarrow> aget args i0;
     let i = (if c = 32 then Suc i0 else i0);
     let data = drop i args;
     len \<leftarrow> strlen data 0;
     (r, f) \<leftarrow> fat16_write_file io filename data (of_nat len) (fsys m);
     let m1 = m\<lparr>fsys := f\<rparr>;
     if r = 0 then do {
       m2 \<leftarrow> msay (''Wrote %u bytes to '' @ [CHR 0x27] @ ''%s'' @ [CHR 0x27] @ ''.'' @ nl)
                [Arg_int (of_nat len), Arg_ptr fp filename] (color VGA_LIGHT_GREEN m1);
       Some (color VGA_WHITE m2) }
     else Some m1 }"

definition cmd_rm :: "'d sector_io \<Rightarrow> u32 \<Rightarrow> bytes \<Rightarrow> 'd machine \<Rightarrow> 'd machine option" where
  "cmd_rm io fp filename m = do {
     (r, f) \<leftarrow> fat16_delete_file io filename (fsys m);
     let m1 = m\<lparr>fsys := f\<rparr>;
     if r = 0 then msay (''Deleted '' @ [CHR 0x27] @ ''%s'' @ [CHR 0x27] @ ''.'' @ nl) [Arg_ptr fp filename] m1
     else do {
       m2 \<leftarrow> msay (''File not found: %s'' @ nl) [Arg_ptr fp filename] (color VGA_LIGHT_RED m1);
       Some (color VGA_WHITE m2) } }"

section \<open>The interpreter\<close>

text \<open>\<^verbatim>\<open>strcmp(cmd, "...") == 0\<close> and \<^verbatim>\<open>strncmp(cmd, "...", n) == 0\<close>.\<close>

definition cmd_is :: "bytes \<Rightarrow> string \<Rightarrow> bool option" where
  "cmd_is cmd name = do { r \<leftarrow> strcmp cmd 0 (lit name) 0; Some (r = 0) }"

definition cmd_starts :: "bytes \<Rightarrow> string \<Rightarrow> nat \<Rightarrow> bool option" where
  "cmd_starts cmd name n = do { r \<leftarrow> strncmp cmd 0 (lit name) 0 n; Some (r = 0) }"

text \<open>\<^verbatim>\<open>if (test) then; else if ...\<close>\<close>

definition else_if :: "bool option \<Rightarrow> 'a option \<Rightarrow> 'a option \<Rightarrow> 'a option" where
  "else_if test a b = do { t \<leftarrow> test; if t then a else b }"

definition execute_command :: "'d sector_io \<Rightarrow> u32 \<Rightarrow> bytes \<Rightarrow> 'd machine \<Rightarrow> ('d machine + 'd machine) option" where
  "execute_command io fp cmd m =
     (let ret = map_option Inr in
      else_if (map_option (\<lambda>c. c = 0) (aget cmd 0)) (Some (Inr m))
      (else_if (cmd_is cmd ''help'') (ret (cmd_help m))
      (else_if (cmd_is cmd ''clear'') (Some (Inr (set_screen (vga_clear (screen m)) m)))
      (else_if (cmd_starts cmd ''echo '' 5) (ret (msay (''%s'' @ nl) [Arg_ptr (fp + 5) (drop 5 cmd)] m))
      (else_if (cmd_is cmd ''alloc'') (ret (cmd_alloc m))
      (else_if (cmd_is cmd ''uptime'')
         (ret (msay (''System uptime: %u ticks (each tick = 10ms)'' @ nl) [Arg_int (timer_get_ticks (tmr m))] m))
      (else_if (cmd_is cmd ''sleep'') (ret (cmd_sleep m))
      (else_if (cmd_is cmd ''pagefault'') (cmd_pagefault m)
      (else_if (cmd_is cmd ''diskwrite'') (ret (cmd_diskwrite io m))
      (else_if (cmd_is cmd ''diskread'') (ret (cmd_diskread io fp m))
      (else_if (cmd_is cmd ''ls'') (ret (cmd_ls io fp m))
      (else_if (cmd_starts cmd ''cat '' 4) (ret (cmd_cat io fp (drop 4 cmd) m))
      (else_if (cmd_starts cmd ''write '' 6) (ret (cmd_write io fp (drop 6 cmd) m))
      (else_if (cmd_starts cmd ''rm '' 3) (ret (cmd_rm io fp (drop 3 cmd) m))
      (ret (do {
         m1 \<leftarrow> msay (''Unknown command: %s'' @ nl) [Arg_ptr fp cmd] (color VGA_LIGHT_RED m);
         Some (color VGA_WHITE m1) }))))))))))))))))"

section \<open>The prompt loop\<close>

text \<open>
  The pending interrupts a reader consumes: up to the \<open>n\<close>-th keyboard interrupt; the timer
  interrupts among them are counted.
\<close>

fun take_keys :: "nat \<Rightarrow> irq list \<Rightarrow> nat \<times> irq list" where
  "take_keys 0 irqs = (0, irqs)"
| "take_keys (Suc n) [] = (0, [])"
| "take_keys (Suc n) (Irq_timer # irqs) = (case take_keys (Suc n) irqs of (t, r) \<Rightarrow> (Suc t, r))"
| "take_keys (Suc n) (Irq_key sc # irqs) = take_keys n irqs"

definition read_line :: "bytes \<Rightarrow> nat \<Rightarrow> 'd machine \<Rightarrow> (bytes \<times> 'd machine) option" where
  "read_line buf mx m = do {
     let codes = scancodes (pending m);
     (buf', k, rest, v) \<leftarrow> keyboard_readline buf mx (keys m) codes (screen m);
     let (ticks, irqs) = take_keys (length codes - length rest) (pending m);
     Some (buf', set_screen v (m\<lparr>keys := k, pending := irqs, tmr := (tmr m)\<lparr>tick := tick (tmr m) + of_nat ticks\<rparr>\<rparr>)) }"

definition MAX_CMD_LEN :: nat where "MAX_CMD_LEN = 128"

text \<open>One round of the loop, with the command buffer; and a number of rounds, cut short by a fault.\<close>

definition shell_step :: "'d sector_io \<Rightarrow> u32 \<Rightarrow> bytes \<Rightarrow> 'd machine \<Rightarrow> (bytes \<times> ('d machine + 'd machine)) option" where
  "shell_step io fp cmd_buffer m = do {
     m1 \<leftarrow> msay ''BH-OS> '' [] (color VGA_YELLOW m);
     (cmd, m2) \<leftarrow> read_line cmd_buffer MAX_CMD_LEN (color VGA_WHITE m1);
     r \<leftarrow> execute_command io fp cmd m2;
     Some (cmd, r) }"

fun shell_loop :: "'d sector_io \<Rightarrow> u32 \<Rightarrow> nat \<Rightarrow> bytes \<Rightarrow> 'd machine \<Rightarrow> (bytes \<times> ('d machine + 'd machine)) option" where
  "shell_loop io fp 0 cmd_buffer m = Some (cmd_buffer, Inr m)"
| "shell_loop io fp (Suc n) cmd_buffer m = do {
     (cmd, r) \<leftarrow> shell_step io fp cmd_buffer m;
     (case r of Inl m' \<Rightarrow> Some (cmd, Inl m') | Inr m' \<Rightarrow> shell_loop io fp n cmd m') }"

section \<open>The ring 3 program and the background thread\<close>

text \<open>The system call of \<^verbatim>\<open>user_main\<close>, which then spins; \<open>msg\<close> is the address of its string.\<close>

definition user_main :: "u32 \<Rightarrow> u32 \<Rightarrow> vga \<Rightarrow> vga option" where
  "user_main msg ecx v = isr128_handler 1 (Arg_ptr msg (lit ''Hello from Ring 3 (User Space)!'')) ecx v"

text \<open>
  One round of \<^verbatim>\<open>background_task\<close>: the counter is written into the character bytes of the
  cells from 70 on. The character is promoted with its sign before it is joined with the old
  attribute.
\<close>

function draw_loop :: "bytes \<Rightarrow> nat \<Rightarrow> int \<Rightarrow> vga \<Rightarrow> vga option" where
  "draw_loop buffer i offset v = (case aget buffer i of
     None \<Rightarrow> None
   | Some c \<Rightarrow>
       if c \<noteq> 0 then
         let a = 2 * (offset + int i);
             w = (word_of_bytes (vmem v a) (vmem v (a + 1)) AND 0xFF00) OR scast c
         in draw_loop buffer (Suc i) offset (v\<lparr>vmem := (vmem v)(a := ucast w, a + 1 := ucast (drop_bit 8 w))\<rparr>)
       else Some v)"
  by pat_completeness auto
termination by (relation "measure (\<lambda>(buffer, i, offset, v). length buffer - i)") (auto simp: aget_Some_iff)

declare draw_loop.simps [simp del]

definition background_task :: "u32 \<Rightarrow> 'd machine \<Rightarrow> (u32 \<times> 'd machine) option" where
  "background_task count m = do {
     buffer \<leftarrow> uitoa count (replicate 16 0) 10;
     v1 \<leftarrow> draw_loop buffer 0 70 (screen m);
     let m1 = set_screen v1 m;
     (irqs, t, k) \<leftarrow> sleep 1000 (pending m1) (tmr m1) (keys m1);
     Some (count + 1, m1\<lparr>pending := irqs, tmr := t, keys := k\<rparr>) }"

text \<open>
  The demo: the background thread is created before the prompt loop, of which \<open>n\<close> rounds are
  taken; \<open>background\<close> is the address of \<^verbatim>\<open>background_task\<close>.
\<close>

definition shell_start_multitasking_demo ::
  "'d sector_io \<Rightarrow> u32 \<Rightarrow> u32 \<Rightarrow> nat \<Rightarrow> bytes \<Rightarrow> sched \<Rightarrow> cpu \<Rightarrow> 'd machine \<Rightarrow> (sched \<times> cpu \<times> bytes \<times> ('d machine + 'd machine)) option" where
  "shell_start_multitasking_demo io fp background n cmd_buffer s c m = do {
     m1 \<leftarrow> shell_init m;
     (s1, c1, r) \<leftarrow> create_kernel_thread background s c (ram m1);
     (cmd, res) \<leftarrow> shell_loop io fp n cmd_buffer (m1\<lparr>ram := r\<rparr>);
     Some (s1, c1, cmd, res) }"

section \<open>Printing\<close>

text \<open>The machine after the characters \<open>s\<close> were printed.\<close>

definition mputs :: "bytes \<Rightarrow> 'd machine \<Rightarrow> 'd machine" where
  "mputs s m = set_screen (fold vga_putchar s (screen m)) m"

lemma set_screen_sel [simp]:
  "screen (set_screen v m) = v" "ram (set_screen v m) = ram m" "pg (set_screen v m) = pg m"
  "tmr (set_screen v m) = tmr m" "keys (set_screen v m) = keys m" "pending (set_screen v m) = pending m"
  "dev (fsys (set_screen v m)) = dev (fsys m)" "vars (fsys (set_screen v m)) = vars (fsys m)"
  by (simp_all add: set_screen_def)

lemma machine_sel [simp]:
  "screen (mputs s m) = fold vga_putchar s (screen m)" "screen (color c m) = vga_set_color c VGA_BLACK (screen m)"
  "ram (mputs s m) = ram m" "ram (color c m) = ram m" "pg (mputs s m) = pg m" "pg (color c m) = pg m"
  "tmr (mputs s m) = tmr m" "tmr (color c m) = tmr m" "keys (mputs s m) = keys m" "keys (color c m) = keys m"
  "pending (mputs s m) = pending m" "pending (color c m) = pending m"
  "dev (fsys (mputs s m)) = dev (fsys m)" "dev (fsys (color c m)) = dev (fsys m)"
  "vars (fsys (mputs s m)) = vars (fsys m)" "vars (fsys (color c m)) = vars (fsys m)"
  by (simp_all add: mputs_def color_def)

lemma mputs_Nil [simp]: "mputs [] m = m"
  by (simp add: mputs_def set_screen_def)

lemma mputs_mputs [simp]: "mputs t (mputs s m) = mputs (s @ t) m"
  by (simp add: mputs_def set_screen_def)

lemma msay_printf: "printf (lit f) args (screen m) = Some (n, fold vga_putchar s (screen m)) \<Longrightarrow> msay f args m = Some (mputs s m)"
  by (simp add: msay_def say_def mputs_def set_screen_def)

lemma msay_text: "CHR 0x00 \<notin> set f \<Longrightarrow> CHR 0x25 \<notin> set f \<Longrightarrow> msay f args m = Some (mputs (ascii f) m)"
  by (rule msay_printf) (rule printf_text)

text \<open>One string argument between plain texts.\<close>

lemma msay_str:
  assumes "CHR 0x00 \<notin> set f" "CHR 0x25 \<notin> set f" "CHR 0x00 \<notin> set g" "CHR 0x25 \<notin> set g" "str_at obj 0 s" "a \<noteq> 0"
  shows "msay (f @ CHR 0x25 # CHR ''s'' # g) [Arg_ptr a obj] m = Some (mputs (ascii f @ s @ ascii g) m)"
proof -
  have "render_conv (of_char (CHR ''s'')) [Arg_ptr a obj] = Some (s, [])"
    using assms(5,6) by (simp add: render_conv_def flip: cstring_str_at)
  from msay_printf [OF printf_conv1 [OF assms(1-4) _ this]] show ?thesis by simp
qed

lemma ascii_nl [simp]: "ascii nl = [10]"
  by (simp add: ascii_def)

section \<open>Dispatch\<close>

lemma lit_str_at: "CHR 0x00 \<notin> set f \<Longrightarrow> str_at (lit f) 0 (ascii f)"
  using str_at_0 [of "ascii f" "[]"] by (simp add: lit_def ascii_mem)

lemma cmd_is_str: "str_at cmd 0 s \<Longrightarrow> CHR 0x00 \<notin> set f \<Longrightarrow> cmd_is cmd f = Some (s = ascii f)"
  using strcmp_str_at [OF _ lit_str_at, of cmd 0 s f] by (auto simp: cmd_is_def)

lemma cmd_starts_str:
  "str_at cmd 0 s \<Longrightarrow> CHR 0x00 \<notin> set f \<Longrightarrow> n = length f \<Longrightarrow> cmd_starts cmd f n = Some (take n s = ascii f)"
  using strncmp_str_at [OF _ lit_str_at, of cmd 0 s f n] by (auto simp: cmd_starts_def)

lemma else_if_Some [simp]: "else_if (Some b) x y = (if b then x else y)"
  by (simp add: else_if_def)

lemma str_at_suffix: "str_at b 0 s \<Longrightarrow> n \<le> length s \<Longrightarrow> str_at (drop n b) 0 (drop n s)"
  by (auto simp: str_at_def dest: in_set_dropD) (metis drop_take)

lemma str_at_drop_lit: "str_at b 0 s \<Longrightarrow> take n s = ascii f \<Longrightarrow> n = length f \<Longrightarrow> str_at (drop n b) 0 (drop n s)"
  by (rule str_at_suffix) (auto dest: arg_cong [of _ _ length] simp: min_def split: if_splits)

text \<open>What a command line asks for.\<close>

datatype command = Nop | Help | Clear | Echo bytes | Alloc | Uptime | Sleep | Pagefault | Diskwrite | Diskread
  | Ls | Cat bytes | Write bytes | Rm bytes | Unknown bytes

definition parse :: "bytes \<Rightarrow> command" where
  "parse s =
     (if s = [] then Nop else if s = ascii ''help'' then Help else if s = ascii ''clear'' then Clear
      else if take 5 s = ascii ''echo '' then Echo (drop 5 s)
      else if s = ascii ''alloc'' then Alloc else if s = ascii ''uptime'' then Uptime
      else if s = ascii ''sleep'' then Sleep else if s = ascii ''pagefault'' then Pagefault
      else if s = ascii ''diskwrite'' then Diskwrite else if s = ascii ''diskread'' then Diskread
      else if s = ascii ''ls'' then Ls
      else if take 4 s = ascii ''cat '' then Cat (drop 4 s)
      else if take 6 s = ascii ''write '' then Write (drop 6 s)
      else if take 3 s = ascii ''rm '' then Rm (drop 3 s) else Unknown s)"

lemma str_at_first: "str_at cmd 0 s \<Longrightarrow> map_option (\<lambda>c. c = 0) (aget cmd 0) = Some (s = [])"
  by (cases s) (auto simp: str_at_Nil str_at_Cons)

definition run_command :: "'d sector_io \<Rightarrow> u32 \<Rightarrow> bytes \<Rightarrow> command \<Rightarrow> 'd machine \<Rightarrow> ('d machine + 'd machine) option" where
  "run_command io fp cmd c m = (case c of
      Nop \<Rightarrow> Some (Inr m)
    | Help \<Rightarrow> map_option Inr (cmd_help m)
    | Clear \<Rightarrow> Some (Inr (set_screen (vga_clear (screen m)) m))
    | Echo t \<Rightarrow> Some (Inr (mputs (t @ [10]) m))
    | Alloc \<Rightarrow> map_option Inr (cmd_alloc m)
    | Uptime \<Rightarrow> Some (Inr (mputs (ascii ''System uptime: '' @ numeral_str 10 (unat (tick (tmr m)))
                  @ ascii '' ticks (each tick = 10ms)'' @ [10]) m))
    | Sleep \<Rightarrow> map_option Inr (cmd_sleep m)
    | Pagefault \<Rightarrow> cmd_pagefault m
    | Diskwrite \<Rightarrow> map_option Inr (cmd_diskwrite io m)
    | Diskread \<Rightarrow> map_option Inr (cmd_diskread io fp m)
    | Ls \<Rightarrow> map_option Inr (cmd_ls io fp m)
    | Cat t \<Rightarrow> map_option Inr (cmd_cat io fp (drop 4 cmd) m)
    | Write t \<Rightarrow> map_option Inr (cmd_write io fp (drop 6 cmd) m)
    | Rm t \<Rightarrow> map_option Inr (cmd_rm io fp (drop 3 cmd) m)
    | Unknown t \<Rightarrow> Some (Inr (color VGA_WHITE (mputs (ascii ''Unknown command: '' @ t @ [10]) (color VGA_LIGHT_RED m)))))"

lemma execute_parse:
  assumes "str_at cmd 0 s" "fp \<noteq> 0" "fp + 5 \<noteq> 0"
  shows "execute_command io fp cmd m = run_command io fp cmd (parse s) m"
proof -
  note cis = cmd_is_str [OF assms(1)] and starts = cmd_starts_str [OF assms(1)]
  have echo: "msay (''%s'' @ nl) [Arg_ptr (fp + 5) (drop 5 cmd)] m = Some (mputs (drop 5 s @ [10]) m)" if "take 5 s = ascii ''echo ''"
    using msay_str [of "[]" nl "drop 5 cmd" "drop 5 s" "fp + 5" m] str_at_drop_lit [OF assms(1), of 5 "''echo ''"] that assms(3)
    by (simp add: ascii_def)
  have unk: "msay (''Unknown command: %s'' @ nl) [Arg_ptr fp cmd] m' = Some (mputs (ascii ''Unknown command: '' @ s @ [10]) m')" for m' :: "'a machine"
    using msay_str [of "''Unknown command: ''" nl cmd s fp m'] assms(1,2) by simp
  have up: "msay (''System uptime: %u ticks (each tick = 10ms)'' @ nl) [Arg_int (timer_get_ticks (tmr m))] m
      = Some (mputs (ascii ''System uptime: '' @ numeral_str 10 (unat (tick (tmr m))) @ ascii '' ticks (each tick = 10ms)'' @ [10]) m)"
  proof -
    have tl: "ascii ('' ticks (each tick = 10ms)'' @ nl) = ascii '' ticks (each tick = 10ms)'' @ [10]"
      by (simp only: ascii_append ascii_nl)
    have "render_conv (of_char (CHR ''u'')) [Arg_int (tick (tmr m))] = Some (numeral_str 10 (unat (tick (tmr m))), [])"
      by (simp add: render_conv_def)
    from msay_printf [OF printf_conv1 [of "''System uptime: ''" "'' ticks (each tick = 10ms)'' @ nl", OF _ _ _ _ _ this]] tl
    show ?thesis by (simp add: timer_get_ticks_def)
  qed
  define h where "h \<longleftrightarrow> s = ascii ''help''"
  define cl where "cl \<longleftrightarrow> s = ascii ''clear''"
  define e where "e \<longleftrightarrow> take 5 s = ascii ''echo ''"
  define al where "al \<longleftrightarrow> s = ascii ''alloc''"
  define u where "u \<longleftrightarrow> s = ascii ''uptime''"
  define sl where "sl \<longleftrightarrow> s = ascii ''sleep''"
  define pf where "pf \<longleftrightarrow> s = ascii ''pagefault''"
  define dw where "dw \<longleftrightarrow> s = ascii ''diskwrite''"
  define dr where "dr \<longleftrightarrow> s = ascii ''diskread''"
  define l where "l \<longleftrightarrow> s = ascii ''ls''"
  define ca where "ca \<longleftrightarrow> take 4 s = ascii ''cat ''"
  define w where "w \<longleftrightarrow> take 6 s = ascii ''write ''"
  define r where "r \<longleftrightarrow> take 3 s = ascii ''rm ''"
  define z where "z \<longleftrightarrow> s = []"
  note tests = cis [of "''help''", folded h_def]
    cis [of "''clear''", folded cl_def]
    starts [of "''echo ''" 5, folded e_def]
    cis [of "''alloc''", folded al_def]
    cis [of "''uptime''", folded u_def]
    cis [of "''sleep''", folded sl_def]
    cis [of "''pagefault''", folded pf_def]
    cis [of "''diskwrite''", folded dw_def]
    cis [of "''diskread''", folded dr_def]
    cis [of "''ls''", folded l_def]
    starts [of "''cat ''" 4, folded ca_def]
    starts [of "''write ''" 6, folded w_def]
    starts [of "''rm ''" 3, folded r_def]
    str_at_first [OF assms(1), folded z_def]
  have p: "parse s = (if z then Nop else if h then Help else if cl then Clear else if e then Echo (drop 5 s)
      else if al then Alloc else if u then Uptime else if sl then Sleep else if pf then Pagefault else if dw then Diskwrite
      else if dr then Diskread else if l then Ls else if ca then Cat (drop 4 s) else if w then Write (drop 6 s)
      else if r then Rm (drop 3 s) else Unknown s)"
    unfolding parse_def h_def cl_def e_def al_def u_def sl_def pf_def dw_def dr_def l_def ca_def w_def r_def z_def by (rule refl)
  have ex: "execute_command io fp cmd m = (if z then Some (Inr m) else if h then map_option Inr (cmd_help m)
      else if cl then Some (Inr (set_screen (vga_clear (screen m)) m)) else if e then Some (Inr (mputs (drop 5 s @ [10]) m))
      else if al then map_option Inr (cmd_alloc m)
      else if u then Some (Inr (mputs (ascii ''System uptime: '' @ numeral_str 10 (unat (tick (tmr m)))
                  @ ascii '' ticks (each tick = 10ms)'' @ [10]) m))
      else if sl then map_option Inr (cmd_sleep m) else if pf then cmd_pagefault m
      else if dw then map_option Inr (cmd_diskwrite io m) else if dr then map_option Inr (cmd_diskread io fp m)
      else if l then map_option Inr (cmd_ls io fp m) else if ca then map_option Inr (cmd_cat io fp (drop 4 cmd) m)
      else if w then map_option Inr (cmd_write io fp (drop 6 cmd) m) else if r then map_option Inr (cmd_rm io fp (drop 3 cmd) m)
      else Some (Inr (color VGA_WHITE (mputs (ascii ''Unknown command: '' @ s @ [10]) (color VGA_LIGHT_RED m)))))"
    using echo [folded e_def] unk up by (simp add: execute_command_def Let_def tests)
  show ?thesis unfolding p ex run_command_def by simp
qed

section \<open>Files through the shell\<close>

lemma name_loop_word:
  assumes "str_at args 0 (n @ 32 # t)" "32 \<notin> set n" "length n \<le> 31"
  shows "i \<le> length n \<Longrightarrow> length fn = 32 \<Longrightarrow> take i fn = take i n \<Longrightarrow>
    \<exists>fn'. name_loop args i fn = Some (fn', length n) \<and> length fn' = 32 \<and> take (length n) fn' = n"
proof (induction "length n - i" arbitrary: i fn)
  case 0
  have "aget args (length n) = Some 32" using str_at_nth [OF assms(1), of "length n"] by simp
  moreover have "i = length n" using 0 by simp
  ultimately show ?case using 0 by (simp add: name_loop.simps [of args "length n"])
next
  case (Suc k)
  then have i: "i < length n" by simp
  have il: "i < length (n @ 32 # t)" using i by simp
  have "n ! i \<noteq> 32" using assms(2) nth_mem [OF i] by metis
  then have c: "aget args i = Some (n ! i)" "n ! i \<noteq> 0" "n ! i \<noteq> 32"
    using str_at_nth [OF assms(1) il] i by (simp_all add: nth_append)
  have "take (Suc i) (fn[i := n ! i]) = take (Suc i) n"
    using Suc.prems i assms(3) by (simp add: take_Suc_conv_app_nth)
  with Suc.hyps(1) [of "Suc i" "fn[i := n ! i]"] Suc.hyps(2) Suc.prems c i assms(3) show ?case
    by (simp add: name_loop.simps [of args i])
qed

lemma str_at_put:
  assumes "take (length s) b = s" "length s < length b" "0 \<notin> set s"
  shows "str_at (b[length s := 0]) 0 s"
  using assms by (simp add: str_at_def)

lemma msay_wrote:
  assumes "str_at obj 0 n" "fp \<noteq> 0"
  shows "msay (''Wrote %u bytes to '' @ [CHR 0x27] @ ''%s'' @ [CHR 0x27] @ ''.'' @ nl) [Arg_int w, Arg_ptr fp obj] m
     = Some (mputs (ascii ''Wrote '' @ numeral_str 10 (unat w) @ ascii '' bytes to '' @ [39] @ n @ [39] @ ascii ''.'' @ [10]) m)"
proof -
  let ?f = "''Wrote %u bytes to '' @ [CHR 0x27] @ ''%s'' @ [CHR 0x27] @ ''.'' @ nl"
  have f: "ascii ?f = ascii ''Wrote '' @ 37 # 117 # ascii '' bytes to '' @ [39] @ 37 # 115 # [39] @ ascii ''.'' @ [10]"
    by (simp add: ascii_def)
  have u: "render_conv 117 [Arg_int w, Arg_ptr fp obj] = Some (numeral_str 10 (unat w), [Arg_ptr fp obj])"
    "render_conv 115 [Arg_ptr fp obj] = Some (n, [])"
    using assms by (simp_all add: render_conv_def flip: cstring_str_at)
  have "render (ascii ?f) [Arg_int w, Arg_ptr fp obj]
      = Some (ascii ''Wrote '' @ numeral_str 10 (unat w) @ ascii '' bytes to '' @ [39] @ n @ [39] @ ascii ''.'' @ [10])"
    unfolding f by (simp add: render_append ascii_mem u del: render.simps(1) add: render.simps)
  moreover have "0 \<notin> set (ascii ?f)" by (simp add: ascii_mem)
  ultimately show ?thesis by (intro msay_printf [OF printf_lit])
qed

lemma cmd_write_ok:
  assumes rep: "represents (vars (fsys m)) (dev (fsys m)) M" and args: "str_at args 0 (n @ 32 # t)" "32 \<notin> set n" "length n \<le> 31"
    and e5: "fat83 n ! 0 \<noteq> 0xE5" and fp: "fp \<noteq> 0"
    and sz: "length t + 512 * unat (sectors_per_cluster (vars (fsys m))) < 2 ^ 32"
    and room: "room (vars (fsys m)) (dev (fsys m)) (clusters_for (vars (fsys m)) (length t))"
    and slot: "M (fat83 n) \<noteq> None \<or> (\<exists>k < slots (vars (fsys m)). free_slot (slot (vars (fsys m)) (dev (fsys m)) k))"
  shows "\<exists>D'. cmd_write ram_io fp args m = Some (color VGA_WHITE (mputs
        (ascii ''Wrote '' @ numeral_str 10 (length t) @ ascii '' bytes to '' @ [39] @ n @ [39] @ ascii ''.'' @ [10])
        (color VGA_LIGHT_GREEN (m\<lparr>fsys := (fsys m)\<lparr>dev := D'\<rparr>\<rparr>))))
     \<and> represents (vars (fsys m)) D' (M(fat83 n \<mapsto> t)) \<and> length D' = length (dev (fsys m))"
proof -
  obtain fn where fn: "name_loop args 0 (replicate 32 0) = Some (fn, length n)" "length fn = 32" "take (length n) fn = n"
    using name_loop_word [OF args, of 0 "replicate 32 0"] by auto
  have n0: "0 \<notin> set n" using args(1) by (simp add: str_at_def)
  have name: "str_at (fn[length n := 0]) 0 n" using fn args(3) n0 by (intro str_at_put) auto
  have data: "str_at (drop (Suc (length n)) args) 0 t" using str_at_suffix [OF args(1), of "Suc (length n)"] by simp
  have c: "aget args (length n) = Some 32" using str_at_nth [OF args(1), of "length n"] by simp
  have u: "unat (of_nat (length t) :: u32) = length t" using sz by (intro unat_of_nat32) simp
  have "length t \<le> length (drop (Suc (length n)) args)" "take (length t) (drop (Suc (length n)) args) = t"
    using data by (simp_all add: str_at_def)
  with write_is_update [OF rep name e5, of "of_nat (length t)" "drop (Suc (length n)) args"] u sz room slot
  obtain D' where D': "fat16_write_file ram_io (fn[length n := 0]) (drop (Suc (length n)) args) (of_nat (length t)) (fsys m)
       = Some (0, (fsys m)\<lparr>dev := D'\<rparr>)" "represents (vars (fsys m)) D' (M(fat83 n \<mapsto> t))" "length D' = length (dev (fsys m))"
    by auto
  have l: "length n < length fn" using fn(2) args(3) by simp
  show ?thesis
    using D' fn(1) c l strlen_str_at [OF data] u
      msay_wrote [OF name fp, of "of_nat (length t)" "color VGA_LIGHT_GREEN (m\<lparr>fsys := (fsys m)\<lparr>dev := D'\<rparr>\<rparr>)"]
    by (intro exI [of _ D']) (simp add: cmd_write_def)
qed

lemma cmd_cat_ok:
  assumes rep: "represents (vars (fsys m)) (dev (fsys m)) M" and name: "str_at file 0 n" and t: "M (fat83 n) = Some t"
    and len: "length t \<le> 2047" and nul: "0 \<notin> set t" and fp: "fp \<noteq> 0"
  shows "cmd_cat ram_io fp file m = Some (mputs (t @ [10]) m)"
proof -
  have r: "fat16_read_file ram_io file (replicate 2048 0) 2047 (fsys m) = Some ((int (length t), t @ replicate (2048 - length t) 0), fsys m)"
    using read_is_lookup [OF rep name, of 2047 "replicate 2048 0"] t len by simp
  have "str_at ((t @ replicate (2048 - length t) 0)[length t := 0]) 0 t"
    using nul len by (intro str_at_put) auto
  from msay_str [of "[]" nl, OF _ _ _ _ this fp]
  have "msay (''%s'' @ nl) [Arg_ptr fp ((t @ replicate (2048 - length t) 0)[length t := 0])] m = Some (mputs (t @ [10]) m)"
    by (simp add: ascii_def)
  then show ?thesis using r len by (simp add: cmd_cat_def c_obj)
qed

section \<open>Reading a command\<close>

lemma keyboard_read_drop: "keyboard_read k irqs = Some (c, k', irqs') \<Longrightarrow> \<exists>n \<le> length irqs. irqs' = drop n irqs"
proof (induction k irqs rule: keyboard_read.induct)
  case (1 k)
  then show ?case by (auto split: if_splits prod.splits)
next
  case (2 k s irqs)
  show ?case
  proof (cases "buf_empty k")
    case True
    with 2 obtain n where "n \<le> length irqs" "irqs' = drop n irqs" by auto
    then show ?thesis by (intro exI [of _ "Suc n"]) simp
  next
    case False
    with 2(2) show ?thesis by (intro exI [of _ 0]) (auto split: prod.splits)
  qed
qed

lemma drop_of_drop: "n \<le> length xs \<Longrightarrow> m \<le> length (drop n xs) \<Longrightarrow> ys = drop m (drop n xs) \<Longrightarrow> \<exists>j \<le> length xs. ys = drop j xs"
  by (intro exI [of _ "m + n"]) (auto simp: add.commute)

lemma readline_loop_drop:
  assumes "readline_loop mx buf i k irqs v = Some (buf', i', k', irqs', v')"
  shows "\<exists>n \<le> length irqs. irqs' = drop n irqs"
proof -
  have "\<exists>n \<le> length irqs. fst (snd (snd (snd y))) = drop n irqs" if "readline_loop mx buf i k irqs v = Some y" for y
    using _ that
  proof (rule readline_loop.raw_induct [where P = "\<lambda>mx buf i k irqs v y. \<exists>n \<le> length irqs. fst (snd (snd (snd y))) = drop n irqs"])
    fix f :: "nat \<Rightarrow> bytes \<Rightarrow> nat \<Rightarrow> kbd \<Rightarrow> u8 list \<Rightarrow> vga \<Rightarrow> (bytes \<times> nat \<times> kbd \<times> u8 list \<times> vga) option"
    fix mx buf i k irqs v y
    assume ih: "\<And>mx buf i k irqs v y. f mx buf i k irqs v = Some y \<Longrightarrow> \<exists>n \<le> length irqs. fst (snd (snd (snd y))) = drop n irqs"
      and body: "(if i < mx - 1 then
        (case keyboard_read k irqs of
           None \<Rightarrow> None
         | Some (c, k', irqs') \<Rightarrow>
             if c = 10 then Some (buf, i, k', irqs', vga_putchar 10 v)
             else if c = 8 then
               (if i > 0 then
                  (case vga_print (lit [CHR 8, CHR 32, CHR 8]) 0 v of
                     None \<Rightarrow> None
                   | Some v' \<Rightarrow> f mx buf (i - 1) k' irqs' v')
                else f mx buf i k' irqs' v)
             else
               (case aput buf i c of
                  None \<Rightarrow> None
                | Some buf' \<Rightarrow> f mx buf' (Suc i) k' irqs' (vga_putchar c v)))
      else Some (buf, i, k, irqs, v)) = Some y"
    show "\<exists>n \<le> length irqs. fst (snd (snd (snd y))) = drop n irqs"
    proof (cases "i < mx - 1")
      case False
      with body show ?thesis by (intro exI [of _ 0]) auto
    next
      case True
      with body obtain c k' irqs' where rd: "keyboard_read k irqs = Some (c, k', irqs')" by (auto split: option.splits)
      from keyboard_read_drop [OF this] obtain n where n: "n \<le> length irqs" "irqs' = drop n irqs" by blast
      have "fst (snd (snd (snd y))) = irqs' \<or> (\<exists>b j w. f mx b j k' irqs' w = Some y)"
        using body True rd by (auto split: if_splits option.splits)
      then show ?thesis
      proof
        assume "fst (snd (snd (snd y))) = irqs'"
        with n show ?thesis by blast
      next
        assume "\<exists>b j w. f mx b j k' irqs' w = Some y"
        then obtain l where "l \<le> length irqs'" "fst (snd (snd (snd y))) = drop l irqs'" using ih by blast
        with drop_of_drop [OF n(1)] n(2) show ?thesis by blast
      qed
    qed
  qed
  from this [OF assms] show ?thesis by simp
qed

lemma readline_drop:
  "keyboard_readline buf mx k irqs v = Some (buf', k', irqs', v') \<Longrightarrow> \<exists>n \<le> length irqs. irqs' = drop n irqs"
  unfolding keyboard_readline_def by (auto split: option.splits dest: readline_loop_drop)

lemma take_keys_scancodes:
  "n \<le> length (scancodes irqs) \<Longrightarrow> scancodes (snd (take_keys n irqs)) = drop n (scancodes irqs)"
  by (induction n irqs rule: take_keys.induct) (auto split: prod.splits)

text \<open>The characters a keyboard delivers are not NUL if its buffer holds none.\<close>

lemma typed_nonzero: "0 \<notin> set (typed sh irqs)"
  by (induction sh irqs rule: typed.induct) auto

lemma line_edit_set: "line_edit mx acc cs = Some (l, e, r) \<Longrightarrow> set l \<subseteq> set acc \<union> set cs"
proof (induction mx acc cs arbitrary: l e r rule: line_edit.induct)
  case (2 mx acc c cs)
  then show ?case by (fastforce split: if_splits dest: in_set_butlastD)
qed (auto split: if_splits)

lemma shell_step_reads:
  assumes k: "kbd_ok (keys m)" and buf: "length buf = 128" and q: "0 \<notin> set (kbd_queue (keys m))"
    and ed: "line_edit 128 [] (kbd_stream (keys m) (scancodes (pending m))) = Some (l, e, r)"
  shows "\<exists>cmd m2. shell_step io fp buf m = map_option (Pair cmd) (execute_command io fp cmd m2)
      \<and> str_at cmd 0 l \<and> length l < 128 \<and> length cmd = 128
      \<and> screen m2 = fold vga_putchar e (vga_set_color VGA_WHITE VGA_BLACK (fold vga_putchar (ascii ''BH-OS> '') (vga_set_color VGA_YELLOW VGA_BLACK (screen m))))
      \<and> kbd_ok (keys m2) \<and> kbd_stream (keys m2) (scancodes (pending m2)) = r
      \<and> ram m2 = ram m \<and> pg m2 = pg m \<and> dev (fsys m2) = dev (fsys m) \<and> vars (fsys m2) = vars (fsys m)"
proof -
  let ?m = "color VGA_WHITE (mputs (ascii ''BH-OS> '') (color VGA_YELLOW m))"
  have p: "msay ''BH-OS> '' [] (color VGA_YELLOW m) = Some (mputs (ascii ''BH-OS> '') (color VGA_YELLOW m))"
    by (rule msay_text) simp_all
  from readline_edits [OF k, of 128 buf "scancodes (pending m)" "screen ?m"] buf ed
  obtain cmd k' irqs' where rl: "keyboard_readline buf 128 (keys m) (scancodes (pending m)) (screen ?m)
        = Some (cmd, k', irqs', fold vga_putchar e (screen ?m))"
      "length l < 128" "take (length l + 1) cmd = l @ [0]" "length cmd = 128" "kbd_ok k'" "kbd_stream k' irqs' = r"
    by (auto simp del: machine_sel)
  from readline_drop [OF rl(1)] obtain n where n: "n \<le> length (scancodes (pending m))" "irqs' = drop n (scancodes (pending m))" by blast
  obtain ticks irqs where tk: "take_keys n (pending m) = (ticks, irqs)" by (cases "take_keys n (pending m)")
  have si: "scancodes irqs = irqs'" using take_keys_scancodes [OF n(1)] tk n(2) by simp
  let ?m2 = "set_screen (fold vga_putchar e (screen ?m)) (?m\<lparr>keys := k', pending := irqs, tmr := (tmr m)\<lparr>tick := tick (tmr m) + of_nat ticks\<rparr>\<rparr>)"
  have rd: "read_line buf MAX_CMD_LEN ?m = Some (cmd, ?m2)"
    using rl(1) n tk by (simp add: read_line_def MAX_CMD_LEN_def)
  have "0 \<notin> set l" using line_edit_set [OF ed] q typed_nonzero by (auto simp: kbd_stream_def)
  moreover have "take (length l) cmd = l" "cmd ! length l = 0"
    using rl(2-4) by (simp_all add: take_Suc_conv_app_nth)
  ultimately have st: "str_at cmd 0 l" using rl(2,4) by (simp add: str_at_def)
  have step: "shell_step io fp buf m = map_option (Pair cmd) (execute_command io fp cmd ?m2)"
    by (cases "execute_command io fp cmd ?m2") (simp_all add: shell_step_def p rd)
  show ?thesis
    by (intro exI [of _ cmd] exI [of _ ?m2] conjI step st) (use rl si in \<open>simp_all add: color_def mputs_def set_screen_def\<close>)
qed

lemma shell_step_blocks:
  assumes k: "kbd_ok (keys m)" and buf: "length buf = 128"
    and ed: "line_edit 128 [] (kbd_stream (keys m) (scancodes (pending m))) = None"
  shows "shell_step io fp buf m = None"
proof -
  have p: "msay ''BH-OS> '' [] (color VGA_YELLOW m) = Some (mputs (ascii ''BH-OS> '') (color VGA_YELLOW m))"
    by (rule msay_text) simp_all
  show ?thesis
    using readline_edits [OF k, of 128 buf "scancodes (pending m)"] buf ed
    by (simp add: shell_step_def p read_line_def MAX_CMD_LEN_def)
qed

section \<open>The background thread\<close>

lemma low_byte: "(c :: u8) < 0x80 \<Longrightarrow> \<not> bit c 7"
proof
  assume c: "c < 0x80" "bit c 7"
  then have "bit (unat c) 7" by (simp add: bit_unsigned_iff)
  then have "odd (unat c div 2 ^ 7)" unfolding bit_iff_odd .
  moreover have "unat c div 2 ^ 7 = 0" using c(1) by (simp add: word_less_nat_alt)
  ultimately show False by (metis even_zero)
qed

text \<open>Joining an ASCII character with the old cell keeps the attribute.\<close>

lemma draw_word:
  fixes lo hi :: u8
  assumes "(c :: u8) < 0x80"
  defines "w \<equiv> (word_of_bytes lo hi AND 0xFF00) OR scast c"
  shows "ucast w = c" "ucast (drop_bit 8 w) = hi"
proof -
  have m: "(0xFF00 :: u16) = NOT (mask 8)" by (simp add: mask_eq_exp_minus_1)
  have s: "bit (scast c :: u16) n \<longleftrightarrow> n < 8 \<and> bit c n" for n
    using low_byte [OF assms(1)] bit_imp_le_length [of c n]
    by (cases "n < 7"; cases "n = 7") (auto simp: bit_simps min_def)
  have h: "\<not> bit lo (8 + n)" for n using bit_imp_le_length [of lo "8 + n"] by auto
  show "ucast w = c" "ucast (drop_bit 8 w) = hi"
    by (rule bit_word_eqI; simp add: w_def m word_of_bytes_def bit_simps s h low_byte [OF assms(1)])+
qed

lemma draw_loop_text:
  "str_at b i s \<Longrightarrow> \<forall>c \<in> set s. c < 0x80 \<Longrightarrow> lo = 2 * (off + int i) \<Longrightarrow>
   draw_loop b i off v = Some (v\<lparr>vmem := \<lambda>a. if lo \<le> a \<and> a < lo + 2 * int (length s) \<and> (a - lo) mod 2 = 0
      then s ! nat ((a - lo) div 2) else vmem v a\<rparr>)"
proof (induction s arbitrary: i v lo)
  case Nil
  have "(\<lambda>a. if lo \<le> a \<and> a < lo + 2 * int (length ([] :: bytes)) \<and> (a - lo) mod 2 = 0
      then [] ! nat ((a - lo) div 2) else vmem v a) = vmem v" by (rule ext) auto
  moreover have "draw_loop b i off v = Some v" using Nil.prems(1) by (subst draw_loop.simps) (auto simp: str_at_Nil)
  ultimately show ?case by simp
next
  case (Cons c s)
  have c: "aget b i = Some c" "c \<noteq> 0" "c < 0x80" using Cons.prems(1,2) by (auto simp: str_at_Cons)
  let ?v = "v\<lparr>vmem := (vmem v)(lo := c)\<rparr>"
  have "draw_loop b i off v = draw_loop b (Suc i) off ?v"
    using c Cons.prems(3) draw_word [OF c(3), of "vmem v lo" "vmem v (lo + 1)"]
    by (subst draw_loop.simps) (simp add: Let_def fun_upd_idem)
  also have "\<dots> = Some (?v\<lparr>vmem := \<lambda>a. if lo + 2 \<le> a \<and> a < lo + 2 + 2 * int (length s) \<and> (a - (lo + 2)) mod 2 = 0
      then s ! nat ((a - (lo + 2)) div 2) else vmem ?v a\<rparr>)"
    using Cons.prems by (intro Cons.IH) (auto simp: str_at_Cons)
  also have "(\<lambda>a. if lo + 2 \<le> a \<and> a < lo + 2 + 2 * int (length s) \<and> (a - (lo + 2)) mod 2 = 0
      then s ! nat ((a - (lo + 2)) div 2) else vmem ?v a)
    = (\<lambda>a. if lo \<le> a \<and> a < lo + 2 * int (length (c # s)) \<and> (a - lo) mod 2 = 0 then (c # s) ! nat ((a - lo) div 2) else vmem v a)"
  proof
    fix a
    show "(if lo + 2 \<le> a \<and> a < lo + 2 + 2 * int (length s) \<and> (a - (lo + 2)) mod 2 = 0
        then s ! nat ((a - (lo + 2)) div 2) else vmem ?v a)
      = (if lo \<le> a \<and> a < lo + 2 * int (length (c # s)) \<and> (a - lo) mod 2 = 0 then (c # s) ! nat ((a - lo) div 2) else vmem v a)"
    proof (cases "lo + 2 \<le> a \<and> (a - lo) mod 2 = 0")
      case True
      then have d: "(a - lo) div 2 = (a - (lo + 2)) div 2 + 1" "0 \<le> (a - (lo + 2)) div 2" "(a - (lo + 2)) mod 2 = 0" by presburger+
      then have "nat ((a - lo) div 2) = Suc (nat ((a - (lo + 2)) div 2))" by linarith
      with d show ?thesis using True by simp
    next
      case False
      then have "\<not> (lo + 2 \<le> a \<and> (a - (lo + 2)) mod 2 = 0)" "a = lo \<or> \<not> (lo \<le> a \<and> (a - lo) mod 2 = 0)" by presburger+
      then show ?thesis by auto
    qed
  qed
  finally show ?case by simp
qed

lemma numeral_str_low: "2 \<le> b \<Longrightarrow> b \<le> 16 \<Longrightarrow> \<forall>c \<in> set (numeral_str b n). c < 0x80"
proof -
  assume b: "2 \<le> b" "b \<le> 16"
  have "digit_char (int d) < 0x80" if "d \<in> set (lsd_digits b n)" for d
    using less_16_cases [OF lsd_digits_less16 [OF b that]] by (auto simp: digit_char_def)
  then show ?thesis by (cases "n = 0") (auto simp: numeral_str_pos numeral_str_0)
qed

section \<open>Properties\<close>

lemma parse_Cat: "parse s = Cat t \<Longrightarrow> take 4 s = ascii ''cat '' \<and> t = drop 4 s"
  unfolding parse_def by (auto split: if_splits)

lemma parse_Write: "parse s = Write t \<Longrightarrow> take 6 s = ascii ''write '' \<and> t = drop 6 s"
  unfolding parse_def by (auto split: if_splits)

lemma parse_Rm: "parse s = Rm t \<Longrightarrow> take 3 s = ascii ''rm '' \<and> t = drop 3 s"
  unfolding parse_def by (auto split: if_splits)

lemma parse_args:
  assumes "str_at cmd 0 s"
  shows "parse s = Cat t \<Longrightarrow> str_at (drop 4 cmd) 0 t" "parse s = Write t \<Longrightarrow> str_at (drop 6 cmd) 0 t"
    "parse s = Rm t \<Longrightarrow> str_at (drop 3 cmd) 0 t"
proof -
  show "str_at (drop 4 cmd) 0 t" if "parse s = Cat t"
    using str_at_drop_lit [OF assms conjunct1 [OF parse_Cat [OF that]]] parse_Cat [OF that] by simp
  show "str_at (drop 6 cmd) 0 t" if "parse s = Write t"
    using str_at_drop_lit [OF assms conjunct1 [OF parse_Write [OF that]]] parse_Write [OF that] by simp
  show "str_at (drop 3 cmd) 0 t" if "parse s = Rm t"
    using str_at_drop_lit [OF assms conjunct1 [OF parse_Rm [OF that]]] parse_Rm [OF that] by simp
qed

text \<open>
  (C23) The interpreter runs exactly the command the line asks for: its chain of string comparisons on
  any buffer that holds the line agrees with the decision on the abstract string, and the
  arguments it passes on are the rest of the line.
\<close>

theorem execute_command_dispatch:
  assumes "str_at cmd 0 s" "fp \<noteq> 0" "fp + 5 \<noteq> 0"
  shows "execute_command io fp cmd m = run_command io fp cmd (parse s) m
     \<and> (\<forall>t. parse s = Cat t \<longrightarrow> str_at (drop 4 cmd) 0 t) \<and> (\<forall>t. parse s = Write t \<longrightarrow> str_at (drop 6 cmd) 0 t)
     \<and> (\<forall>t. parse s = Rm t \<longrightarrow> str_at (drop 3 cmd) 0 t)"
  using execute_parse [OF assms] parse_args [OF assms(1)] by blast


text \<open>
  One round of the prompt loop: while the keyboard has not delivered a whole line it
  waits; otherwise it executes exactly the edited line, which is a terminated string of at most
  127 characters inside the 128-byte buffer, with the prompt and the echo on the screen, and the input
  behind the line is still pending.
\<close>

theorem shell_step_executes_line:
  assumes "kbd_ok (keys m)" "length buf = 128" "0 \<notin> set (kbd_queue (keys m))"
  shows "case line_edit 128 [] (kbd_stream (keys m) (scancodes (pending m))) of
      None \<Rightarrow> shell_step io fp buf m = None
    | Some (l, e, r) \<Rightarrow> \<exists>cmd m2. shell_step io fp buf m = map_option (Pair cmd) (execute_command io fp cmd m2)
        \<and> str_at cmd 0 l \<and> length l < 128 \<and> length cmd = 128
        \<and> screen m2 = fold vga_putchar e (vga_set_color VGA_WHITE VGA_BLACK
             (fold vga_putchar (ascii ''BH-OS> '') (vga_set_color VGA_YELLOW VGA_BLACK (screen m))))
        \<and> kbd_ok (keys m2) \<and> kbd_stream (keys m2) (scancodes (pending m2)) = r
        \<and> ram m2 = ram m \<and> pg m2 = pg m \<and> dev (fsys m2) = dev (fsys m) \<and> vars (fsys m2) = vars (fsys m)"
  using shell_step_blocks [OF assms(1,2)] shell_step_reads [OF assms] by (auto split: option.split)

text \<open>
  Each round of the background thread writes its counter in decimal into the character bytes of the
  cells from column 70 of the first line on, keeps every attribute and every other cell, never
  leaves its 16-byte buffer and the line, then sleeps for a second and counts on.
\<close>

theorem background_task_draws:
  "background_task count m = map_option
      (\<lambda>(irqs, t, k). (count + 1, (set_screen ((screen m)\<lparr>vmem := \<lambda>a.
          if 140 \<le> a \<and> a < 140 + 2 * int (length (numeral_str 10 (unat count))) \<and> (a - 140) mod 2 = 0
          then numeral_str 10 (unat count) ! nat ((a - 140) div 2) else vmem (screen m) a\<rparr>) m)
            \<lparr>pending := irqs, tmr := t, keys := k\<rparr>))
      (sleep 1000 (pending m) (tmr m) (keys m))
   \<and> length (numeral_str 10 (unat count)) \<le> 10"
proof -
  have "unat count < 2 ^ 32" by (rule unat_lt2p_u32)
  then have "unat count < 10 ^ 10" by simp
  then have len: "length (numeral_str 10 (unat count)) \<le> 10" by (intro length_numeral_str) simp_all
  obtain b where b: "uitoa count (replicate 16 0) 10 = Some b" "str_at b 0 (numeral_str 10 (unat count))"
    using uitoa_str_at [of 10 count "replicate 16 0"] len by auto
  have "draw_loop b 0 70 (screen m) = Some ((screen m)\<lparr>vmem := \<lambda>a.
      if 140 \<le> a \<and> a < 140 + 2 * int (length (numeral_str 10 (unat count))) \<and> (a - 140) mod 2 = 0
      then numeral_str 10 (unat count) ! nat ((a - 140) div 2) else vmem (screen m) a\<rparr>)"
    by (rule draw_loop_text [OF b(2) numeral_str_low]) simp_all
  with b len show ?thesis
    by (cases "sleep 1000 (pending m) (tmr m) (keys m)") (simp_all add: background_task_def case_prod_beta)
qed

section \<open>A machine\<close>

definition small_machine :: "bytes list machine" where
  "small_machine = \<lparr>fsys = small_fs, ram = (\<lambda>_. 0), pg = \<lparr>page_directory = 0, first_page_table = 0, cr3 = 0, cr0 = 0\<rparr>,
     tmr = \<lparr>tick = 5, current_freq = 100\<rparr>,
     keys = \<lparr>key_buffer = replicate 256 0, buf_head = 0, buf_tail = 0, shift_held = False\<rparr>,
     pending = [Irq_key 0x26, Irq_timer, Irq_key 0x1F, Irq_key 0x1C, Irq_timer]\<rparr>"

theorem execute_command_dispatch_witness:
  "execute_command ram_io 0x7000 (ascii ''echo hi'' @ [0]) small_machine = Some (Inr (mputs (ascii ''hi'' @ [10]) small_machine))"
proof -
  have st: "str_at (ascii ''echo hi'' @ [0]) 0 (ascii ''echo hi'')" by (simp add: str_at_def ascii_def)
  have "parse (ascii ''echo hi'') = Echo (ascii ''hi'')" by (simp add: parse_def ascii_def)
  then show ?thesis
    using execute_command_dispatch [OF st, of "0x7000" ram_io small_machine] by (simp add: run_command_def)
qed


theorem shell_step_executes_line_witness:
  "\<exists>cmd m2. shell_step ram_io 0x7000 (replicate 128 7) small_machine = map_option (Pair cmd) (execute_command ram_io 0x7000 cmd m2)
     \<and> str_at cmd 0 (ascii ''ls'')"
proof -
  have "typed False [0x26, 0x1F, 0x1C] = [108, 115, 10]" by code_simp
  then have "kbd_stream (keys small_machine) (scancodes (pending small_machine)) = [108, 115, 10]"
    by (simp add: small_machine_def kbd_stream_def kbd_queue_def kbd_len_def)
  moreover have "line_edit 128 [] [108, 115, 10] = Some (ascii ''ls'', [108, 115, 10], [])" by code_simp
  ultimately show ?thesis
    using shell_step_executes_line [of small_machine "replicate 128 7" ram_io "0x7000"]
    by (auto simp: small_machine_def kbd_ok_def kbd_queue_def kbd_len_def)
qed

end
