(* ===== verification/Bh_ShellSim.thy ===== *)
theory Bh_ShellSim
  imports Bh_Shell
begin

text \<open>
  The shell on any sector store: whatever it does on the ideal disk it does on every store that
  meets the contract, with the same screen, memory, timer and keyboard. Read on the ideal disk
  itself, restricted to disks of one shape, the same simulation gives the invariant of the prompt loop.
\<close>

section \<open>Machines over two stores\<close>

definition same_machine :: "('d \<Rightarrow> bool) \<Rightarrow> ('d \<Rightarrow> bytes list) \<Rightarrow> 'd machine \<Rightarrow> bytes list machine \<Rightarrow> bool" where
  "same_machine ready sectors m r \<longleftrightarrow> same_fs ready sectors (fsys m) (fsys r) \<and> ram m = ram r \<and> pg m = pg r
     \<and> tmr m = tmr r \<and> keys m = keys r \<and> pending m = pending r"

lemma sim0_map: "sim0 M x y \<Longrightarrow> (\<And>a b. M a b \<Longrightarrow> N (f a) (g b)) \<Longrightarrow> sim0 N (map_option f x) (map_option g y)"
  by (cases y) (auto simp: sim0_def)

lemma sim0_bindM: "sim0 M x y \<Longrightarrow> (\<And>s r. M s r \<Longrightarrow> sim0 N (f s) (g r)) \<Longrightarrow> sim0 N (x \<bind> f) (y \<bind> g)"
  by (cases y) (fastforce simp: sim0_def)+

lemma simM_bind: "sim M x y \<Longrightarrow> (\<And>v s r. M s r \<Longrightarrow> sim0 N (f (v, s)) (g (v, r))) \<Longrightarrow> sim0 N (x \<bind> f) (y \<bind> g)"
  by (cases y) (fastforce simp: sim_def sim0_def)+

lemma sim_bind0M: "sim0 M x y \<Longrightarrow> (\<And>s t. M s t \<Longrightarrow> sim N (f s) (g t)) \<Longrightarrow> sim N (x \<bind> f) (y \<bind> g)"
  by (cases y) (fastforce simp: sim0_def sim_def)+

lemma sim_bindM: "sim M x y \<Longrightarrow> (\<And>b s t. M s t \<Longrightarrow> sim N (f (b, s)) (g (b, t))) \<Longrightarrow> sim N (x \<bind> f) (y \<bind> g)"
  by (cases y) (fastforce simp: sim_def)+

lemma sim0_pure: "(\<And>v. sim0 N (f v) (g v)) \<Longrightarrow> sim0 N (x \<bind> f) (x \<bind> g)"
  by (cases x) simp_all

lemma sim0_if: "(c \<Longrightarrow> sim0 N a b) \<Longrightarrow> (\<not> c \<Longrightarrow> sim0 N a' b') \<Longrightarrow> sim0 N (if c then a else a') (if c then b else b')"
  by simp

lemma sim0_else_if: "sim0 N a b \<Longrightarrow> sim0 N a' b' \<Longrightarrow> sim0 N (else_if t a a') (else_if t b b')"
  by (cases t) (simp_all add: else_if_def)

lemma sim0_Some: "N a b \<Longrightarrow> sim0 N (Some a) (Some b)"
  by (simp add: sim0_def)

section \<open>Every command, on any store\<close>

context sector_store
begin

abbreviation M where "M \<equiv> same_machine ready sectors"

lemma M_sel: "M m r \<Longrightarrow> R (fsys m) (fsys r)" "M m r \<Longrightarrow> screen m = screen r" "M m r \<Longrightarrow> ram m = ram r"
  "M m r \<Longrightarrow> pg m = pg r" "M m r \<Longrightarrow> tmr m = tmr r" "M m r \<Longrightarrow> keys m = keys r" "M m r \<Longrightarrow> pending m = pending r"
  by (simp_all add: same_machine_def same_fs_def)

lemma M_upd:
  "M m r \<Longrightarrow> R f g \<Longrightarrow> M (m\<lparr>fsys := f\<rparr>) (r\<lparr>fsys := g\<rparr>)" "M m r \<Longrightarrow> M (m\<lparr>ram := x\<rparr>) (r\<lparr>ram := x\<rparr>)"
  "M m r \<Longrightarrow> M (set_screen v m) (set_screen v r)" "M m r \<Longrightarrow> M (color c m) (color c r)"
  "M m r \<Longrightarrow> M (m\<lparr>pending := p, tmr := t, keys := k\<rparr>) (r\<lparr>pending := p, tmr := t, keys := k\<rparr>)"
  "M m r \<Longrightarrow> M (m\<lparr>keys := k, pending := p, tmr := t\<rparr>) (r\<lparr>keys := k, pending := p, tmr := t\<rparr>)"
  by (simp_all add: same_machine_def same_fs_def set_screen_def color_def)

lemma msay_sim: "M m r \<Longrightarrow> sim0 M (msay f a m) (msay f a r)"
  unfolding msay_def by (rule sim0_bindM [OF say_sim]) (simp_all add: M_sel M_upd)

lemma cell_sim:
  "M m r \<Longrightarrow> (\<And>p x. sim0 N (f (p, x)) (g (p, x))) \<Longrightarrow> sim0 N (memory_alloc n (ram m) \<bind> f) (memory_alloc n (ram r) \<bind> g)"
  "M m r \<Longrightarrow> (\<And>x. sim0 N (f' x) (g' x)) \<Longrightarrow> sim0 N (memory_free a (ram m) \<bind> f') (memory_free a (ram r) \<bind> g')"
  "M m r \<Longrightarrow> (\<And>x y z. sim0 N (h (x, y, z)) (k (x, y, z))) \<Longrightarrow>
     sim0 N (sleep b (pending m) (tmr m) (keys m) \<bind> h) (sleep b (pending r) (tmr r) (keys r) \<bind> k)"
  "M m r \<Longrightarrow> (\<And>v. sim0 N (h' v) (k' v)) \<Longrightarrow> sim0 N (isr14_handler c (screen m) \<bind> h') (isr14_handler c (screen r) \<bind> k')"
  using M_sel [of m r] by (auto intro!: sim0_pure)

lemma disk_sim:
  "M m r \<Longrightarrow> (\<And>b s t. R s t \<Longrightarrow> sim0 N (f (b, s)) (g (b, t))) \<Longrightarrow>
     sim0 N (read_sec io l (fsys m) \<bind> f) (read_sec ram_io l (fsys r) \<bind> g)"
  "M m r \<Longrightarrow> (\<And>s t. R s t \<Longrightarrow> sim0 N (f' s) (g' t)) \<Longrightarrow>
     sim0 N (write_sec io l b (fsys m) \<bind> f') (write_sec ram_io l b (fsys r) \<bind> g')"
  "M m r \<Longrightarrow> (\<And>s t. R s t \<Longrightarrow> sim0 N (f' s) (g' t)) \<Longrightarrow>
     sim0 N (fat16_list_root io a (fsys m) \<bind> f') (fat16_list_root ram_io a (fsys r) \<bind> g')"
  "M m r \<Longrightarrow> (\<And>x s t. R s t \<Longrightarrow> sim0 N (h (x, s)) (k (x, t))) \<Longrightarrow>
     sim0 N (fat16_read_file io nm buf n (fsys m) \<bind> h) (fat16_read_file ram_io nm buf n (fsys r) \<bind> k)"
  "M m r \<Longrightarrow> (\<And>x s t. R s t \<Longrightarrow> sim0 N (h' (x, s)) (k' (x, t))) \<Longrightarrow>
     sim0 N (fat16_write_file io nm d sz (fsys m) \<bind> h') (fat16_write_file ram_io nm d sz (fsys r) \<bind> k')"
  "M m r \<Longrightarrow> (\<And>x s t. R s t \<Longrightarrow> sim0 N (h' (x, s)) (k' (x, t))) \<Longrightarrow>
     sim0 N (fat16_delete_file io nm (fsys m) \<bind> h') (fat16_delete_file ram_io nm (fsys r) \<bind> k')"
  by (drule M_sel(1); blast intro: simM_bind sim0_bindM read_sec_sim write_sec_sim list_root_sim read_file_sim
      write_file_sim delete_file_sim)+

lemmas shell_sim = sim0_bindM [OF msay_sim] msay_sim cell_sim disk_sim sim0_pure sim0_if sim0_Some M_upd

lemma cmd_help_sim: "M m r \<Longrightarrow> sim0 M (cmd_help m) (cmd_help r)"
  unfolding cmd_help_def by (assumption | rule shell_sim)+

lemma cmd_alloc_sim: "M m r \<Longrightarrow> sim0 M (cmd_alloc m) (cmd_alloc r)"
  unfolding cmd_alloc_def Let_def by (assumption | rule shell_sim | simp only: prod.case)+

lemma cmd_sleep_sim: "M m r \<Longrightarrow> sim0 M (cmd_sleep m) (cmd_sleep r)"
  unfolding cmd_sleep_def by (assumption | rule shell_sim | simp only: prod.case)+

lemma cmd_diskwrite_sim: "M m r \<Longrightarrow> sim0 M (cmd_diskwrite io m) (cmd_diskwrite ram_io r)"
  unfolding cmd_diskwrite_def by (assumption | rule shell_sim)+

lemma cmd_diskread_sim: "M m r \<Longrightarrow> sim0 M (cmd_diskread io fp m) (cmd_diskread ram_io fp r)"
  unfolding cmd_diskread_def by (assumption | rule shell_sim | simp only: prod.case)+

lemma cmd_ls_sim: "M m r \<Longrightarrow> sim0 M (cmd_ls io fp m) (cmd_ls ram_io fp r)"
  unfolding cmd_ls_def by (assumption | rule shell_sim)+

lemma cmd_cat_sim: "M m r \<Longrightarrow> sim0 M (cmd_cat io fp nm m) (cmd_cat ram_io fp nm r)"
  unfolding cmd_cat_def Let_def by (assumption | rule shell_sim | simp only: prod.case case_prod_beta fst_conv snd_conv)+

lemma cmd_write_sim: "M m r \<Longrightarrow> sim0 M (cmd_write io fp a m) (cmd_write ram_io fp a r)"
  unfolding cmd_write_def Let_def by (assumption | rule shell_sim | simp only: prod.case case_prod_beta fst_conv snd_conv)+

lemma cmd_rm_sim: "M m r \<Longrightarrow> sim0 M (cmd_rm io fp nm m) (cmd_rm ram_io fp nm r)"
  unfolding cmd_rm_def Let_def by (assumption | rule shell_sim | simp only: prod.case)+

lemma cmd_pagefault_sim:
  assumes "M m r"
  shows "sim0 (rel_sum M M) (cmd_pagefault m) (cmd_pagefault r)"
  unfolding cmd_pagefault_def Let_def
proof (rule sim0_bindM [OF msay_sim [OF assms]])
  fix s t assume st: "M s t"
  show "sim0 (rel_sum M M)
      (case mmu (pg s) (ram s) False True 0xFFFFF000 of
         Some pa \<Rightarrow> Some (Inr (s\<lparr>ram := st32 (ram s) pa 0xDEADBEEF\<rparr>))
       | None \<Rightarrow> do { v \<leftarrow> isr14_handler 0xFFFFF000 (screen s); Some (Inl (set_screen v s)) })
      (case mmu (pg t) (ram t) False True 0xFFFFF000 of
         Some pa \<Rightarrow> Some (Inr (t\<lparr>ram := st32 (ram t) pa 0xDEADBEEF\<rparr>))
       | None \<Rightarrow> do { v \<leftarrow> isr14_handler 0xFFFFF000 (screen t); Some (Inl (set_screen v t)) })"
    unfolding M_sel(3,4) [OF st]
    by (cases "mmu (pg t) (ram t) False True 0xFFFFF000"; simp only: option.case)
      (assumption | rule cell_sim(4) [OF st] sim0_Some M_upd st | simp only: rel_sum_simps)+
qed

lemma ret_sim: "sim0 M x y \<Longrightarrow> sim0 (rel_sum M M) (map_option Inr x) (map_option Inr y)"
  by (erule sim0_map) simp

lemma execute_command_sim: "M m r \<Longrightarrow> sim0 (rel_sum M M) (execute_command io fp cmd m) (execute_command ram_io fp cmd r)"
  unfolding execute_command_def Let_def
  by (frule M_sel(2), frule M_sel(5), simp only:)
    (assumption | rule sim0_else_if ret_sim cmd_help_sim cmd_alloc_sim cmd_sleep_sim cmd_pagefault_sim cmd_diskwrite_sim
      cmd_diskread_sim cmd_ls_sim cmd_cat_sim cmd_write_sim cmd_rm_sim shell_sim | simp only: rel_sum_simps)+

lemma read_line_sim:
  assumes "M m r"
  shows "sim M (read_line buf n m) (read_line buf n r)"
  unfolding read_line_def Let_def M_sel(2,5,6,7) [OF assms]
  by (cases "keyboard_readline buf n (keys r) (scancodes (pending r)) (screen r)")
    (use assms in \<open>auto simp: same_machine_def same_fs_def set_screen_def split: prod.splits\<close>)

lemma shell_step_sim:
  assumes "M m r"
  shows "sim (rel_sum M M) (shell_step io fp buf m) (shell_step ram_io fp buf r)"
proof -
  have 3: "sim (rel_sum M M) (do { x \<leftarrow> execute_command io fp c s; Some (c, x) }) (do { x \<leftarrow> execute_command ram_io fp c t; Some (c, x) })"
    if "M s t" for c s t
    using execute_command_sim [OF that, of fp c] by (auto simp: sim0_def sim_def Option.bind_eq_Some_conv)
  show ?thesis
    unfolding shell_step_def
    by (rule sim_bind0M [OF msay_sim [OF M_upd(4) [OF assms]]], rule sim_bindM [OF read_line_sim [OF M_upd(4)]])
      (assumption | simp only: prod.case 3)+
qed

lemma shell_loop_sim: "M m r \<Longrightarrow> sim (rel_sum M M) (shell_loop io fp n buf m) (shell_loop ram_io fp n buf r)"
proof (induction n arbitrary: buf m r)
  case (Suc n)
  note st = shell_step_sim [OF Suc.prems, of fp buf]
  show ?case
  proof (cases "shell_step ram_io fp buf r")
    case (Some y)
    then obtain c t where t: "shell_step ram_io fp buf r = Some (c, t)" by (cases y) auto
    from simE [OF st t] obtain s where s: "shell_step io fp buf m = Some (c, s)" "rel_sum M M s t" by blast
    then show ?thesis by (cases s; cases t) (simp_all add: t Suc.IH)
  qed simp
qed simp

end

end
