(* ===== verification/Bh_ShellInv.thy ===== *)
theory Bh_ShellInv
  imports Bh_ShellSim Bh_FatSafe
begin

text \<open>
  What the prompt loop keeps, whatever is typed and whatever the disk holds: the blocks of the heap
  and their contents, the memory below the heap, the page tables, the keyboard's ring buffer and
  the shape of the disk. And the whole loop on a drive against the loop on the ideal disk.
\<close>

section \<open>The invariant\<close>

text \<open>The page tables in memory are those \<^verbatim>\<open>paging_init\<close> built.\<close>

definition paged :: "u32 \<Rightarrow> u32 \<Rightarrow> paging \<Rightarrow> mem \<Rightarrow> bool" where
  "paged pd pt p m \<longleftrightarrow> raw_buffers pd pt \<and> unat pd + 8192 \<le> HEAP_LO \<and> unat pt + 8192 \<le> HEAP_LO
     \<and> (\<exists>s0 m0 r. paging_init pd pt s0 m0 = (p, r) \<and> same_on 0 HEAP_LO r m)"

definition shell_inv :: "blocks \<Rightarrow> nat \<Rightarrow> u32 \<Rightarrow> u32 \<Rightarrow> bytes list machine \<Rightarrow> bool" where
  "shell_inv bs n pd pt m \<longleftrightarrow> heap_ok (ram m) bs \<and> shaped n (dev (fsys m)) \<and> paged pd pt (pg m) (ram m)
     \<and> kbd_ok (keys m) \<and> 0 \<notin> set (kbd_queue (keys m))"

lemma paged_mmu:
  assumes "paged pd pt p m"
  shows "mmu p m user wr va = (if va < 0x400000 \<and> \<not> user then Some va else None)"
proof -
  obtain s0 m0 r where r: "paging_init pd pt s0 m0 = (p, r)" "same_on 0 HEAP_LO r m" and b: "raw_buffers pd pt"
    "unat pd + 8192 \<le> HEAP_LO" "unat pt + 8192 \<le> HEAP_LO" using assms by (auto simp: paged_def)
  show ?thesis using identity_map [OF b(1) r(1) same_on_mono [OF r(2)] same_on_mono [OF r(2)]] b(2,3) by simp
qed

lemma paged_same: "paged pd pt p m \<Longrightarrow> same_on 0 HEAP_LO m m' \<Longrightarrow> paged pd pt p m'"
  unfolding paged_def using same_on_trans by blast

section \<open>The keyboard\<close>

definition keys_ok :: "kbd \<Rightarrow> bool" where
  "keys_ok k \<longleftrightarrow> kbd_ok k \<and> 0 \<notin> set (kbd_queue k)"

lemma scancode_keys: "keys_ok k \<Longrightarrow> keys_ok (keyboard_handle_scancode s k)"
  by (auto simp: keys_ok_def keyboard_handle_scancode_def Let_def kbd_queue_push)

lemma sleep_loop_keys: "sleep_loop u irqs t k = Some (i, t', k') \<Longrightarrow> keys_ok k \<Longrightarrow> keys_ok k'"
  by (induction u irqs t k rule: sleep_loop.induct) (auto split: if_splits irq.splits simp: scancode_keys)

lemma sleep_keys: "sleep ms irqs t k = Some (i, t', k') \<Longrightarrow> keys_ok k \<Longrightarrow> keys_ok k'"
  unfolding sleep_def Let_def using sleep_loop_keys by (auto split: if_splits)

lemma line_edit_rest: "line_edit mx acc cs = Some (l, e, r) \<Longrightarrow> set r \<subseteq> set cs"
proof (induction mx acc cs arbitrary: l e r rule: line_edit.induct)
  case (2 mx acc c cs)
  then show ?case by (fastforce split: if_splits)
qed (auto split: if_splits)

section \<open>The commands\<close>

text \<open>What no command but three touches.\<close>

definition frame :: "'d machine \<Rightarrow> 'd machine \<Rightarrow> bool" where
  "frame m m' \<longleftrightarrow> ram m' = ram m \<and> pg m' = pg m \<and> keys m' = keys m"

lemma frame_refl [simp]: "frame m m" "frame m (set_screen v m)" "frame m (mputs s m)" "frame m (m\<lparr>fsys := f\<rparr>)"
  by (simp_all add: frame_def)

lemma frame_color [simp]: "frame m (color c m') = frame m m'" "frame m (m'\<lparr>fsys := f\<rparr>) = frame m m'"
  by (simp_all add: frame_def)

lemma frame_commands:
  "cmd_help m = Some m' \<Longrightarrow> frame m m'" "cmd_diskwrite io m = Some m' \<Longrightarrow> frame m m'"
  "cmd_diskread io fp m = Some m' \<Longrightarrow> frame m m'" "cmd_ls io fp m = Some m' \<Longrightarrow> frame m m'"
  "cmd_cat io fp nm m = Some m' \<Longrightarrow> frame m m'" "cmd_write io fp a m = Some m' \<Longrightarrow> frame m m'"
  "cmd_rm io fp nm m = Some m' \<Longrightarrow> frame m m'"
proof -
  note d = msay_def frame_def color_def set_screen_def Option.bind_eq_Some_conv
  show "cmd_help m = Some m' \<Longrightarrow> frame m m'" by (auto simp: cmd_help_def d)
  show "cmd_diskwrite io m = Some m' \<Longrightarrow> frame m m'" by (auto simp: cmd_diskwrite_def d)
  show "cmd_diskread io fp m = Some m' \<Longrightarrow> frame m m'" by (auto simp: cmd_diskread_def d)
  show "cmd_ls io fp m = Some m' \<Longrightarrow> frame m m'" by (auto simp: cmd_ls_def d)
  show "cmd_cat io fp nm m = Some m' \<Longrightarrow> frame m m'" by (auto simp: cmd_cat_def Let_def d split: if_splits)
  show "cmd_write io fp a m = Some m' \<Longrightarrow> frame m m'" by (auto simp: cmd_write_def Let_def d split: if_splits)
  show "cmd_rm io fp nm m = Some m' \<Longrightarrow> frame m m'" by (auto simp: cmd_rm_def Let_def d split: if_splits)
qed

definition kept :: "blocks \<Rightarrow> 'd machine \<Rightarrow> 'd machine \<Rightarrow> bool" where
  "kept bs m m' \<longleftrightarrow> heap_ok (ram m') bs \<and> keeps (live bs) (ram m) (ram m') \<and> same_on 0 HEAP_LO (ram m) (ram m')
     \<and> pg m' = pg m \<and> (keys_ok (keys m) \<longrightarrow> keys_ok (keys m'))"

lemma kept_frame: "frame m m' \<Longrightarrow> heap_ok (ram m) bs \<Longrightarrow> kept bs m m'"
  by (simp add: frame_def kept_def)

lemma cmd_alloc_kept:
  assumes "cmd_alloc m = Some m'" "heap_ok (ram m) bs"
  shows "kept bs m m'"
proof -
  obtain p r where a: "memory_alloc 64 (ram m) = Some (p, r)"
    using assms(1) by (auto simp: cmd_alloc_def msay_text Option.bind_eq_Some_conv)
  show ?thesis
  proof (cases "p = 0")
    case True
    have "first_fit (align4 (unat (64 :: u32))) HEAP_LO bs = None"
    proof (rule ccontr)
      assume "first_fit (align4 (unat (64 :: u32))) HEAP_LO bs \<noteq> None"
      then obtain q bs' where ff: "first_fit (align4 (unat (64 :: u32))) HEAP_LO bs = Some (q, bs')" by auto
      obtain x where x: "memory_alloc 64 (ram m) = Some (of_nat q, x)" "heap_ok x bs'" using alloc_some [OF assms(2) _ _ ff] by auto
      obtain n where "live bs' = insert (q, n) (live bs)"
        using first_fit_live [OF heap_ok_chain(1) [OF assms(2)] ff] by (auto simp: live_def)
      then have "HEAP_LO + 12 \<le> q" "q \<le> HEAP_HI" using live_bounds [OF x(2), of q n] by auto
      then have "0 < q" "q < 2 ^ 32" by (simp_all add: HEAP_LO_def HEAP_HI_def)
      then have "(of_nat q :: u32) \<noteq> 0" by (intro of_nat_ne0)
      with x(1) a True show False by simp
    qed
    with alloc_none [OF assms(2)] a have "r = ram m" by simp
    then show ?thesis
      using assms a True by (auto simp: cmd_alloc_def msay_text Let_def kept_def)
  next
    case False
    from alloc_free_restores [OF assms(2) _ _ a this] obtain r' where
      "memory_free p r = Some r'" "heap_ok r' bs" "keeps (live bs) (ram m) r'" "same_on 0 HEAP_LO (ram m) r'" by auto
    then show ?thesis
      using assms(1) a False by (auto simp: cmd_alloc_def msay_text Let_def kept_def)
  qed
qed

lemma cmd_sleep_kept: "cmd_sleep m = Some m' \<Longrightarrow> heap_ok (ram m) bs \<Longrightarrow> kept bs m m'"
  unfolding cmd_sleep_def
  by (auto simp: msay_def Option.bind_eq_Some_conv kept_def dest: sleep_keys)

lemma cmd_pagefault_kept:
  assumes "cmd_pagefault m = Some y" "heap_ok (ram m) bs" "paged pd pt (pg m) (ram m)"
  shows "\<exists>m'. y = Inl m' \<and> kept bs m m'"
  using assms(1,2) paged_mmu [OF assms(3), of False True "0xFFFFF000"]
  by (auto simp: cmd_pagefault_def Let_def msay_def set_screen_def Option.bind_eq_Some_conv kept_def)

text \<open>The machine a round ends with, halted or not.\<close>

definition the_machine :: "'d machine + 'd machine \<Rightarrow> 'd machine" where
  "the_machine y = (case y of Inl m \<Rightarrow> m | Inr m \<Rightarrow> m)"

lemma the_machine_simps [simp]: "the_machine (Inl m) = m" "the_machine (Inr m) = m"
  by (simp_all add: the_machine_def)

lemma run_kept:
  assumes "run_command io fp cmd c m = Some y" "heap_ok (ram m) bs" "paged pd pt (pg m) (ram m)"
  shows "kept bs m (the_machine y)"
proof -
  note f = frame_commands [THEN kept_frame, OF _ assms(2)]
  have m: "map_option Inr x = Some y \<Longrightarrow> \<exists>m'. x = Some m' \<and> y = Inr m'" for x :: "'a machine option" by auto
  have r: "kept bs m (set_screen v m)" "kept bs m (mputs s m)" "kept bs m m" for v s
    by (simp_all add: kept_frame assms(2))
  have u: "kept bs m (color VGA_WHITE (mputs s (color VGA_LIGHT_RED m)))" for s
    using assms(2) by (simp add: kept_def)
  show ?thesis
    using assms(1) unfolding run_command_def
    by (cases c) (auto dest!: m dest: f cmd_alloc_kept [OF _ assms(2)] cmd_sleep_kept [OF _ assms(2)]
        cmd_pagefault_kept [OF _ assms(2,3)] simp: r u)
qed

section \<open>The prompt loop\<close>

lemma step_inv:
  assumes inv: "shell_inv bs n pd pt m" and buf: "length buf = 128" and fp: "fp \<noteq> 0" "fp + 5 \<noteq> 0"
    and step: "shell_step ram_io fp buf m = Some (cmd, y)"
  shows "length cmd = 128 \<and> shell_inv bs n pd pt (the_machine y) \<and> keeps (live bs) (ram m) (ram (the_machine y))
     \<and> same_on 0 HEAP_LO (ram m) (ram (the_machine y)) \<and> pg (the_machine y) = pg m"
proof -
  have i: "heap_ok (ram m) bs" "shaped n (dev (fsys m))" "paged pd pt (pg m) (ram m)" "kbd_ok (keys m)"
    "0 \<notin> set (kbd_queue (keys m))" using inv by (simp_all add: shell_inv_def)
  obtain l e r where ed: "line_edit 128 [] (kbd_stream (keys m) (scancodes (pending m))) = Some (l, e, r)"
    using shell_step_blocks [OF i(4) buf, of ram_io fp] step
    by (cases "line_edit 128 [] (kbd_stream (keys m) (scancodes (pending m)))") auto
  obtain c m2 where c: "shell_step ram_io fp buf m = map_option (Pair c) (execute_command ram_io fp c m2)"
      "str_at c 0 l" "length c = 128" "kbd_ok (keys m2)" "kbd_stream (keys m2) (scancodes (pending m2)) = r"
      "ram m2 = ram m" "pg m2 = pg m" "dev (fsys m2) = dev (fsys m)"
    using shell_step_reads [OF i(4) buf i(5) ed, of ram_io fp] by blast
  have cmd: "cmd = c" and ex: "execute_command ram_io fp c m2 = Some y" using step c(1) by auto
  have k: "kept bs m2 (the_machine y)"
    using run_kept [of ram_io fp c "parse l" m2 y bs pd pt] ex execute_parse [OF c(2) fp, of ram_io m2] i(1,3) c(6,7) by simp
  have "0 \<notin> set r"
    using line_edit_rest [OF ed] i(5) typed_nonzero by (auto simp: kbd_stream_def)
  then have q: "keys_ok (keys m2)" using c(4,5) by (auto simp: keys_ok_def kbd_stream_def)
  have "same_machine (shaped n) (\<lambda>D. D) m2 m2" using i(2) c(8) by (simp add: same_machine_def same_fs_def)
  from sector_store.execute_command_sim [OF shaped_store this] ex
  have "rel_sum (same_machine (shaped n) (\<lambda>D. D)) (same_machine (shaped n) (\<lambda>D. D)) y y"
    by (fastforce simp: sim0_def)
  then have sh: "shaped n (dev (fsys (the_machine y)))"
    by (cases y) (simp_all add: same_machine_def same_fs_def)
  show ?thesis
    using k q sh c(3,6,7) cmd i(3) paged_same [of pd pt "pg m" "ram m"]
    by (auto simp: shell_inv_def kept_def keys_ok_def)
qed

lemma loop_inv:
  assumes "fp \<noteq> 0" "fp + 5 \<noteq> 0"
  shows "shell_inv bs n pd pt m \<Longrightarrow> length buf = 128 \<Longrightarrow> shell_loop ram_io fp k buf m = Some (cmd, y) \<Longrightarrow>
    length cmd = 128 \<and> shell_inv bs n pd pt (the_machine y) \<and> keeps (live bs) (ram m) (ram (the_machine y))
     \<and> same_on 0 HEAP_LO (ram m) (ram (the_machine y)) \<and> pg (the_machine y) = pg m"
proof (induction k arbitrary: buf m)
  case (Suc k)
  obtain c x where st: "shell_step ram_io fp buf m = Some (c, x)"
    using Suc.prems(3) by (auto simp: Option.bind_eq_Some_conv)
  note s = step_inv [OF Suc.prems(1,2) assms st]
  show ?case
  proof (cases x)
    case (Inl m')
    with s Suc.prems(3) st show ?thesis by auto
  next
    case (Inr m')
    with Suc.prems(3) st have "shell_loop ram_io fp k c m' = Some (cmd, y)" by simp
    from Suc.IH [OF _ _ this] s Inr show ?thesis by (auto intro: keeps_trans same_on_trans)
  qed
qed auto

section \<open>Properties\<close>


text \<open>The machine over the ideal disk that a machine over a drive stands for.\<close>

definition ideal_machine :: "('p \<Rightarrow> bytes list) \<Rightarrow> 'p machine \<Rightarrow> bytes list machine" where
  "ideal_machine platter m = \<lparr>fsys = ideal platter (fsys m), ram = ram m, pg = pg m, tmr = tmr m, keys = keys m, pending = pending m\<rparr>"

lemma same_ideal_machine: "same_machine ready sectors m r \<longleftrightarrow> ready (dev (fsys m)) \<and> ideal_machine sectors m = r"
  by (cases r) (auto simp: same_machine_def same_ideal ideal_machine_def)


section \<open>A machine\<close>

text \<open>The line \<^verbatim>\<open>clear\<close> is pending, the heap is fresh and paging is on.\<close>

definition ready_machine :: "bytes list machine" where
  "ready_machine = (let (p, r) = paging_init 0x8000 0xB000 \<lparr>page_directory = 0, first_page_table = 0, cr3 = 0, cr0 = 0x11\<rparr> (\<lambda>_. 0)
     in \<lparr>fsys = small_fs, ram = memory_init r, pg = p, tmr = \<lparr>tick = 5, current_freq = 100\<rparr>,
        keys = \<lparr>key_buffer = replicate 256 0, buf_head = 0, buf_tail = 0, shift_held = False\<rparr>,
        pending = [Irq_key 0x2E, Irq_key 0x26, Irq_timer, Irq_key 0x12, Irq_key 0x1E, Irq_key 0x13, Irq_key 0x1C]\<rparr>)"

lemma ready_inv: "shell_inv [(1048564, True)] (length small_disk) 0x8000 0xB000 ready_machine"
proof -
  obtain p r where r: "paging_init 0x8000 0xB000 \<lparr>page_directory = 0, first_page_table = 0, cr3 = 0, cr0 = 0x11\<rparr> (\<lambda>_. 0) = (p, r)"
    by fastforce
  have "same_on 0 HEAP_LO r (memory_init r)" by (rule memory_init_frame) (simp_all add: HEAP_LO_def)
  with r have "paged 0x8000 0xB000 p (memory_init r)"
    using raw_sample by (fastforce simp: paged_def HEAP_LO_def)
  moreover have "shaped (length small_disk) small_disk" using small_layout by (simp add: shaped_def layout_ok_def disk_ok_def)
  ultimately show ?thesis
    by (simp add: shell_inv_def ready_machine_def r memory_init_heap kbd_ok_def kbd_queue_def kbd_len_def)
qed

lemma ready_run: "\<exists>cmd m'. shell_loop ram_io 0x7000 1 (replicate 128 7) ready_machine = Some (cmd, Inr m')"
proof -
  have k: "kbd_ok (keys ready_machine)" "0 \<notin> set (kbd_queue (keys ready_machine))"
    using ready_inv by (simp_all add: shell_inv_def)
  have "typed False [0x2E, 0x26, 0x12, 0x1E, 0x13, 0x1C] = [99, 108, 101, 97, 114, 10]" by code_simp
  then have st: "kbd_stream (keys ready_machine) (scancodes (pending ready_machine)) = [99, 108, 101, 97, 114, 10]"
    by (simp add: ready_machine_def kbd_stream_def kbd_queue_def kbd_len_def case_prod_beta)
  have ed: "line_edit 128 [] (kbd_stream (keys ready_machine) (scancodes (pending ready_machine)))
      = Some (ascii ''clear'', [99, 108, 101, 97, 114, 10], [])" unfolding st by code_simp
  obtain c m2 where c: "shell_step ram_io 0x7000 (replicate 128 7) ready_machine
      = map_option (Pair c) (execute_command ram_io 0x7000 c m2)" "str_at c 0 (ascii ''clear'')"
    using shell_step_reads [OF k(1) _ k(2) ed, of "replicate 128 7" ram_io "0x7000"] by auto
  have "parse (ascii ''clear'') = Clear" by (simp add: parse_def ascii_def)
  with execute_parse [OF c(2), of "0x7000" ram_io m2]
  have "execute_command ram_io 0x7000 c m2 = Some (Inr (set_screen (vga_clear (screen m2)) m2))"
    by (simp add: run_command_def)
  with c(1) show ?thesis by simp
qed



end
