(* ===== verification/Bh_Gdt.thy ===== *)
theory Bh_Gdt
  imports Bh_Prelude
begin

text \<open>
  Segment descriptors and the task state segment, \<^verbatim>\<open>kernel/gdt.c\<close> and
  \<^verbatim>\<open>kernel/gdt.h\<close>. The packed structs are records; the addresses the linker gives
  the tables are parameters. Decoding follows the documented layout of a descriptor: the base
  and the limit are scattered over the fields, the limit has 20 bits.
\<close>

section \<open>Tables\<close>

record gdt_entry =
  limit_low :: u16
  base_low :: u16
  base_middle :: u8
  access :: u8
  granularity :: u8
  base_high :: u8

record gdt_ptr =
  gdt_limit :: u16
  gdt_base :: u32

record tss_entry =
  prev_tss :: u32
  esp0 :: u32
  ss0 :: u32
  esp1 :: u32
  ss1 :: u32
  esp2 :: u32
  ss2 :: u32
  tss_cr3 :: u32
  tss_eip :: u32
  eflags :: u32
  tss_eax :: u32
  tss_ecx :: u32
  tss_edx :: u32
  tss_ebx :: u32
  tss_esp :: u32
  tss_ebp :: u32
  tss_esi :: u32
  tss_edi :: u32
  tss_es :: u32
  tss_cs :: u32
  tss_ss :: u32
  tss_ds :: u32
  tss_fs :: u32
  tss_gs :: u32
  ldt :: u32
  trap :: u16
  iomap_base :: u16

record gdt_state =
  gdt_entries :: "gdt_entry list"
  the_gdt_ptr :: gdt_ptr
  the_tss :: tss_entry

section \<open>Operations\<close>

text \<open>
  A fault, the value \<^const>\<open>None\<close>, if the index is outside the array. The two assignments
  to \<^verbatim>\<open>granularity\<close> are the two halves of the disjunction.
\<close>

definition gdt_set_gate :: "nat \<Rightarrow> u32 \<Rightarrow> u32 \<Rightarrow> u8 \<Rightarrow> u8 \<Rightarrow> gdt_state \<Rightarrow> gdt_state option" where
  "gdt_set_gate num base limit acc gran s = do {
     es \<leftarrow> aput (gdt_entries s) num
       \<lparr>limit_low = ucast (limit AND 0xFFFF), base_low = ucast (base AND 0xFFFF),
        base_middle = ucast (drop_bit 16 base AND 0xFF), access = acc,
        granularity = ucast (drop_bit 16 limit AND 0x0F) OR (gran AND 0xF0),
        base_high = ucast (drop_bit 24 base AND 0xFF)\<rparr>;
     Some (s\<lparr>gdt_entries := es\<rparr>) }"

definition zero_tss :: tss_entry where
  "zero_tss = \<lparr>prev_tss = 0, esp0 = 0, ss0 = 0, esp1 = 0, ss1 = 0, esp2 = 0, ss2 = 0, tss_cr3 = 0, tss_eip = 0,
     eflags = 0, tss_eax = 0, tss_ecx = 0, tss_edx = 0, tss_ebx = 0, tss_esp = 0, tss_ebp = 0, tss_esi = 0,
     tss_edi = 0, tss_es = 0, tss_cs = 0, tss_ss = 0, tss_ds = 0, tss_fs = 0, tss_gs = 0, ldt = 0, trap = 0,
     iomap_base = 0\<rparr>"

abbreviation (input) sizeof_tss :: u32 where "sizeof_tss \<equiv> 104"
abbreviation (input) sizeof_gdt_entry :: u16 where "sizeof_gdt_entry \<equiv> 8"

definition write_tss :: "u32 \<Rightarrow> nat \<Rightarrow> u16 \<Rightarrow> u32 \<Rightarrow> gdt_state \<Rightarrow> gdt_state option" where
  "write_tss tss_address num ss esp s = do {
     s1 \<leftarrow> gdt_set_gate num tss_address (sizeof_tss - 1) 0xE9 0x00 s;
     let t1 = zero_tss\<lparr>ss0 := ucast ss, esp0 := esp\<rparr>;
     let t2 = t1\<lparr>tss_cs := 0x0b\<rparr>;
     let t3 = t2\<lparr>tss_cs := 0x08 OR 0x3\<rparr>;
     let t4 = t3\<lparr>tss_cs := 0x08\<rparr>;
     Some (s1\<lparr>the_tss := t4\<lparr>tss_ss := 0x10, tss_ds := 0x10, tss_es := 0x10, tss_fs := 0x10, tss_gs := 0x10\<rparr>\<rparr>) }"

definition gdt_init :: "u32 \<Rightarrow> u32 \<Rightarrow> gdt_state \<Rightarrow> gdt_state option" where
  "gdt_init entries_address tss_address s = do {
     let s0 = s\<lparr>the_gdt_ptr := \<lparr>gdt_limit = sizeof_gdt_entry * 6 - 1, gdt_base = entries_address\<rparr>\<rparr>;
     s1 \<leftarrow> gdt_set_gate 0 0 0 0 0 s0;
     s2 \<leftarrow> gdt_set_gate 1 0 0xFFFFFFFF 0x9A 0xCF s1;
     s3 \<leftarrow> gdt_set_gate 2 0 0xFFFFFFFF 0x92 0xCF s2;
     s4 \<leftarrow> gdt_set_gate 3 0 0xFFFFFFFF 0xFA 0xCF s3;
     s5 \<leftarrow> gdt_set_gate 4 0 0xFFFFFFFF 0xF2 0xCF s4;
     write_tss tss_address 5 0x10 0 s5 }"

definition tss_set_stack :: "u32 \<Rightarrow> gdt_state \<Rightarrow> gdt_state" where
  "tss_set_stack esp s = s\<lparr>the_tss := (the_tss s)\<lparr>esp0 := esp\<rparr>\<rparr>"

section \<open>What the processor reads\<close>

definition seg_base :: "gdt_entry \<Rightarrow> u32" where
  "seg_base e = ucast (base_low e) OR push_bit 16 (ucast (base_middle e)) OR push_bit 24 (ucast (base_high e))"

definition seg_limit :: "gdt_entry \<Rightarrow> u32" where
  "seg_limit e = ucast (limit_low e) OR push_bit 16 (ucast (granularity e AND 0x0F))"

definition seg_flags :: "gdt_entry \<Rightarrow> u8" where
  "seg_flags e = granularity e AND 0xF0"

text \<open>The last byte of the segment: the limit counts pages if the granularity bit is set.\<close>

definition seg_last :: "gdt_entry \<Rightarrow> u32" where
  "seg_last e = (if granularity e AND 0x80 \<noteq> 0 then push_bit 12 (seg_limit e) OR 0xFFF else seg_limit e)"

definition seg_dpl :: "gdt_entry \<Rightarrow> u8" where
  "seg_dpl e = drop_bit 5 (access e) AND 3"

definition seg_present :: "gdt_entry \<Rightarrow> bool" where
  "seg_present e \<longleftrightarrow> access e AND 0x80 \<noteq> 0"

definition seg_code :: "gdt_entry \<Rightarrow> bool" where
  "seg_code e \<longleftrightarrow> access e AND 0x18 = 0x18"

text \<open>The descriptor a selector chooses.\<close>

definition selected :: "gdt_state \<Rightarrow> u16 \<Rightarrow> gdt_entry option" where
  "selected s sel = aget (gdt_entries s) (unat (drop_bit 3 sel))"

section \<open>Properties\<close>

lemma mask_consts: "(0xFFFF :: u32) = mask 16" "(0xFF :: u32) = mask 8" "(0x0F :: u32) = mask 4" "(0x0F :: u8) = mask 4"
  "(0xFFFFF :: u32) = mask 20" "(0xF0 :: u8) = push_bit 4 (mask 4)"
  by (simp_all add: mask_eq_exp_minus_1)

lemma base_split:
  fixes b :: u32
  shows "ucast (ucast (b AND 0xFFFF) :: u16) OR push_bit 16 (ucast (ucast (drop_bit 16 b AND 0xFF) :: u8))
     OR push_bit 24 (ucast (ucast (drop_bit 24 b AND 0xFF) :: u8)) = b"
  unfolding mask_consts
proof (rule bit_word_eqI)
  fix n assume "n < LENGTH(32)"
  then consider "n < 16" | "16 \<le> n" "n < 24" | "24 \<le> n" "n < 32" by force
  then show "bit (ucast (ucast (b AND mask 16) :: u16) OR push_bit 16 (ucast (ucast (drop_bit 16 b AND mask 8) :: u8))
     OR push_bit 24 (ucast (ucast (drop_bit 24 b AND mask 8) :: u8)) :: u32) n = bit b n"
    by cases (auto simp: bit_simps)
qed

text \<open>
  Descriptors: decoding what \<^verbatim>\<open>gdt_set_gate\<close> stores gives back the base, the access
  byte, the flags, and the low 20 bits of the limit; the other descriptors stay as they were.
\<close>

theorem gdt_set_gate_roundtrip:
  assumes "num < length (gdt_entries s)"
  shows "\<exists>s' e. gdt_set_gate num base limit acc gran s = Some s' \<and> gdt_entries s' = (gdt_entries s)[num := e]
     \<and> seg_base e = base \<and> seg_limit e = limit AND 0xFFFFF \<and> access e = acc \<and> seg_flags e = gran AND 0xF0
     \<and> the_tss s' = the_tss s \<and> the_gdt_ptr s' = the_gdt_ptr s"
proof -
  let ?e = "\<lparr>limit_low = ucast (limit AND 0xFFFF), base_low = ucast (base AND 0xFFFF),
        base_middle = ucast (drop_bit 16 base AND 0xFF), access = acc,
        granularity = ucast (drop_bit 16 limit AND 0x0F) OR (gran AND 0xF0),
        base_high = ucast (drop_bit 24 base AND 0xFF)\<rparr>"
  have "seg_base ?e = base" by (simp add: seg_base_def base_split)
  moreover have "seg_limit ?e = limit AND 0xFFFFF"
    unfolding seg_limit_def mask_consts by (rule bit_word_eqI) (auto simp: bit_simps)
  moreover have "seg_flags ?e = gran AND 0xF0"
    unfolding seg_flags_def mask_consts by (rule bit_word_eqI) (auto simp: bit_simps)
  ultimately show ?thesis
    using assms by (intro exI [of _ "s\<lparr>gdt_entries := (gdt_entries s)[num := ?e]\<rparr>"] exI [of _ ?e])
      (simp add: gdt_set_gate_def)
qed

theorem gdt_set_gate_roundtrip_witness:
  "\<exists>s' e. gdt_set_gate 1 0x12345678 0xFFFFFFFF 0x9A 0xCF
       \<lparr>gdt_entries = replicate 6 \<lparr>limit_low = 0, base_low = 0, base_middle = 0, access = 0, granularity = 0, base_high = 0\<rparr>,
        the_gdt_ptr = \<lparr>gdt_limit = 0, gdt_base = 0\<rparr>, the_tss = zero_tss\<rparr> = Some s'
     \<and> gdt_entries s' ! 1 = e \<and> seg_base e = 0x12345678 \<and> seg_limit e = 0xFFFFF"
  using gdt_set_gate_roundtrip [of 1 "\<lparr>gdt_entries = replicate 6 \<lparr>limit_low = 0, base_low = 0, base_middle = 0,
      access = 0, granularity = 0, base_high = 0\<rparr>, the_gdt_ptr = \<lparr>gdt_limit = 0, gdt_base = 0\<rparr>, the_tss = zero_tss\<rparr>"
      "0x12345678" "0xFFFFFFFF" "0x9A" "0xCF"] by auto

lemma gdt_segments:
  assumes "length (gdt_entries s) = 6"
  shows "\<exists>s'. gdt_init ga ta s = Some s' \<and> length (gdt_entries s') = 6
     \<and> the_gdt_ptr s' = \<lparr>gdt_limit = 47, gdt_base = ga\<rparr>
     \<and> (\<forall>sel \<in> {0x08, 0x10, 0x1B, 0x23}. \<exists>e. selected s' sel = Some e \<and> seg_present e \<and> seg_base e = 0
          \<and> seg_last e = 0xFFFFFFFF \<and> seg_dpl e = ucast (sel AND 3) \<and> (seg_code e \<longleftrightarrow> sel \<in> {0x08, 0x1B}))
     \<and> (\<exists>e. selected s' 0 = Some e \<and> \<not> seg_present e)
     \<and> (\<exists>e. selected s' 0x2B = Some e \<and> seg_present e \<and> seg_base e = ta \<and> seg_last e = 103 \<and> access e AND 0x1F = 9)
     \<and> ss0 (the_tss s') = 0x10 \<and> esp0 (the_tss s') = 0"
proof -
  obtain a b c d e f where es: "gdt_entries s = [a, b, c, d, e, f]"
    using assms by (auto simp: length_Suc_conv numeral_eq_Suc)
  let ?n = "\<lparr>limit_low = 0, base_low = 0, base_middle = 0, access = 0, granularity = 0, base_high = 0\<rparr>"
  let ?g = "\<lambda>acc. \<lparr>limit_low = 0xFFFF, base_low = 0, base_middle = 0, access = acc, granularity = 0xCF, base_high = 0\<rparr>"
  let ?t = "\<lparr>limit_low = 103, base_low = ucast (ta AND 0xFFFF), base_middle = ucast (drop_bit 16 ta AND 0xFF),
     access = 0xE9, granularity = 0, base_high = ucast (drop_bit 24 ta AND 0xFF)\<rparr>"
  have "\<exists>s'. gdt_init ga ta s = Some s' \<and> gdt_entries s' = [?n, ?g 0x9A, ?g 0x92, ?g 0xFA, ?g 0xF2, ?t]
     \<and> the_gdt_ptr s' = \<lparr>gdt_limit = 47, gdt_base = ga\<rparr> \<and> ss0 (the_tss s') = 0x10 \<and> esp0 (the_tss s') = 0"
    by (simp add: gdt_init_def gdt_set_gate_def write_tss_def es zero_tss_def Let_def)
  then obtain s' where s': "gdt_init ga ta s = Some s'" "gdt_entries s' = [?n, ?g 0x9A, ?g 0x92, ?g 0xFA, ?g 0xF2, ?t]"
     "the_gdt_ptr s' = \<lparr>gdt_limit = 47, gdt_base = ga\<rparr>" "ss0 (the_tss s') = 0x10" "esp0 (the_tss s') = 0" by blast
  have base: "seg_base ?t = ta" by (simp add: seg_base_def base_split)
  have flat: "seg_present (?g acc) \<longleftrightarrow> acc AND 0x80 \<noteq> 0" "seg_base (?g acc) = 0" "seg_last (?g acc) = 0xFFFFFFFF"
    "seg_dpl (?g acc) = drop_bit 5 acc AND 3" "seg_code (?g acc) \<longleftrightarrow> acc AND 0x18 = 0x18" for acc
    by (simp_all add: seg_present_def seg_base_def seg_last_def seg_limit_def seg_dpl_def seg_code_def)
  have sel: "selected s' 0x08 = Some (?g 0x9A)" "selected s' 0x10 = Some (?g 0x92)" "selected s' 0x1B = Some (?g 0xFA)"
    "selected s' 0x23 = Some (?g 0xF2)" "selected s' 0 = Some ?n" "selected s' 0x2B = Some ?t"
    by (simp_all add: selected_def s'(2) aget_def)
  show ?thesis
    using s'(1,3-5) sel flat base
    by (intro exI [of _ s']) (simp add: s'(2) seg_present_def seg_last_def seg_limit_def)
qed

text \<open>
  After \<^verbatim>\<open>gdt_init\<close> the selectors the kernel uses mean what the code expects:
  0x08 and 0x10 are present ring 0 code and data, 0x1B and 0x23 present ring 3 code and data,
  all four flat over the whole address space; selector 0 is not present; 0x2B is a task state
  segment of 104 bytes at the address of the structure, whose ring 0 stack segment is 0x10; the
  table pointer covers exactly the six descriptors.
\<close>

theorem gdt_init_segments:
  assumes "length (gdt_entries s) = 6"
  shows "\<exists>s'. gdt_init ga ta s = Some s' \<and> length (gdt_entries s') = 6
     \<and> the_gdt_ptr s' = \<lparr>gdt_limit = 47, gdt_base = ga\<rparr>
     \<and> (\<forall>sel \<in> {0x08, 0x10, 0x1B, 0x23}. \<exists>e. selected s' sel = Some e \<and> seg_present e \<and> seg_base e = 0
          \<and> seg_last e = 0xFFFFFFFF \<and> seg_dpl e = ucast (sel AND 3) \<and> (seg_code e \<longleftrightarrow> sel \<in> {0x08, 0x1B}))
     \<and> (\<exists>e. selected s' 0 = Some e \<and> \<not> seg_present e)
     \<and> (\<exists>e. selected s' 0x2B = Some e \<and> seg_present e \<and> seg_base e = ta \<and> seg_last e = 103 \<and> access e AND 0x1F = 9)
     \<and> ss0 (the_tss s') = 0x10 \<and> esp0 (the_tss s') = 0"
  using assms by (rule gdt_segments)

theorem gdt_init_segments_witness:
  "\<exists>s' e. gdt_init 0x5000 0x6000
       \<lparr>gdt_entries = replicate 6 \<lparr>limit_low = 0, base_low = 0, base_middle = 0, access = 0, granularity = 0, base_high = 0\<rparr>,
        the_gdt_ptr = \<lparr>gdt_limit = 0, gdt_base = 0\<rparr>, the_tss = zero_tss\<rparr> = Some s'
     \<and> selected s' 0x2B = Some e \<and> seg_base e = 0x6000"
  using gdt_init_segments [of "\<lparr>gdt_entries = replicate 6 \<lparr>limit_low = 0, base_low = 0, base_middle = 0,
      access = 0, granularity = 0, base_high = 0\<rparr>, the_gdt_ptr = \<lparr>gdt_limit = 0, gdt_base = 0\<rparr>, the_tss = zero_tss\<rparr>"
      "0x5000" "0x6000"] by auto

end
