(* ===== verification/Bh_Idt.thy ===== *)
theory Bh_Idt
  imports Bh_Ata
begin

text \<open>
  The interrupt descriptor table and the interrupt controllers, \<^verbatim>\<open>kernel/idt.c\<close> and
  \<^verbatim>\<open>kernel/idt.h\<close>. The addresses of the assembly stubs and of the table are
  parameters; the controllers are behind the port functions.
\<close>

section \<open>Tables\<close>

record idt_entry =
  offset_low :: u16
  selector :: u16
  zero_byte :: u8
  type_attr :: u8
  offset_high :: u16

record idt_ptr =
  idt_limit :: u16
  idt_base :: u32

record idt_state =
  idt :: "idt_entry list"
  idtp :: idt_ptr

definition IDT_ENTRIES :: nat where "IDT_ENTRIES = 256"

abbreviation (input) sizeof_idt_entry :: nat where "sizeof_idt_entry \<equiv> 8"

record handlers =
  isr_14 :: u32
  isr_irq0 :: u32
  isr_irq1 :: u32
  isr_128 :: u32

section \<open>Operations\<close>

definition idt_set_gate :: "nat \<Rightarrow> u32 \<Rightarrow> u16 \<Rightarrow> u8 \<Rightarrow> idt_state \<Rightarrow> idt_state option" where
  "idt_set_gate n handler sel flags s = do {
     es \<leftarrow> aput (idt s) n
       \<lparr>offset_low = ucast (handler AND 0xFFFF), selector = sel, zero_byte = 0, type_attr = flags,
        offset_high = ucast (drop_bit 16 handler AND 0xFFFF)\<rparr>;
     Some (s\<lparr>idt := es\<rparr>) }"

fun idt_zero_loop :: "nat \<Rightarrow> nat \<Rightarrow> idt_state \<Rightarrow> idt_state option" where
  "idt_zero_loop 0 i s = Some s"
| "idt_zero_loop (Suc n) i s = do { s' \<leftarrow> idt_set_gate i 0 0 0 s; idt_zero_loop n (Suc i) s' }"

definition pic_remap :: "'p ports \<Rightarrow> 'p \<Rightarrow> 'p" where
  "pic_remap P d =
     (let d1 = p_outb P 0x20 0x11 d; d2 = p_outb P 0xA0 0x11 d1;
          d3 = p_outb P 0x21 0x20 d2; d4 = p_outb P 0xA1 0x28 d3;
          d5 = p_outb P 0x21 0x04 d4; d6 = p_outb P 0xA1 0x02 d5;
          d7 = p_outb P 0x21 0x01 d6; d8 = p_outb P 0xA1 0x01 d7;
          d9 = p_outb P 0x21 0xFC d8
      in p_outb P 0xA1 0xFF d9)"

definition idt_init :: "'p ports \<Rightarrow> handlers \<Rightarrow> u32 \<Rightarrow> idt_state \<Rightarrow> 'p \<Rightarrow> (idt_state \<times> 'p) option" where
  "idt_init P h idt_address s d = do {
     let s0 = s\<lparr>idtp := \<lparr>idt_limit = of_nat (sizeof_idt_entry * IDT_ENTRIES) - 1, idt_base = idt_address\<rparr>\<rparr>;
     s1 \<leftarrow> idt_zero_loop IDT_ENTRIES 0 s0;
     let d1 = pic_remap P d;
     s2 \<leftarrow> idt_set_gate 14 (isr_14 h) 0x08 0x8E s1;
     s3 \<leftarrow> idt_set_gate 32 (isr_irq0 h) 0x08 0x8E s2;
     s4 \<leftarrow> idt_set_gate 33 (isr_irq1 h) 0x08 0x8E s3;
     s5 \<leftarrow> idt_set_gate 128 (isr_128 h) 0x08 0xEE s4;
     Some (s5, d1) }"

section \<open>What the processor reads\<close>

definition gate_offset :: "idt_entry \<Rightarrow> u32" where
  "gate_offset e = ucast (offset_low e) OR push_bit 16 (ucast (offset_high e))"

definition gate_present :: "idt_entry \<Rightarrow> bool" where
  "gate_present e \<longleftrightarrow> type_attr e AND 0x80 \<noteq> 0"

definition gate_dpl :: "idt_entry \<Rightarrow> u8" where
  "gate_dpl e = drop_bit 5 (type_attr e) AND 3"

text \<open>An interrupt gate disables interrupts on entry.\<close>

definition interrupt_gate :: "idt_entry \<Rightarrow> bool" where
  "interrupt_gate e \<longleftrightarrow> type_attr e AND 0x0F = 0x0E"

text \<open>
  The handler vector \<open>n\<close> enters when it is raised by an instruction at privilege \<open>cpl\<close>
  (hardware interrupts and exceptions pass privilege 0); no handler means a fault in the
  delivery of the interrupt.
\<close>

definition delivers :: "idt_state \<Rightarrow> nat \<Rightarrow> u8 \<Rightarrow> u32 option" where
  "delivers s n cpl = (case aget (idt s) n of None \<Rightarrow> None
     | Some e \<Rightarrow> if gate_present e \<and> cpl \<le> gate_dpl e then Some (gate_offset e) else None)"

section \<open>Properties\<close>

lemma offset_split: "ucast (ucast (h AND 0xFFFF) :: u16) OR push_bit 16 (ucast (ucast (drop_bit 16 h AND 0xFFFF) :: u16)) = (h :: u32)"
proof -
  have m: "(0xFFFF :: u32) = mask 16" by (simp add: mask_eq_exp_minus_1)
  show ?thesis unfolding m by (rule bit_word_eqI) (auto simp: bit_simps)
qed

definition gate :: "u32 \<Rightarrow> u16 \<Rightarrow> u8 \<Rightarrow> idt_entry" where
  "gate handler sel flags = \<lparr>offset_low = ucast (handler AND 0xFFFF), selector = sel, zero_byte = 0, type_attr = flags,
        offset_high = ucast (drop_bit 16 handler AND 0xFFFF)\<rparr>"

lemma gate_sel [simp]: "gate_offset (gate h sel f) = h" "type_attr (gate h sel f) = f" "selector (gate h sel f) = sel"
  by (simp_all add: gate_def gate_offset_def offset_split)

lemma set_gate_ok: "n < length (idt s) \<Longrightarrow> idt_set_gate n h sel f s = Some (s\<lparr>idt := (idt s)[n := gate h sel f]\<rparr>)"
  by (simp add: idt_set_gate_def gate_def)

lemma idt_zero_ok:
  "i + n \<le> length (idt s) \<Longrightarrow>
   idt_zero_loop n i s = Some (s\<lparr>idt := take i (idt s) @ replicate n (gate 0 0 0) @ drop (i + n) (idt s)\<rparr>)"
proof (induction n arbitrary: i s)
  case (Suc n)
  have "(idt s)[i := gate 0 0 0] = take i (idt s) @ gate 0 0 0 # drop (Suc i) (idt s)"
    using Suc.prems by (intro list_update_take_drop) simp
  with Suc show ?case by (simp add: set_gate_ok take_Suc_conv_app_nth replicate_append_same add.commute [of n i])
qed simp

lemma idt_vectors:
  assumes "length (idt s) = 256" "cpl \<le> 3"
  shows "\<exists>s'. idt_init P h ia s d = Some (s', pic_remap P d) \<and> length (idt s') = 256
     \<and> idtp s' = \<lparr>idt_limit = 2047, idt_base = ia\<rparr>
     \<and> delivers s' 14 0 = Some (isr_14 h) \<and> delivers s' 32 0 = Some (isr_irq0 h) \<and> delivers s' 33 0 = Some (isr_irq1 h)
     \<and> delivers s' 128 cpl = Some (isr_128 h)
     \<and> (\<forall>n. n \<notin> {14, 32, 33, 128} \<longrightarrow> delivers s' n cpl = None)
     \<and> (\<forall>n. n \<noteq> 128 \<and> 0 < cpl \<longrightarrow> delivers s' n cpl = None)
     \<and> (\<forall>n \<in> {14, 32, 33, 128}. interrupt_gate (idt s' ! n) \<and> selector (idt s' ! n) = 0x08)"
proof -
  let ?z = "replicate 256 (gate 0 0 0)"
  let ?t = "?z[14 := gate (isr_14 h) 8 0x8E, 32 := gate (isr_irq0 h) 8 0x8E, 33 := gate (isr_irq1 h) 8 0x8E,
     128 := gate (isr_128 h) 8 0xEE]"
  let ?s' = "s\<lparr>idtp := \<lparr>idt_limit = 2047, idt_base = ia\<rparr>, idt := ?t\<rparr>"
  have 1: "idt_init P h ia s d = Some (?s', pic_remap P d)"
    using assms(1) by (simp add: idt_init_def idt_zero_ok set_gate_ok IDT_ENTRIES_def Let_def)
  have nth: "?t ! n = (if n = 14 then gate (isr_14 h) 8 0x8E else if n = 32 then gate (isr_irq0 h) 8 0x8E
      else if n = 33 then gate (isr_irq1 h) 8 0x8E else if n = 128 then gate (isr_128 h) 8 0xEE else gate 0 0 0)"
    if "n < 256" for n using that by (simp add: nth_list_update)
  have dlv: "delivers ?s' n c = (if n = 14 then (if c = 0 then Some (isr_14 h) else None)
      else if n = 32 then (if c = 0 then Some (isr_irq0 h) else None)
      else if n = 33 then (if c = 0 then Some (isr_irq1 h) else None)
      else if n = 128 then (if c \<le> 3 then Some (isr_128 h) else None) else None)" for n c
  proof (cases "n < 256")
    case True
    then show ?thesis by (simp add: delivers_def nth gate_present_def gate_dpl_def)
  next
    case False
    then show ?thesis by (simp add: delivers_def aget_def)
  qed
  have g: "interrupt_gate (?t ! n) \<and> selector (?t ! n) = 0x08" if "n \<in> {14, 32, 33, 128}" for n
    using that nth [of n] by (auto simp: interrupt_gate_def)
  have len: "length ?t = 256" by (simp)
  show ?thesis
    by (intro exI [of _ ?s'] conjI allI impI ballI)
      (use 1 assms(2) g len in \<open>auto simp add: dlv\<close>)
qed

text \<open>
  (C32) After \<^verbatim>\<open>idt_init\<close> exactly the vectors 14, 32, 33 and 128 are delivered, each to
  its stub through an interrupt gate in the kernel code segment; only 128 can be raised from
  ring 3; every other vector, among them all other processor exceptions, has no handler. The
  table pointer covers exactly the 256 gates. The controllers get the initialisation sequence
  that moves the interrupts to the vectors from 32 and from 40 on and unmasks only the timer and the
  keyboard.
\<close>

theorem idt_init_vectors:
  assumes "length (idt s) = 256" "cpl \<le> 3"
  shows "\<exists>s'. idt_init P h ia s d = Some (s', pic_remap P d) \<and> length (idt s') = 256
     \<and> idtp s' = \<lparr>idt_limit = 2047, idt_base = ia\<rparr>
     \<and> delivers s' 14 0 = Some (isr_14 h) \<and> delivers s' 32 0 = Some (isr_irq0 h) \<and> delivers s' 33 0 = Some (isr_irq1 h)
     \<and> delivers s' 128 cpl = Some (isr_128 h)
     \<and> (\<forall>n. n \<notin> {14, 32, 33, 128} \<longrightarrow> delivers s' n cpl = None)
     \<and> (\<forall>n. n \<noteq> 128 \<and> 0 < cpl \<longrightarrow> delivers s' n cpl = None)
     \<and> (\<forall>n \<in> {14, 32, 33, 128}. interrupt_gate (idt s' ! n) \<and> selector (idt s' ! n) = 0x08)"
  using assms by (rule idt_vectors)

theorem idt_init_vectors_witness:
  "\<exists>s'. idt_init \<lparr>p_inb = \<lambda>_ d. (0, d), p_outb = \<lambda>p v d. d @ [(p, v)], p_inw = \<lambda>_ d. (0, d), p_outw = \<lambda>_ _ d. d\<rparr>
       \<lparr>isr_14 = 0x1100, isr_irq0 = 0x1200, isr_irq1 = 0x1300, isr_128 = 0x1400\<rparr> 0x8000
       \<lparr>idt = replicate 256 (gate 0 0 0), idtp = \<lparr>idt_limit = 0, idt_base = 0\<rparr>\<rparr> []
     = Some (s', [(0x20, 0x11), (0xA0, 0x11), (0x21, 0x20), (0xA1, 0x28), (0x21, 0x04), (0xA1, 0x02), (0x21, 0x01),
         (0xA1, 0x01), (0x21, 0xFC), (0xA1, 0xFF)])
     \<and> delivers s' 128 3 = Some 0x1400 \<and> delivers s' 13 3 = None"
  using idt_init_vectors [of "\<lparr>idt = replicate 256 (gate 0 0 0), idtp = \<lparr>idt_limit = 0, idt_base = 0\<rparr>\<rparr>" 3
      "\<lparr>p_inb = \<lambda>_ d. (0, d), p_outb = \<lambda>p v d. d @ [(p, v)], p_inw = \<lambda>_ d. (0, d), p_outw = \<lambda>_ _ d. d\<rparr>"
      "\<lparr>isr_14 = 0x1100, isr_irq0 = 0x1200, isr_irq1 = 0x1300, isr_128 = 0x1400\<rparr>" "0x8000" "[]"]
  by (auto simp: pic_remap_def)

end
