(* ===== verification/Bh_Kernel.thy ===== *)
theory Bh_Kernel
  imports Bh_ShellInv Bh_Gdt Bh_Idt
begin

text \<open>
  The kernel's entry point, \<^verbatim>\<open>kernel/kernel.c\<close>, which brings up every component in order,
  and the entry to ring 3, \<^verbatim>\<open>kernel/user_mode.S\<close>. All port instructions go to one device
  state, the one the sector store uses. The addresses the linker chooses are the record
  \<open>image\<close>. No interrupt arrives during the boot: until \<^verbatim>\<open>tasking_init\<close> is done a timer
  interrupt would only advance the tick counter.
\<close>

section \<open>The whole machine\<close>

record 'p kernel =
  mach :: "'p machine"
  segs :: gdt_state
  vectors :: idt_state
  tasks :: sched
  proc :: cpu

record image =
  at_gdt :: u32
  at_tss :: u32
  at_idt :: u32
  at_pd_raw :: u32
  at_pt_raw :: u32
  stubs :: handlers

definition set_dev :: "'p \<Rightarrow> 'p machine \<Rightarrow> 'p machine" where
  "set_dev d m = m\<lparr>fsys := (fsys m)\<lparr>dev := d\<rparr>\<rparr>"

section \<open>Operations\<close>

text \<open>
  Up to the call of \<^verbatim>\<open>switch_to_user_mode\<close>. Paging also loads the control register that the
  scheduler reads; \<^verbatim>\<open>idt_init\<close> ends with interrupts on.
\<close>

definition kernel_main :: "'p ports \<Rightarrow> image \<Rightarrow> 'p kernel \<Rightarrow> 'p kernel option" where
  "kernel_main P im k = do {
     let m0 = set_screen (vga_init (screen (mach k))) (mach k);
     m1 \<leftarrow> msay (''BlackHole OS v0.0.3'' @ nl) [] (color VGA_LIGHT_GREEN m0);
     m2 \<leftarrow> msay (''Kernel loaded successfully.'' @ nl) [] (color VGA_LIGHT_GREY m1);
     m3 \<leftarrow> msay (''Initializing Global Descriptor Table (GDT)...'' @ nl) [] m2;
     g \<leftarrow> gdt_init (at_gdt im) (at_tss im) (segs k);
     m4 \<leftarrow> msay (''Initializing Virtual Memory (Paging)...'' @ nl) [] m3;
     let (p, r) = paging_init (at_pd_raw im) (at_pt_raw im) (pg m4) (ram m4);
     let m5 = m4\<lparr>pg := p, ram := r\<rparr>;
     let c = (proc k)\<lparr>cpu_cr3 := cr3 p\<rparr>;
     m6 \<leftarrow> msay (''Initializing IDT & PIC...'' @ nl) [] m5;
     (v, d) \<leftarrow> idt_init P (stubs im) (at_idt im) (vectors k) (dev (fsys m6));
     let c1 = c\<lparr>iflag := True\<rparr>;
     m7 \<leftarrow> msay (''Initializing Timer...'' @ nl) [] (set_dev d m6);
     (t, d1) \<leftarrow> timer_init P 100 (tmr m7) (dev (fsys m7));
     let m8 = (set_dev d1 m7)\<lparr>tmr := t\<rparr>;
     let m9 = m8\<lparr>keys := keyboard_init (keys m8)\<rparr>;
     (d2, scr1) \<leftarrow> ata_init P (dev (fsys m9)) (screen m9);
     m10 \<leftarrow> msay (''Initializing FAT16 Filesystem...'' @ nl) [] (set_screen scr1 (set_dev d2 m9));
     (_, f) \<leftarrow> fat16_init (ata_io P) (fsys m10);
     m11 \<leftarrow> msay (''> IDT initialized.'' @ nl) [] (color VGA_WHITE (m10\<lparr>fsys := f\<rparr>));
     m12 \<leftarrow> msay (''> Timer running at 100Hz.'' @ nl) [] m11;
     m13 \<leftarrow> msay (''> Keyboard driver ready.'' @ nl) [] m12;
     m14 \<leftarrow> msay (''> Memory allocator ready.'' @ nl) [] (m13\<lparr>ram := memory_init (ram m13)\<rparr>);
     (ptr1, r1) \<leftarrow> memory_alloc 128 (ram m14);
     (ptr2, r2) \<leftarrow> memory_alloc 256 r1;
     let m15 = m14\<lparr>ram := r2\<rparr>;
     m16 \<leftarrow> (if ptr1 \<noteq> 0 \<and> ptr2 \<noteq> 0 then msay (''> Memory allocation test PASSED.'' @ nl @ nl) [] m15
            else msay (''> Memory allocation test FAILED.'' @ nl @ nl) [] m15);
     m17 \<leftarrow> msay (''Initializing Multitasking Scheduler...'' @ nl) [] m16;
     (s, c2, r3) \<leftarrow> tasking_init (tasks k) c1 (ram m17);
     m18 \<leftarrow> msay (''> Task zero active.'' @ nl @ nl) [] (m17\<lparr>ram := r3\<rparr>);
     m19 \<leftarrow> msay (''Dropping to User Mode (Ring 3)...'' @ nl) [] m18;
     Some \<lparr>mach = m19, segs = g, vectors = v, tasks = s, proc = c2\<rparr> }"

text \<open>
  The instructions of \<^verbatim>\<open>_switch_to_user_mode\<close>: a frame for \<^verbatim>\<open>iret\<close> is pushed and
  popped again. The result is the processor with the code and stack selectors it then has;
  \<open>entry\<close> is the address of \<^verbatim>\<open>user_main\<close> and \<open>flags\<close> the value \<^verbatim>\<open>pushf\<close> stores after \<^verbatim>\<open>cli\<close>.
\<close>

definition switch_to_user_mode :: "u32 \<Rightarrow> u32 \<Rightarrow> cpu \<times> mem \<Rightarrow> u32 \<times> u32 \<times> cpu \<times> mem" where
  "switch_to_user_mode entry flags = (\<lambda>(c, m).
     let x1 = push 0x23 (c\<lparr>iflag := False\<rparr>, m);
         x2 = push (esp (fst x1)) x1;
         x3 = push (flags OR 0x200) x2;
         x4 = push 0x1B x3;
         x5 = push entry x4;
         (r_eip, y1) = pop x5;
         (r_cs, y2) = pop y1;
         (r_flags, y3) = pop y2;
         (r_esp, y4) = pop y3;
         (r_ss, c5, m5) = pop y4
     in (r_cs, r_ss, c5\<lparr>eip := r_eip, esp := r_esp, iflag := r_flags AND 0x200 \<noteq> 0\<rparr>, m5))"

section \<open>What the processor does in ring 3\<close>

text \<open>
  An exception raised in ring 3 is delivered if its vector has a handler and the six words of
  its frame can be stored below the stack pointer of the task state segment. An exception that
  cannot be delivered is a double fault; if that cannot be delivered either, the processor
  resets.
\<close>

datatype outcome = Runs | Handled nat u32 | Resets

definition enter_ring0 :: "'p kernel \<Rightarrow> mem \<Rightarrow> nat \<Rightarrow> u32 option" where
  "enter_ring0 k m n =
     (if list_all (\<lambda>i. mmu (pg (mach k)) m False True (esp0 (the_tss (segs k)) - 4 * of_nat i) \<noteq> None) [1..<7]
      then delivers (vectors k) n 0 else None)"

definition ring3_fetch :: "'p kernel \<Rightarrow> mem \<Rightarrow> u32 \<Rightarrow> outcome" where
  "ring3_fetch k m va =
     (if mmu (pg (mach k)) m True False va \<noteq> None then Runs
      else (case enter_ring0 k m 14 of
          Some h \<Rightarrow> Handled 14 h
        | None \<Rightarrow> (case enter_ring0 k m 8 of Some h \<Rightarrow> Handled 8 h | None \<Rightarrow> Resets)))"

section \<open>What the boot relies on of the hardware\<close>

text \<open>
  Besides the transfer protocol: the drive answers IDENTIFY with one block of data, and the
  ports of the other devices do not concern it.
\<close>

locale boot_device = ide_device +
  assumes identify_law: "pending d = 0 \<Longrightarrow> phase d = Idle \<Longrightarrow> d' = p_outb P ATA_PORT_COMMAND 0xEC d \<Longrightarrow>
      (\<exists>ws. length ws = 256 \<and> phase d' = Data_in ws) \<and> platter d' = platter d"
    and other_law: "port \<in> {0x20, 0x21, 0x40, 0x43, 0xA0, 0xA1} \<Longrightarrow>
      phase (p_outb P port v d) = phase d \<and> pending (p_outb P port v d) = pending d \<and> platter (p_outb P port v d) = platter d"

interpretation boot_ide: boot_device ide_ports ide_regs ide_phase ide_pending ide_platter
  by unfold_locales (auto simp: ide_ports_def ide_outb_def ata_port_defs intro!: exI [of _ "replicate 256 0"])


context boot_device
begin

lemma pic_frame:
  "phase (pic_remap P d) = phase d" "pending (pic_remap P d) = pending d" "platter (pic_remap P d) = platter d"
  by (simp_all add: pic_remap_def Let_def other_law)

lemma timer_frame:
  "\<exists>d'. timer_init P 100 t d = Some (t\<lparr>current_freq := 100\<rparr>, d') \<and> phase d' = phase d \<and> pending d' = pending d \<and> platter d' = platter d"
  by (simp add: timer_init_def Let_def other_law)

lemma drain:
  "pending d = 0 \<Longrightarrow> phase d = (if ws = [] then Idle else Data_in ws) \<Longrightarrow> n = length ws \<Longrightarrow>
   phase (inw_drain P n d) = Idle \<and> pending (inw_drain P n d) = 0 \<and> platter (inw_drain P n d) = platter d"
proof (induction ws arbitrary: n d)
  case (Cons w ws)
  obtain w' d' where w: "p_inw P ATA_PORT_DATA d = (w', d')" by (cases "p_inw P ATA_PORT_DATA d")
  have "phase d' = (if ws = [] then Idle else Data_in ws) \<and> pending d' = 0 \<and> platter d' = platter d"
    using data_in_law [OF Cons.prems(1) _ w] Cons.prems(2) by simp
  with Cons.IH [of d' "length ws"] Cons.prems(3) w show ?case by simp
qed simp

lemma ata_init_ok:
  assumes "pending d = 0" "phase d = Idle"
  shows "\<exists>d'. ata_init P d v = Some (d', fold vga_putchar (ascii ''> Primary ATA Drive initialized.'' @ [10]) v)
     \<and> phase d' = Idle \<and> platter d' = platter d"
proof -
  let ?r = "\<lambda>d d'. pending d' = 0 \<and> phase d' = Idle \<and> platter d' = platter d"
  have r: "?r e (p_outb P port x e)" if "?r d e" "port \<in> setup_ports" for port x e
    using register_law [OF that(2), of e x] that(1) by simp
  have r2: "?r d (p_outb P port x e)" if "?r d e" "port \<in> setup_ports" for port x e
    using r [OF that] that(1) by simp
  define d5 where "d5 = p_outb P ATA_PORT_LBA_HI 0 (p_outb P ATA_PORT_LBA_MID 0 (p_outb P ATA_PORT_LBA_LO 0
      (p_outb P ATA_PORT_SECTOR_CNT 0 (p_outb P ATA_PORT_DRIVE 0xA0 d))))"
  have d5: "?r d d5"
    unfolding d5_def by (intro r2) (simp_all add: assms setup_ports_def)
  define d6 where "d6 = p_outb P ATA_PORT_COMMAND 0xEC d5"
  obtain ws where d6: "length ws = 256" "phase d6 = Data_in ws" "platter d6 = platter d"
    using identify_law [of d5 d6] d5 d6_def by auto
  obtain st d7 where st: "p_inb P ATA_PORT_STATUS d6 = (st, d7)" by (cases "p_inb P ATA_PORT_STATUS d6")
  have d7: "st \<noteq> 0" "phase d7 = Data_in ws" "platter d7 = platter d"
    using status_law [OF st] d6 by (auto simp: and_zero_eq)
  obtain d8 where d8: "ata_wait_bsy P d7 = Some d8" "pending d8 = 0" "phase d8 = Data_in ws" "platter d8 = platter d"
    using wait_bsy [of d7] d7 by auto
  obtain st' d9 where st': "p_inb P ATA_PORT_STATUS d8 = (st', d9)" by (cases "p_inb P ATA_PORT_STATUS d8")
  have d9: "st' AND 0x08 \<noteq> 0" "pending d9 = 0" "phase d9 = Data_in ws" "platter d9 = platter d"
    using status_law [OF st'] d8 by auto
  have ws: "phase d9 = (if ws = [] then Idle else Data_in ws)" using d9(3) d6(1) by auto
  have "printf (lit (''> Primary ATA Drive initialized.'' @ nl)) [] v
      = Some (33, fold vga_putchar (ascii ''> Primary ATA Drive initialized.'' @ [10]) v)"
    by (subst printf_text) (simp_all add: ascii_def)
  then have "ata_init P d v = Some (inw_drain P 256 d9, fold vga_putchar (ascii ''> Primary ATA Drive initialized.'' @ [10]) v)"
    using d7(1) d8(1) d9(1)
    by (simp add: ata_init_def Let_def st st' flip: d5_def d6_def)
  with drain [OF d9(2) ws, of 256] d6(1) d9(4) show ?thesis by simp
qed

lemma mount_ok:
  assumes "settled (dev f)" "0 < length (platter (dev f))"
  shows "\<exists>e f'. fat16_init (ata_io P) f = Some (e, f') \<and> settled (dev f') \<and> platter (dev f') = platter (dev f)
     \<and> (if get16 (platter (dev f) ! 0) 11 = 512 then e = 0 \<and> vars f' = bpb_vars (platter (dev f) ! 0) else e = - 1 \<and> vars f' = vars f)"
proof -
  let ?r = "ideal platter f"
  have R: "same_fs settled platter f ?r" using assms(1) by (simp add: same_ideal)
  have ok: "disk_ok (dev ?r)" "0 < length (dev ?r)" using assms by (simp_all add: disk_ok_def settled_def)
  obtain e v where i: "fat16_init ram_io ?r = Some (e, (if e = 0 then ?r\<lparr>vars := bpb_vars (dev ?r ! 0)\<rparr> else ?r)\<lparr>scr := v\<rparr>)"
      "e = (if get16 (dev ?r ! 0) 11 = 512 then 0 else - 1)"
    using fat16_init_ram [OF ok] by (cases "get16 (dev ?r ! 0) 11 = 512") auto
  obtain f' where f': "fat16_init (ata_io P) f = Some (e, f')"
      "same_fs settled platter f' ((if e = 0 then ?r\<lparr>vars := bpb_vars (dev ?r ! 0)\<rparr> else ?r)\<lparr>scr := v\<rparr>)"
    by (rule simE [OF sector_store.init_sim [OF ata_store R] i(1)])
  then show ?thesis using i(2) by (auto simp: same_fs_def split: if_splits)
qed

end

section \<open>Bringing the machine up\<close>

text \<open>The heap after the two test allocations and the control block of the first task.\<close>

definition boot_blocks :: blocks where
  "boot_blocks = [(128, False), (256, False), (24, False), (1048120, True)]"

lemma boot_fits:
  "first_fit (align4 (unat (128 :: u32))) HEAP_LO [(1048564, True)] = Some (1048588, [(128, False), (1048424, True)])"
  "first_fit (align4 (unat (256 :: u32))) HEAP_LO [(128, False), (1048424, True)]
     = Some (1048728, [(128, False), (256, False), (1048156, True)])"
  "first_fit 24 HEAP_LO [(128, False), (256, False), (1048156, True)] = Some (1048996, boot_blocks)"
  by (simp_all add: align4_def HEAP_LO_def boot_blocks_def)

lemma boot_heap:
  "\<exists>r1 r2. memory_alloc 128 (memory_init r) = Some (1048588, r1) \<and> memory_alloc 256 r1 = Some (1048728, r2)
     \<and> heap_ok r2 [(128, False), (256, False), (1048156, True)] \<and> same_on 0 HEAP_LO r r2"
proof -
  obtain r1 where r1: "memory_alloc 128 (memory_init r) = Some (of_nat 1048588, r1)"
      "heap_ok r1 [(128, False), (1048424, True)]" "same_on 0 HEAP_LO (memory_init r) r1"
    using alloc_some [OF memory_init_heap _ _ boot_fits(1)] by auto
  obtain r2 where r2: "memory_alloc 256 r1 = Some (of_nat 1048728, r2)"
      "heap_ok r2 [(128, False), (256, False), (1048156, True)]" "same_on 0 HEAP_LO r1 r2"
    using alloc_some [OF r1(2) _ _ boot_fits(2)] by auto
  have "same_on 0 HEAP_LO r (memory_init r)" by (rule memory_init_frame) (simp_all add: HEAP_LO_def)
  then have "same_on 0 HEAP_LO r r2" using r1(3) r2(3) same_on_trans by blast
  with r1(1) r2(1,2) show ?thesis by simp
qed

context boot_device
begin

lemma kernel_main_ok:
  assumes drive: "pending (dev (fsys (mach k))) = 0" "settled (dev (fsys (mach k)))" "0 < length (platter (dev (fsys (mach k))))"
    and tables: "length (gdt_entries (segs k)) = 6" "length (idt (vectors k)) = 256"
    and stack: "lo \<le> hi" "hi \<le> HEAP_LO"
  shows "\<exists>k' r d. kernel_main P im k = Some k'
     \<and> gdt_init (at_gdt im) (at_tss im) (segs k) = Some (segs k')
     \<and> idt_init P (stubs im) (at_idt im) (vectors k) (dev (fsys (mach k))) = Some (vectors k', d)
     \<and> settled (dev (fsys (mach k'))) \<and> platter (dev (fsys (mach k'))) = platter (dev (fsys (mach k)))
     \<and> vars (fsys (mach k')) = (if get16 (platter (dev (fsys (mach k))) ! 0) 11 = 512
          then bpb_vars (platter (dev (fsys (mach k))) ! 0) else vars (fsys (mach k)))
     \<and> tmr (mach k') = (tmr (mach k))\<lparr>current_freq := 100\<rparr> \<and> keys (mach k') = keyboard_init (keys (mach k))
     \<and> machine.pending (mach k') = machine.pending (mach k)
     \<and> paging_init (at_pd_raw im) (at_pt_raw im) (pg (mach k)) (ram (mach k)) = (pg (mach k'), r)
     \<and> same_on 0 HEAP_LO r (ram (mach k'))
     \<and> sched_rel boot_blocks [\<lparr>t_tcb = 1048996, t_lo = lo, t_hi = hi, t_ctx = x\<rparr>] 0 (tasks k') (proc k') (ram (mach k'))
     \<and> proc k' = (proc k)\<lparr>cpu_cr3 := cr3 (pg (mach k')), iflag := True\<rparr>"
proof -
  let ?d0 = "dev (fsys (mach k))" and ?pl = "platter (dev (fsys (mach k)))"
  obtain g where g: "gdt_init (at_gdt im) (at_tss im) (segs k) = Some g"
    using gdt_segments [OF tables(1)] by blast
  obtain v where v: "idt_init P (stubs im) (at_idt im) (vectors k) ?d0 = Some (v, pic_remap P ?d0)"
    using idt_vectors [OF tables(2), of 0] by fastforce
  obtain p r where pr: "paging_init (at_pd_raw im) (at_pt_raw im) (pg (mach k)) (ram (mach k)) = (p, r)" by fastforce
  have idle: "phase ?d0 = Idle" using drive(2) by (simp add: settled_def)
  obtain d1 where d1: "timer_init P 100 (tmr (mach k)) (pic_remap P ?d0) = Some ((tmr (mach k))\<lparr>current_freq := 100\<rparr>, d1)"
      "phase d1 = Idle" "pending d1 = 0" "platter d1 = ?pl"
    using timer_frame [of "tmr (mach k)" "pic_remap P ?d0"] drive(1) idle by (auto simp: pic_frame)
  obtain D where D: "\<And>w. ata_init P d1 w = Some (D w, fold vga_putchar (ascii ''> Primary ATA Drive initialized.'' @ [10]) w)"
      "\<And>w. settled (D w)" "\<And>w. platter (D w) = ?pl"
    using ata_init_ok [OF d1(3,2)] drive(2) d1(4) unfolding settled_def by metis
  define mounted where "mounted f f' \<longleftrightarrow> settled (dev f') \<and> platter (dev f') = ?pl
      \<and> vars f' = (if get16 (?pl ! 0) 11 = 512 then bpb_vars (?pl ! 0) else vars f)" for f f' :: "'a fs"
  have "\<exists>e f'. settled (dev f) \<and> platter (dev f) = ?pl \<longrightarrow> fat16_init (ata_io P) f = Some (e, f') \<and> mounted f f'" for f
    using mount_ok [of f] drive(3) unfolding mounted_def by auto
  then obtain E F where F: "\<And>f. settled (dev f) \<Longrightarrow> platter (dev f) = ?pl \<Longrightarrow> fat16_init (ata_io P) f = Some (E f, F f)"
      "\<And>f. settled (dev f) \<Longrightarrow> platter (dev f) = ?pl \<Longrightarrow> mounted f (F f)"
    by metis
  note F = F(1) conjunct1 [OF F(2) [unfolded mounted_def]] conjunct2 [OF F(2) [unfolded mounted_def]]
  obtain r1 r2 where a: "memory_alloc 128 (memory_init r) = Some (1048588, r1)" "memory_alloc 256 r1 = Some (1048728, r2)"
      and h: "heap_ok r2 [(128, False), (256, False), (1048156, True)]" "same_on 0 HEAP_LO r r2"
    using boot_heap [of r] by blast
  let ?c = "(proc k)\<lparr>cpu_cr3 := cr3 p, iflag := True\<rparr>"
  obtain s r3 where t: "tasking_init (tasks k) ?c r2 = Some (s, ?c\<lparr>iflag := True\<rparr>, r3)"
      "sched_rel boot_blocks [\<lparr>t_tcb = 1048996, t_lo = lo, t_hi = hi, t_ctx = x\<rparr>] 0 s (?c\<lparr>iflag := True\<rparr>) r3"
    using tasking_init_rel [OF h(1) stack boot_fits(3), of "tasks k" ?c x] by blast
  have "same_on 0 HEAP_LO r2 r3"
    using tasking_init_rel [OF h(1) _ _ boot_fits(3), of 0 HEAP_LO "tasks k" ?c x] t(1) by auto
  with h(2) have low: "same_on 0 HEAP_LO r r3" using same_on_trans by blast
  show ?thesis
    using low t(2)
    by (simp add: kernel_main_def g v pr d1(1) D F a t(1) msay_text Let_def set_dev_def set_screen_def)
qed

end

text \<open>The frame of \<^verbatim>\<open>iret\<close> goes to the 20 bytes from \<open>b\<close> on.\<close>

lemma switch_to_user_effect:
  assumes "b + 20 \<le> 2 ^ 32" "esp c = of_nat (b + 20)"
  shows "\<exists>c' m'. switch_to_user_mode entry flags (c, m) = (0x1B, 0x23, c', m') \<and> eip c' = entry \<and> iflag c'
     \<and> (\<forall>lo hi. hi \<le> 2 ^ 32 \<longrightarrow> hi \<le> b \<or> b + 20 \<le> lo \<longrightarrow> same_on lo hi m m')"
proof -
  define m' where "m' = st32 (st32 (st32 (st32 (st32 m (of_nat (b + 16)) 0x23) (of_nat (b + 12)) (of_nat (b + 16)))
      (of_nat (b + 8)) (flags OR 0x200)) (of_nat (b + 4)) 0x1B) (of_nat b) entry"
  have adr: "(of_nat (b + 20) :: u32) - 4 = of_nat (b + 16)" "(of_nat (b + 16) :: u32) - 4 = of_nat (b + 12)"
    "(of_nat (b + 12) :: u32) - 4 = of_nat (b + 8)" "(of_nat (b + 8) :: u32) - 4 = of_nat (b + 4)"
    "(of_nat (b + 4) :: u32) - 4 = of_nat b" "(of_nat b :: u32) + 4 = of_nat (b + 4)"
    "(of_nat (b + 4) :: u32) + 4 = of_nat (b + 8)" "(of_nat (b + 8) :: u32) + 4 = of_nat (b + 12)"
    "(of_nat (b + 12) :: u32) + 4 = of_nat (b + 16)" "(of_nat (b + 16) :: u32) + 4 = of_nat (b + 20)"
    "(of_nat (b + 20) :: u32) - 8 = of_nat (b + 12)" "(of_nat (b + 20) :: u32) - 12 = of_nat (b + 8)"
    "(of_nat (b + 20) :: u32) - 16 = of_nat (b + 4)" "(of_nat (b + 20) :: u32) - 20 = of_nat b"
    "8 + (of_nat b :: u32) = of_nat (b + 8)" "12 + (of_nat b :: u32) = of_nat (b + 12)" "16 + (of_nat b :: u32) = of_nat (b + 16)"
    by simp_all
  have ld: "ld32 m' (of_nat b) = entry" "ld32 m' (of_nat (b + 4)) = 0x1B" "ld32 m' (of_nat (b + 8)) = flags OR 0x200"
    "ld32 m' (of_nat (b + 12)) = of_nat (b + 16)" "ld32 m' (of_nat (b + 16)) = 0x23"
    unfolding m'_def using assms(1) by (simp_all add: ld32_st32_other del: of_nat_add)
  have on: "(flags OR 0x200) AND 0x200 \<noteq> 0"
    using bit_iff_and_push_bit_not_eq_0 [of "flags OR 0x200" 9] by (simp add: push_bit_eq_mult bit_or_iff bit_numeral_rec)
  have so: "same_on lo hi m m'" if "hi \<le> 2 ^ 32" "hi \<le> b \<or> b + 20 \<le> lo" for lo hi
    unfolding m'_def using assms(1) that by (intro same_on_trans [OF _ st32_same_on] same_on_refl) auto
  let ?c = "c\<lparr>iflag := True, esp := of_nat (b + 16), eip := entry\<rparr>"
  have "switch_to_user_mode entry flags (c, m) = (0x1B, 0x23, ?c, m')"
    by (simp add: switch_to_user_mode_def push_def pop_def Let_def assms(2) adr ld on del: of_nat_add flip: m'_def)
  with so show ?thesis by simp
qed

lemma no_ring0_stack:
  assumes "\<And>va. mmu (pg (mach k)) m False True va = (if va < 0x400000 then Some va else None)" "esp0 (the_tss (segs k)) = 0"
  shows "enter_ring0 k m n = None"
proof -
  have "mmu (pg (mach k)) m False True (esp0 (the_tss (segs k)) - 4 * of_nat 1) = None" by (simp add: assms)
  moreover have "1 \<in> set [1..<7]" by simp
  ultimately show ?thesis unfolding enter_ring0_def list_all_iff by (metis (no_types, lifting))
qed

text \<open>A controller whose status never changes.\<close>

lemma wait_drq_Some:
  assumes "ata_wait_drq P d = Some d'"
  shows "\<exists>d. fst (p_inb P ATA_PORT_STATUS d) AND 0x08 \<noteq> 0"
proof -
  have "(\<lambda>(P, d) y. \<exists>d. fst (p_inb P ATA_PORT_STATUS d) AND 0x08 \<noteq> 0) (P, d) d'"
    using _ assms
  proof (rule ata_wait_drq.raw_induct)
    fix f P d y
    assume "\<And>d b y. f d b = Some y \<Longrightarrow> (\<lambda>(P, d) y. \<exists>d. fst (p_inb P ATA_PORT_STATUS d) AND 0x08 \<noteq> 0) (d, b) y"
      and "(if \<not> fst (p_inb P ATA_PORT_STATUS d) AND ATA_SR_DRQ \<noteq> 0 then f P (snd (p_inb P ATA_PORT_STATUS d))
            else Some (snd (p_inb P ATA_PORT_STATUS d))) = Some y"
    then show "(\<lambda>(P, d) y. \<exists>d. fst (p_inb P ATA_PORT_STATUS d) AND 0x08 \<noteq> 0) (P, d) y"
      by (cases "fst (p_inb P ATA_PORT_STATUS d) AND 0x08 = 0") (simp_all, blast)
  qed
  then show ?thesis by simp
qed

lemma stuck_mount:
  assumes "\<And>d. fst (p_inb P ATA_PORT_STATUS d) = st" "st AND 0x80 \<noteq> 0 \<or> st AND 0x08 = 0"
  shows "fat16_init (ata_io P) f = None"
proof -
  have "ata_read_sector P 0 b d = None" for b d
    using assms(2)
  proof
    assume "st AND 0x80 \<noteq> 0"
    then have "ata_wait_bsy P d = None" for d using wait_bsy_Some [of P d] assms(1) by (cases "ata_wait_bsy P d") auto
    then show ?thesis by (simp add: ata_read_sector_def ata_pio_setup_def)
  next
    assume "st AND 0x08 = 0"
    then have "ata_wait_drq P d = None" for d using wait_drq_Some [of P d] assms(1) by (cases "ata_wait_drq P d") auto
    then show ?thesis by (auto simp: ata_read_sector_def split: Option.bind_split)
  qed
  then show ?thesis by (simp add: fat16_init_def read_sec_def ata_io_def)
qed

section \<open>Properties\<close>


text \<open>
  (C6) The first instruction in ring 3 resets the machine. The entry leaves the processor in ring 3 at
  \<^verbatim>\<open>user_main\<close> with interrupts on, but no page has the user bit, so that the fetch faults;
  the frame of the page fault would go below the ring 0 stack pointer 0, to an address that is
  not mapped; and the double fault has no handler.
\<close>

theorem user_mode_resets:
  assumes "boot_device P rgs phase busy platter"
    and "busy (dev (fsys (mach k))) = 0" "ide_device.settled phase platter (dev (fsys (mach k)))"
      "0 < length (platter (dev (fsys (mach k))))"
    and "length (gdt_entries (segs k)) = 6" "length (idt (vectors k)) = 256"
    and raw: "raw_buffers (at_pd_raw im) (at_pt_raw im)" "unat (at_pd_raw im) + 8192 \<le> HEAP_LO" "unat (at_pt_raw im) + 8192 \<le> HEAP_LO"
    and sp: "20 \<le> unat (esp (proc k))" "\<forall>raw \<in> {at_pd_raw im, at_pt_raw im}.
      unat (esp (proc k)) \<le> unat raw \<or> unat raw + 8192 \<le> unat (esp (proc k)) - 20"
  shows "\<exists>k' ss c m. kernel_main P im k = Some k' \<and> switch_to_user_mode entry flags (proc k', ram (mach k')) = (0x1B, ss, c, m)
     \<and> eip c = entry \<and> iflag c \<and> ring3_fetch k' m entry = Resets"
proof -
  obtain k' r d where k': "kernel_main P im k = Some k'"
      "gdt_init (at_gdt im) (at_tss im) (segs k) = Some (segs k')"
      "paging_init (at_pd_raw im) (at_pt_raw im) (pg (mach k)) (ram (mach k)) = (pg (mach k'), r)"
      "same_on 0 HEAP_LO r (ram (mach k'))" "proc k' = (proc k)\<lparr>cpu_cr3 := cr3 (pg (mach k')), iflag := True\<rparr>"
    using boot_device.kernel_main_ok [OF assms(1-6), of 0 0 im] by blast
  define b where "b = unat (esp (proc k)) - 20"
  have b: "b + 20 \<le> 2 ^ 32" "esp (proc k') = of_nat (b + 20)"
    using sp(1) unat_lt2p_u32 [of "esp (proc k)"] by (simp_all add: b_def k'(5) of_nat_diff)
  obtain c m where sw: "switch_to_user_mode entry flags (proc k', ram (mach k')) = (0x1B, 0x23, c, m)" "eip c = entry" "iflag c"
      and so: "\<And>lo hi. hi \<le> 2 ^ 32 \<Longrightarrow> hi \<le> b \<or> b + 20 \<le> lo \<Longrightarrow> same_on lo hi (ram (mach k')) m"
    using switch_to_user_effect [OF b, of entry flags "ram (mach k')"] by blast
  have keep: "same_on (unat raw) (unat raw + 8192) r m" if "raw \<in> {at_pd_raw im, at_pt_raw im}" for raw
    using that raw sp b(1) by (intro same_on_trans [OF same_on_mono [OF k'(4)] so]) (auto simp: b_def HEAP_LO_def)
  have map: "mmu (pg (mach k')) m user wr va = (if va < 0x400000 \<and> \<not> user then Some va else None)" for user wr va
    using identity_map [OF raw(1) k'(3) keep keep] by simp
  have "esp0 (the_tss (segs k')) = 0"
    using gdt_segments [OF assms(5), of "at_gdt im" "at_tss im"] k'(2) by auto
  then have "enter_ring0 k' m n = None" for n by (intro no_ring0_stack) (simp_all add: map)
  then have "ring3_fetch k' m entry = Resets" by (simp add: ring3_fetch_def map)
  with k'(1) sw show ?thesis by blast
qed

text \<open>
  (C39) A controller whose status never leaves busy, or never requests data, hangs the boot: without a
  drive the presence test only prints a message, and mounting the volume then waits for ever.
\<close>

theorem boot_without_drive_hangs:
  assumes "\<And>d. fst (p_inb P ATA_PORT_STATUS d) = st" "st AND 0x80 \<noteq> 0 \<or> st AND 0x08 = 0"
    and "length (gdt_entries (segs k)) = 6" "length (idt (vectors k)) = 256"
  shows "kernel_main P im k = None"
proof -
  obtain g where g: "gdt_init (at_gdt im) (at_tss im) (segs k) = Some g" using gdt_segments [OF assms(3)] by blast
  obtain v where v: "idt_init P (stubs im) (at_idt im) (vectors k) (dev (fsys (mach k))) = Some (v, pic_remap P (dev (fsys (mach k))))"
    using idt_vectors [OF assms(4), of 0] by fastforce
  obtain p r where pr: "paging_init (at_pd_raw im) (at_pt_raw im) (pg (mach k)) (ram (mach k)) = (p, r)" by fastforce
  obtain t d where t: "timer_init P 100 (tmr (mach k)) (pic_remap P (dev (fsys (mach k)))) = Some (t, d)"
    by (simp add: timer_init_def Let_def)
  note hang = stuck_mount [of P st, OF assms(1,2)]
  show ?thesis
    by (simp add: kernel_main_def g v pr t hang msay_text Let_def set_dev_def set_screen_def split: Option.bind_split)
qed

section \<open>A machine\<close>

text \<open>The shipped disk on a drive, and the kernel before it runs.\<close>

definition boot_drive :: ide where
  "boot_drive = \<lparr>ide_regs = \<lambda>_. 0, ide_phase = Idle, ide_pending = 0, ide_platter = shipped_disk\<rparr>"

definition cold :: "'p \<Rightarrow> 'p kernel" where
  "cold d = \<lparr>mach = \<lparr>fsys = \<lparr>vars = small_vars, dev = d, scr = no_text\<rparr>, ram = \<lambda>_. 0,
        pg = \<lparr>page_directory = 0, first_page_table = 0, cr3 = 0, cr0 = 0x11\<rparr>, tmr = \<lparr>tick = 0, current_freq = 100\<rparr>,
        keys = \<lparr>key_buffer = replicate 256 0, buf_head = 0, buf_tail = 0, shift_held = False\<rparr>, pending = []\<rparr>,
     segs = \<lparr>gdt_entries = replicate 6 \<lparr>limit_low = 0, base_low = 0, base_middle = 0, access = 0, granularity = 0, base_high = 0\<rparr>,
        the_gdt_ptr = \<lparr>gdt_limit = 0, gdt_base = 0\<rparr>, the_tss = zero_tss\<rparr>,
     vectors = \<lparr>idt = replicate 256 (gate 0 0 0), idtp = \<lparr>idt_limit = 0, idt_base = 0\<rparr>\<rparr>,
     tasks = \<lparr>current_task = 0, ready_queue = 0, next_pid = 1\<rparr>,
     proc = \<lparr>esp = 0x90000, ebp = 0x90000, ebx = 0, esi = 0, edi = 0, eip = 0x1000, cpu_cr3 = 0, iflag = False\<rparr>\<rparr>"

definition linked :: image where
  "linked = \<lparr>at_gdt = 0x7000, at_tss = 0x7100, at_idt = 0x7200, at_pd_raw = 0x8000, at_pt_raw = 0xB000,
     stubs = \<lparr>isr_14 = 0x1100, isr_irq0 = 0x1200, isr_irq1 = 0x1300, isr_128 = 0x1400\<rparr>\<rparr>"

lemma cold_boot:
  "ide_pending (dev (fsys (mach (cold boot_drive)))) = 0" "ide.settled (dev (fsys (mach (cold boot_drive))))"
  "0 < length (ide_platter (dev (fsys (mach (cold boot_drive)))))" "length (gdt_entries (segs (cold d))) = 6"
  "length (idt (vectors (cold d))) = 256" "raw_buffers (at_pd_raw linked) (at_pt_raw linked)"
  "unat (at_pd_raw linked) + 8192 \<le> HEAP_LO" "unat (at_pt_raw linked) + 8192 \<le> HEAP_LO"
  using shipped_ok by (simp_all add: cold_def boot_drive_def linked_def ide.settled_def disk_ok_def raw_buffers_def HEAP_LO_def)

lemma cold_keys: "length (key_buffer (keys (mach (cold d)))) = 256"
  by (simp add: cold_def)


theorem user_mode_resets_witness:
  "\<exists>k' ss c m. kernel_main ide_ports linked (cold boot_drive) = Some k'
     \<and> switch_to_user_mode 0x2000 0x46 (proc k', ram (mach k')) = (0x1B, ss, c, m) \<and> ring3_fetch k' m 0x2000 = Resets"
proof -
  have "20 \<le> unat (esp (proc (cold boot_drive)))" "\<forall>raw \<in> {at_pd_raw linked, at_pt_raw linked}.
      unat (esp (proc (cold boot_drive))) \<le> unat raw \<or> unat raw + 8192 \<le> unat (esp (proc (cold boot_drive))) - 20"
    by (simp_all add: cold_def linked_def)
  from user_mode_resets [OF boot_ide.boot_device_axioms cold_boot this] show ?thesis by blast
qed

theorem boot_without_drive_hangs_witness:
  "kernel_main \<lparr>p_inb = \<lambda>_ d. (0, d), p_outb = \<lambda>_ _ d. d, p_inw = \<lambda>_ d. (0, d), p_outw = \<lambda>_ _ d. d\<rparr> linked (cold ()) = None"
  by (rule boot_without_drive_hangs [where st = 0]) (simp_all add: cold_boot)

end
