(* ===== verification/Bh_FatHistory.thy ===== *)
theory Bh_FatHistory
  imports Bh_FatSafe
begin

text \<open>
  Whole histories of file operations. \<open>file_history\<close> runs a list of calls, as the shell makes
  them one after the other; \<open>file_step\<close> is the abstract file system as a transition relation on a map
  and a number of free clusters, in which a write may be refused only when the
  disk or the directory is full; \<open>spec_run\<close> is the map alone, where nothing is ever refused. Every
  history of calls follows the transitions, and every history that fits the disk is \<open>spec_run\<close>.
\<close>

section \<open>Calls and histories\<close>

datatype file_op =
    Write_file bytes bytes u32
  | Read_file bytes bytes u32
  | Delete_file bytes

text \<open>A call gives its return value and, for a read, what is then in the caller's buffer.\<close>

fun file_do :: "'d sector_io \<Rightarrow> file_op \<Rightarrow> 'd fs \<Rightarrow> ((int \<times> bytes) \<times> 'd fs) option" where
  "file_do io (Write_file name data sz) st = do { (r, st1) \<leftarrow> fat16_write_file io name data sz st; Some ((r, []), st1) }"
| "file_do io (Read_file name buf bsz) st = fat16_read_file io name buf bsz st"
| "file_do io (Delete_file name) st = do { (r, st1) \<leftarrow> fat16_delete_file io name st; Some ((r, []), st1) }"

fun file_history :: "'d sector_io \<Rightarrow> file_op list \<Rightarrow> 'd fs \<Rightarrow> ((int \<times> bytes) list \<times> 'd fs) option" where
  "file_history io [] st = Some ([], st)"
| "file_history io (op # ops) st = do {
     (r, st1) \<leftarrow> file_do io op st;
     (rs, st2) \<leftarrow> file_history io ops st1;
     Some (r # rs, st2) }"

text \<open>The 8.3 name a C string stands for, and what a caller has to respect.\<close>

definition file_key :: "bytes \<Rightarrow> bytes" where
  "file_key name = fat83 (takeWhile (\<lambda>c. c \<noteq> 0) name)"

fun call_ok :: "fat_vars \<Rightarrow> file_op \<Rightarrow> bool" where
  "call_ok g (Write_file name data sz) \<longleftrightarrow> 0 \<in> set name \<and> file_key name ! 0 \<noteq> 0xE5
     \<and> unat sz \<le> length data \<and> unat sz + 512 * unat (sectors_per_cluster g) < 2 ^ 32"
| "call_ok g (Read_file name buf bsz) \<longleftrightarrow> 0 \<in> set name \<and> unat bsz \<le> length buf"
| "call_ok g (Delete_file name) \<longleftrightarrow> 0 \<in> set name"

lemma str_at_key: "0 \<in> set name \<Longrightarrow> str_at name 0 (takeWhile (\<lambda>c. c \<noteq> 0) name)"
proof -
  assume "0 \<in> set name"
  then obtain xs ys where n: "name = xs @ 0 # ys" "0 \<notin> set xs" by (auto dest: split_list_first)
  have "takeWhile (\<lambda>c. c \<noteq> 0) name = xs" unfolding n(1) by (subst takeWhile_append2) (use n(2) in auto)
  with str_at_0 [OF n(2)] n(1) show "str_at name 0 (takeWhile (\<lambda>c. c \<noteq> 0) name)" by simp
qed

section \<open>The abstract file system\<close>

text \<open>The map alone: every call succeeds.\<close>

fun spec_do :: "file_op \<Rightarrow> (bytes \<Rightarrow> bytes option) \<Rightarrow> (int \<times> bytes) \<times> (bytes \<Rightarrow> bytes option)" where
  "spec_do (Write_file name data sz) M = ((0, []), M(file_key name \<mapsto> take (unat sz) data))"
| "spec_do (Read_file name buf bsz) M =
     (case M (file_key name) of None \<Rightarrow> (- 1, buf) | Some data \<Rightarrow> fetched data bsz buf, M)"
| "spec_do (Delete_file name) M = ((if M (file_key name) = None then - 1 else 0, []), M(file_key name := None))"

fun spec_run :: "file_op list \<Rightarrow> (bytes \<Rightarrow> bytes option) \<Rightarrow> (int \<times> bytes) list \<times> (bytes \<Rightarrow> bytes option)" where
  "spec_run [] M = ([], M)"
| "spec_run (op # ops) M = (let (r, M1) = spec_do op M; (rs, M2) = spec_run ops M1 in (r # rs, M2))"

text \<open>
  With the space: \<open>n\<close> clusters are free. A write that is refused loses the old file of that name; how
  many clusters are free then is left open, because the code does not give back those it took.
\<close>

inductive file_step :: "fat_vars \<Rightarrow> (bytes \<Rightarrow> bytes option) \<times> nat \<Rightarrow> file_op \<Rightarrow> int \<times> bytes \<Rightarrow>
    (bytes \<Rightarrow> bytes option) \<times> nat \<Rightarrow> bool" for g where
  done_as_asked: "file_step g (M, n) op r (M', n')"
    if "spec_do op M = (r, M')"
      "case op of Write_file _ _ sz \<Rightarrow> n \<le> n' + clusters_for g (unat sz) | Read_file _ _ _ \<Rightarrow> n' = n
        | Delete_file name \<Rightarrow> (if M (file_key name) = None then n' = n else n < n')"
| refused: "file_step g (M, n) (Write_file name data sz) (- 1, []) (M(file_key name := None), n')"
    if "n < clusters_for g (unat sz) \<or> M (file_key name) = None \<and> card (dom M) = slots g"

inductive file_run :: "fat_vars \<Rightarrow> (bytes \<Rightarrow> bytes option) \<times> nat \<Rightarrow> file_op list \<Rightarrow> (int \<times> bytes) list \<Rightarrow>
    (bytes \<Rightarrow> bytes option) \<times> nat \<Rightarrow> bool" for g where
  run_nil: "file_run g a [] [] a"
| run_cons: "file_run g a (op # ops) (r # rs) a''" if "file_step g a op r a'" "file_run g a' ops rs a''"

inductive_simps file_step_simps [simp]:
  "file_step g a (Write_file name data sz) r a'"
  "file_step g a (Read_file name buf bsz) r a'"
  "file_step g a (Delete_file name) r a'"

inductive_simps file_run_simps [simp]:
  "file_run g a [] rs a'"
  "file_run g a (op # ops) rs a'"

text \<open>The space a history asks for: clusters, and names to keep in the directory.\<close>

fun needs :: "fat_vars \<Rightarrow> file_op \<Rightarrow> nat" where
  "needs g (Write_file _ _ sz) = clusters_for g (unat sz)"
| "needs g _ = 0"

fun written :: "file_op \<Rightarrow> bytes set" where
  "written (Write_file name _ _) = {file_key name}"
| "written _ = {}"

section \<open>Every call is a transition\<close>

lemma dir_full:
  assumes v: "volume g D F" and c: "contents F M" and full: "\<forall>k < slots g. F k \<noteq> None"
  shows "card (dom M) = slots g"
proof -
  let ?nm = "\<lambda>k. fst (the (F k))"
  have "dom M = ?nm ` {..<slots g}"
  proof (rule set_eqI)
    fix nm show "nm \<in> dom M \<longleftrightarrow> nm \<in> ?nm ` {..<slots g}"
    proof
      assume "nm \<in> dom M"
      then obtain data k cs where "F k = Some (nm, data, cs)" using c unfolding contents_def by (metis domD)
      then show "nm \<in> ?nm ` {..<slots g}" using volumeD(2) [OF v, of k] by force
    next
      assume "nm \<in> ?nm ` {..<slots g}"
      then obtain k where "k < slots g" "nm = ?nm k" by auto
      moreover from this full obtain data cs where "F k = Some (nm, data, cs)" by (metis fst_conv option.sel option.exhaust surj_pair)
      ultimately show "nm \<in> dom M" using c unfolding contents_def by blast
    qed
  qed
  moreover have "inj_on ?nm {..<slots g}"
  proof (rule inj_onI)
    fix k k' assume k: "k \<in> {..<slots g}" "k' \<in> {..<slots g}" "?nm k = ?nm k'"
    then have "F k \<noteq> None" "F k' \<noteq> None" using full by simp_all
    then obtain x x' where x: "F k = Some x" "F k' = Some x'" by blast
    show "k = k'"
      using volumeD(6) [OF v, of k "fst x" "fst (snd x)" "snd (snd x)" k' "fst x'" "fst (snd x')" "snd (snd x')"] x k(3)
      by auto
  qed
  ultimately show ?thesis by (simp add: card_image)
qed

lemma represents_finite: "represents g D M \<Longrightarrow> finite (dom M)"
proof -
  assume "represents g D M"
  then obtain F where v: "volume g D F" and c: "contents F M" by (auto simp: represents_def)
  have "dom M \<subseteq> (\<lambda>k. fst (the (F k))) ` {..<slots g}"
  proof
    fix nm assume "nm \<in> dom M"
    then obtain data k cs where "F k = Some (nm, data, cs)" using c unfolding contents_def by (metis domD)
    then show "nm \<in> (\<lambda>k. fst (the (F k))) ` {..<slots g}" using volumeD(2) [OF v, of k] by force
  qed
  then show "finite (dom M)" by (rule finite_subset) simp
qed

text \<open>The number of free clusters.\<close>

definition free_count :: "fat_vars \<Rightarrow> bytes list \<Rightarrow> nat" where
  "free_count g D = length (free_clusters g D)"

lemma free_count_card: "free_count g D = card (set (free_clusters g D))"
  by (simp add: free_count_def distinct_card distinct_free)

lemma free_count_mono: "set (free_clusters g D) \<subseteq> set (free_clusters g D') \<Longrightarrow> free_count g D \<le> free_count g D'"
  by (simp add: free_count_card card_mono)

lemma free_count_more:
  "set (free_clusters g D') = set (free_clusters g D) \<union> cs \<Longrightarrow> cs \<inter> set (free_clusters g D) = {} \<Longrightarrow> cs \<noteq> {} \<Longrightarrow>
   free_count g D < free_count g D'"
  unfolding free_count_card by (rule psubset_card_mono) auto

lemma free_count_less:
  assumes "\<forall>c. unat c < 2048 \<and> c \<noteq> 0 \<and> c \<notin> set cs \<longrightarrow> fat_entry g D' 0 c = fat_entry g D 0 c" "length cs \<le> m"
  shows "free_count g D \<le> free_count g D' + m"
proof -
  have "set (free_clusters g D) \<subseteq> set (free_clusters g D') \<union> set cs"
    using assms(1) by (auto simp: free_clusters_mem)
  then have "free_count g D \<le> card (set (free_clusters g D') \<union> set cs)"
    unfolding free_count_card by (intro card_mono) simp_all
  also have "\<dots> \<le> free_count g D' + card (set cs)" unfolding free_count_card by (rule card_Un_le)
  also have "\<dots> \<le> free_count g D' + m" using card_length [of cs] assms(2) by simp
  finally show ?thesis .
qed

text \<open>All clusters the table can hand out lie on the disk.\<close>

lemma all_on_disk: "on_disk g D 2047 \<Longrightarrow> length D' = length D \<Longrightarrow> \<forall>c \<in> set (free_clusters g D'). on_disk g D' c"
proof
  fix c assume a: "on_disk g D 2047" "length D' = length D" "c \<in> set (free_clusters g D')"
  then have "on_disk g D' 2047" by (simp add: on_disk_def)
  moreover have "unat (2047 :: u16) = 2047" by simp
  ultimately show "on_disk g D' c" using a(3) by (intro on_disk_mono [of c 2047]) (auto simp: free_clusters_mem)
qed

lemma write_outcome:
  assumes rep: "represents (vars st) (dev st) M" and nm: "str_at name 0 s" "fat83 s ! 0 \<noteq> 0xE5"
    and sz: "unat sz \<le> length data" "unat sz + 512 * unat (sectors_per_cluster (vars st)) < 2 ^ 32"
    and all: "on_disk (vars st) (dev st) 2047"
  shows "\<exists>r D' w M'. fat16_write_file ram_io name data sz st = Some (r, st\<lparr>dev := D', scr := w\<rparr>)
     \<and> represents (vars st) D' M' \<and> length D' = length (dev st)
     \<and> (r = 0 \<and> M' = M(fat83 s \<mapsto> take (unat sz) data)
          \<and> free_count (vars st) (dev st) \<le> free_count (vars st) D' + clusters_for (vars st) (unat sz)
        \<or> r = - 1 \<and> M' = M(fat83 s := None)
          \<and> (free_count (vars st) (dev st) < clusters_for (vars st) (unat sz)
             \<or> M (fat83 s) = None \<and> card (dom M) = slots (vars st)))"
proof -
  let ?g = "vars st" and ?m = "clusters_for (vars st) (unat sz)"
  obtain D1 F1 cs where del: "fat16_delete_file ram_io name st = Some (if M (fat83 s) = None then - 1 else 0, st\<lparr>dev := D1\<rparr>)"
    and v1: "volume ?g D1 F1" and c1: "contents F1 (M(fat83 s := None))" and l1: "length D1 = length (dev st)"
    and e1: "set (free_clusters ?g D1) = set (free_clusters ?g (dev st)) \<union> cs"
    and s1: "M (fat83 s) \<noteq> None \<Longrightarrow> \<exists>k < slots ?g. F1 k = None"
    using delete_any [OF rep nm(1)] by metis
  have v1': "volume ?g (dev (st\<lparr>dev := D1\<rparr>)) F1" using v1 by simp
  have fc: "free_count ?g (dev st) \<le> free_count ?g D1" by (rule free_count_mono) (simp add: e1)
  have od: "\<forall>c \<in> set (free_clusters ?g D1). on_disk ?g D1 c" by (rule all_on_disk [OF all l1])
  show ?thesis
  proof (cases "free_count ?g D1 < ?m")
    case True
    then obtain D' w where w: "fat16_write_file ram_io name data sz st = Some (- 1, st\<lparr>dev := D', scr := w\<rparr>)"
        "volume ?g D' F1" "length D' = length D1"
      using write_full_volume [OF del _ v1' sz] od by (auto simp: free_count_def)
    have "represents ?g D' (M(fat83 s := None))" using w(2) c1 unfolding represents_def by blast
    with w True fc l1 show ?thesis
      by (intro exI [of _ "- 1 :: int"] exI [of _ D'] exI [of _ w] exI [of _ "M(fat83 s := None)"]) auto
  next
    case False
    then have m: "?m \<le> length (free_clusters ?g D1)" by (simp add: free_count_def)
    have od': "\<forall>c \<in> set (take ?m (free_clusters ?g D1)). on_disk ?g D1 c" using od by (auto dest: in_set_takeD)
    show ?thesis
    proof (cases "\<exists>k < slots ?g. F1 k = None")
      case True
      have new: "F1 k \<noteq> Some (fat83 s, data', cs)" for k data' cs by (rule contents_lookup [OF c1]) simp
      obtain D' k0 cs' where w: "fat16_write_file ram_io name data sz st = Some (0, st\<lparr>dev := D'\<rparr>)" "F1 k0 = None"
          "volume ?g D' (F1(k0 := Some (fat83 s, take (unat sz) data, cs')))" "length D' = length D1"
          "\<forall>c. unat c < 2048 \<and> c \<noteq> 0 \<and> c \<notin> set cs' \<longrightarrow> fat_entry ?g D' 0 c = fat_entry ?g D1 0 c" "length cs' \<le> ?m"
        using write_volume [OF del _ v1' nm new True sz] m od' by fastforce
      have "represents ?g D' (M(fat83 s \<mapsto> take (unat sz) data))"
        using contents_add [OF c1 _ w(2), of "fat83 s" "take (unat sz) data" cs'] w(3) unfolding represents_def by auto
      moreover have "free_count ?g (dev st) \<le> free_count ?g D' + ?m" using free_count_less [OF w(5,6)] fc by simp
      ultimately show ?thesis
        using w(1,4) l1 by (intro exI [of _ "0 :: int"] exI [of _ D'] exI [of _ "scr st"] exI [of _ "M(fat83 s \<mapsto> take (unat sz) data)"]) simp
    next
      case False
      then obtain D' w where w: "fat16_write_file ram_io name data sz st = Some (- 1, st\<lparr>dev := D', scr := w\<rparr>)"
          "volume ?g D' F1" "length D' = length D1"
        using write_no_slot_volume [OF del _ v1' nm(1) _ sz] m od' by auto
      have "M (fat83 s) = None" using s1 False by blast
      moreover from this have "card (dom M) = slots ?g" using dir_full [OF v1 c1] False by (simp add: fun_upd_idem)
      moreover have "represents ?g D' (M(fat83 s := None))" using w(2) c1 unfolding represents_def by blast
      ultimately show ?thesis
        using w l1 by (intro exI [of _ "- 1 :: int"] exI [of _ D'] exI [of _ w] exI [of _ "M(fat83 s := None)"]) auto
    qed
  qed
qed

lemma do_ram:
  assumes rep: "represents (vars st) (dev st) M" and ok: "call_ok (vars st) op" and all: "on_disk (vars st) (dev st) 2047"
  shows "\<exists>r D' w M'. file_do ram_io op st = Some (r, st\<lparr>dev := D', scr := w\<rparr>) \<and> represents (vars st) D' M'
     \<and> length D' = length (dev st)
     \<and> file_step (vars st) (M, free_count (vars st) (dev st)) op r (M', free_count (vars st) D')"
proof (cases op)
  case (Write_file name data sz)
  with ok have "str_at name 0 (takeWhile (\<lambda>c. c \<noteq> 0) name)" by (intro str_at_key) simp
  from write_outcome [OF rep this _ _ _ all, of sz data] ok Write_file obtain r D' w M' where
    "fat16_write_file ram_io name data sz st = Some (r, st\<lparr>dev := D', scr := w\<rparr>)" "represents (vars st) D' M'"
    "length D' = length (dev st)"
    "r = 0 \<and> M' = M(file_key name \<mapsto> take (unat sz) data)
          \<and> free_count (vars st) (dev st) \<le> free_count (vars st) D' + clusters_for (vars st) (unat sz)
        \<or> r = - 1 \<and> M' = M(file_key name := None)
          \<and> (free_count (vars st) (dev st) < clusters_for (vars st) (unat sz)
             \<or> M (file_key name) = None \<and> card (dom M) = slots (vars st))"
    by (auto simp: file_key_def)
  with Write_file show ?thesis
    by (intro exI [of _ "(r, [])"] exI [of _ D'] exI [of _ w] exI [of _ M']) auto
next
  case (Read_file name buf bsz)
  with ok have "str_at name 0 (takeWhile (\<lambda>c. c \<noteq> 0) name)" by (intro str_at_key) simp
  from read_is_prefix [OF rep this, of bsz buf] ok Read_file rep show ?thesis
    by (intro exI [of _ "case M (file_key name) of None \<Rightarrow> (- 1, buf) | Some data \<Rightarrow> fetched data bsz buf"]
        exI [of _ "dev st"] exI [of _ "scr st"] exI [of _ M]) (auto simp: file_key_def split: option.splits)
next
  case (Delete_file name)
  with ok have nm: "str_at name 0 (takeWhile (\<lambda>c. c \<noteq> 0) name)" by (intro str_at_key) simp
  obtain D1 F1 cs where "fat16_delete_file ram_io name st = Some (if M (file_key name) = None then - 1 else 0, st\<lparr>dev := D1\<rparr>)"
    "volume (vars st) D1 F1" "contents F1 (M(file_key name := None))" "length D1 = length (dev st)"
    "M (file_key name) = None \<longleftrightarrow> cs = {}" "cs \<inter> set (free_clusters (vars st) (dev st)) = {}"
    "set (free_clusters (vars st) D1) = set (free_clusters (vars st) (dev st)) \<union> cs"
    unfolding file_key_def by (rule delete_any [OF rep nm])
  moreover from this have "if M (file_key name) = None then free_count (vars st) D1 = free_count (vars st) (dev st)
      else free_count (vars st) (dev st) < free_count (vars st) D1"
    using free_count_more [of "vars st" D1 "dev st" cs] by (auto simp: free_count_card)
  ultimately show ?thesis
    using Delete_file unfolding represents_def
    by (intro exI [of _ "(if M (file_key name) = None then - 1 else 0, [])"] exI [of _ D1] exI [of _ "scr st"]
        exI [of _ "M(file_key name := None)"]) auto
qed

lemma history_ram:
  assumes "represents (vars st) (dev st) M" "\<forall>op \<in> set ops. call_ok (vars st) op" "on_disk (vars st) (dev st) 2047"
  shows "\<exists>rs D' w M'. file_history ram_io ops st = Some (rs, st\<lparr>dev := D', scr := w\<rparr>) \<and> represents (vars st) D' M'
     \<and> length D' = length (dev st)
     \<and> file_run (vars st) (M, free_count (vars st) (dev st)) ops rs (M', free_count (vars st) D')"
  using assms
proof (induction ops arbitrary: st M)
  case Nil
  then show ?case by (intro exI [of _ "[]"] exI [of _ "dev st"] exI [of _ "scr st"] exI [of _ M]) simp
next
  case (Cons op ops)
  then obtain r D1 w1 M1 where 1: "file_do ram_io op st = Some (r, st\<lparr>dev := D1, scr := w1\<rparr>)" "represents (vars st) D1 M1"
      "length D1 = length (dev st)" "file_step (vars st) (M, free_count (vars st) (dev st)) op r (M1, free_count (vars st) D1)"
    using do_ram [of st M op] by auto
  from Cons.IH [of "st\<lparr>dev := D1, scr := w1\<rparr>" M1] 1(2,3) Cons.prems(2,3) obtain rs D' w M' where
    "file_history ram_io ops (st\<lparr>dev := D1, scr := w1\<rparr>) = Some (rs, st\<lparr>dev := D', scr := w\<rparr>)" "represents (vars st) D' M'"
    "length D' = length (dev st)" "file_run (vars st) (M1, free_count (vars st) D1) ops rs (M', free_count (vars st) D')"
    by (auto simp: on_disk_def)
  moreover from this 1(4)
  have "file_run (vars st) (M, free_count (vars st) (dev st)) (op # ops) (r # rs) (M', free_count (vars st) D')"
    by (intro run_cons)
  ultimately show ?case
    using 1(1) by (intro exI [of _ "r # rs"] exI [of _ D'] exI [of _ w] exI [of _ M']) (simp only: file_history.simps, simp)
qed

section \<open>Histories that fit\<close>

text \<open>The clusters a write can get: free ones that lie on the disk.\<close>

definition disk_room :: "fat_vars \<Rightarrow> bytes list \<Rightarrow> nat" where
  "disk_room g D = card {c \<in> set (free_clusters g D). on_disk g D c}"

lemma room_of_disk_room:
  assumes "m \<le> disk_room g D"
  shows "room g D m"
proof -
  let ?fs = "free_clusters g D"
  have "disk_room g D \<le> card (set ?fs)" unfolding disk_room_def by (rule card_mono) auto
  then have m: "m \<le> length ?fs" using assms card_length [of ?fs] by simp
  have sorted: "sorted_wrt (\<lambda>x y. unat x \<le> unat y) ?fs"
    unfolding free_clusters_def by (rule sorted_wrt_filter) (rule sorted_scan)
  have "on_disk g D (?fs ! i)" if i: "i < m" for i
  proof (rule ccontr)
    assume off: "\<not> on_disk g D (?fs ! i)"
    have "{c \<in> set ?fs. on_disk g D c} \<subseteq> set (take i ?fs)"
    proof
      fix c assume "c \<in> {c \<in> set ?fs. on_disk g D c}"
      then obtain j where j: "j < length ?fs" "c = ?fs ! j" "on_disk g D (?fs ! j)" by (auto simp: in_set_conv_nth)
      have "j < i"
      proof (rule ccontr)
        assume "\<not> j < i"
        then have "unat (?fs ! i) \<le> unat (?fs ! j)"
          using sorted j(1) by (cases "i = j") (auto simp: sorted_wrt_iff_nth_less)
        moreover have "2 \<le> unat (?fs ! i)" using i m free_clusters_mem [of "?fs ! i" g D] by simp
        ultimately show False using on_disk_mono [OF _ _ j(3)] off by blast
      qed
      then show "c \<in> set (take i ?fs)" using j(1,2) by (auto simp: in_set_conv_nth intro!: exI [of _ j])
    qed
    then have "disk_room g D \<le> card (set (take i ?fs))" unfolding disk_room_def by (rule card_mono [rotated]) simp
    also have "\<dots> \<le> i" using card_length [of "take i ?fs"] by simp
    finally show False using assms i by simp
  qed
  then show ?thesis using m by (auto simp: room_def in_set_conv_nth)
qed

lemma disk_room_mono:
  "set (free_clusters g D) \<subseteq> set (free_clusters g D') \<Longrightarrow> length D' = length D \<Longrightarrow> disk_room g D \<le> disk_room g D'"
  unfolding disk_room_def by (rule card_mono) (auto simp: on_disk_def)

lemma disk_room_less:
  assumes "\<forall>c. unat c < 2048 \<and> c \<noteq> 0 \<and> c \<notin> set cs \<longrightarrow> fat_entry g D' 0 c = fat_entry g D 0 c" "length cs \<le> m"
    "length D' = length D"
  shows "disk_room g D \<le> disk_room g D' + m"
proof -
  have "{c \<in> set (free_clusters g D). on_disk g D c} \<subseteq> {c \<in> set (free_clusters g D'). on_disk g D' c} \<union> set cs"
    using assms(1,3) by (auto simp: free_clusters_mem on_disk_def)
  then have "disk_room g D \<le> card ({c \<in> set (free_clusters g D'). on_disk g D' c} \<union> set cs)"
    unfolding disk_room_def by (intro card_mono) simp_all
  also have "\<dots> \<le> disk_room g D' + card (set cs)" unfolding disk_room_def by (rule card_Un_le)
  also have "\<dots> \<le> disk_room g D' + m" using card_length [of cs] assms(2) by simp
  finally show ?thesis .
qed

lemma write_fits:
  assumes rep: "represents (vars st) (dev st) M" and nm: "str_at name 0 s" "fat83 s ! 0 \<noteq> 0xE5"
    and sz: "unat sz \<le> length data" "unat sz + 512 * unat (sectors_per_cluster (vars st)) < 2 ^ 32"
    and fits: "clusters_for (vars st) (unat sz) \<le> disk_room (vars st) (dev st)"
      "card (insert (fat83 s) (dom M)) \<le> slots (vars st)"
  shows "\<exists>D'. fat16_write_file ram_io name data sz st = Some (0, st\<lparr>dev := D'\<rparr>)
     \<and> represents (vars st) D' (M(fat83 s \<mapsto> take (unat sz) data)) \<and> length D' = length (dev st)
     \<and> disk_room (vars st) (dev st) \<le> disk_room (vars st) D' + clusters_for (vars st) (unat sz)"
proof -
  let ?g = "vars st" and ?m = "clusters_for (vars st) (unat sz)"
  obtain D1 F1 cs where del: "fat16_delete_file ram_io name st = Some (if M (fat83 s) = None then - 1 else 0, st\<lparr>dev := D1\<rparr>)"
    and v1: "volume ?g D1 F1" and c1: "contents F1 (M(fat83 s := None))" and l1: "length D1 = length (dev st)"
    and e1: "set (free_clusters ?g D1) = set (free_clusters ?g (dev st)) \<union> cs"
    and s1: "M (fat83 s) \<noteq> None \<Longrightarrow> \<exists>k < slots ?g. F1 k = None"
    using delete_any [OF rep nm(1)] by metis
  have dr: "disk_room ?g (dev st) \<le> disk_room ?g D1" by (rule disk_room_mono) (simp_all add: e1 l1)
  have room: "room ?g D1 ?m" using room_of_disk_room fits(1) dr by (meson order.trans)
  have "\<exists>k < slots ?g. F1 k = None"
  proof (rule ccontr)
    assume full: "\<not> (\<exists>k < slots ?g. F1 k = None)"
    with s1 have none: "M (fat83 s) = None" by blast
    with dir_full [OF v1 c1] full have "card (dom M) = slots ?g" by (simp add: fun_upd_idem)
    with fits(2) represents_finite [OF rep] none show False by (simp add: card_insert_if domIff)
  qed
  moreover have new: "F1 k \<noteq> Some (fat83 s, data', cs)" for k data' cs by (rule contents_lookup [OF c1]) simp
  ultimately obtain D' k0 cs' where w: "fat16_write_file ram_io name data sz st = Some (0, st\<lparr>dev := D'\<rparr>)" "F1 k0 = None"
      "volume ?g D' (F1(k0 := Some (fat83 s, take (unat sz) data, cs')))" "length D' = length D1"
      "\<forall>c. unat c < 2048 \<and> c \<noteq> 0 \<and> c \<notin> set cs' \<longrightarrow> fat_entry ?g D' 0 c = fat_entry ?g D1 0 c" "length cs' \<le> ?m"
    using write_volume [OF del _ _ nm, of ?g F1 sz data] v1 sz room by (fastforce simp: room_def)
  have "represents ?g D' (M(fat83 s \<mapsto> take (unat sz) data))"
    using contents_add [OF c1 _ w(2), of "fat83 s" "take (unat sz) data" cs'] w(3) unfolding represents_def by auto
  moreover have "disk_room ?g (dev st) \<le> disk_room ?g D' + ?m" using disk_room_less [OF w(5,6,4)] dr by simp
  ultimately show ?thesis using w(1,4) l1 by auto
qed

lemma do_fits:
  assumes rep: "represents (vars st) (dev st) M" and ok: "call_ok (vars st) op"
    and fits: "needs (vars st) op + k \<le> disk_room (vars st) (dev st)" "finite N" "card (dom M \<union> (written op \<union> N)) \<le> slots (vars st)"
  shows "\<exists>D'. file_do ram_io op st = Some (fst (spec_do op M), st\<lparr>dev := D'\<rparr>) \<and> represents (vars st) D' (snd (spec_do op M))
     \<and> k \<le> disk_room (vars st) D' \<and> card (dom (snd (spec_do op M)) \<union> N) \<le> slots (vars st)"
proof (cases op)
  case (Write_file name data sz)
  have "str_at name 0 (takeWhile (\<lambda>c. c \<noteq> 0) name)" using ok Write_file by (intro str_at_key) simp
  moreover have "card (insert (file_key name) (dom M)) \<le> card (dom M \<union> (written op \<union> N))"
    using fits(2) represents_finite [OF rep] Write_file by (intro card_mono) auto
  ultimately obtain D' where "fat16_write_file ram_io name data sz st = Some (0, st\<lparr>dev := D'\<rparr>)"
      "represents (vars st) D' (M(file_key name \<mapsto> take (unat sz) data))"
      "disk_room (vars st) (dev st) \<le> disk_room (vars st) D' + clusters_for (vars st) (unat sz)"
    using write_fits [OF rep, of name "takeWhile (\<lambda>c. c \<noteq> 0) name" sz data] ok Write_file fits(1,3) by (auto simp: file_key_def)
  with Write_file fits show ?thesis by (intro exI [of _ D']) (auto simp: Un_insert_right)
next
  case (Read_file name buf bsz)
  with ok have nm: "str_at name 0 (takeWhile (\<lambda>c. c \<noteq> 0) name)" by (intro str_at_key) simp
  have "min (length data) (unat bsz) \<le> length buf" for data :: bytes using ok Read_file by (simp add: min.coboundedI2)
  with read_is_prefix [OF rep nm, of bsz buf] Read_file rep fits show ?thesis
    by (intro exI [of _ "dev st"]) (auto simp: file_key_def)
next
  case (Delete_file name)
  with ok have nm: "str_at name 0 (takeWhile (\<lambda>c. c \<noteq> 0) name)" by (intro str_at_key) simp
  obtain D1 F1 cs where d: "fat16_delete_file ram_io name st = Some (if M (file_key name) = None then - 1 else 0, st\<lparr>dev := D1\<rparr>)"
    "volume (vars st) D1 F1" "contents F1 (M(file_key name := None))" "length D1 = length (dev st)"
    "set (free_clusters (vars st) D1) = set (free_clusters (vars st) (dev st)) \<union> cs"
    unfolding file_key_def by (rule delete_any [OF rep nm])
  have "disk_room (vars st) (dev st) \<le> disk_room (vars st) D1" by (rule disk_room_mono) (simp_all add: d(4,5))
  moreover have "card (dom (M(file_key name := None)) \<union> N) \<le> card (dom M \<union> N)"
    using fits(2) represents_finite [OF rep] by (intro card_mono) auto
  ultimately show ?thesis
    using Delete_file d(1-3) fits unfolding represents_def by (intro exI [of _ D1]) auto
qed

lemma history_fits:
  assumes "represents (vars st) (dev st) M" "\<forall>op \<in> set ops. call_ok (vars st) op"
    "sum_list (map (needs (vars st)) ops) \<le> disk_room (vars st) (dev st)"
    "card (dom M \<union> (\<Union>op \<in> set ops. written op)) \<le> slots (vars st)"
  shows "\<exists>D'. file_history ram_io ops st = Some (fst (spec_run ops M), st\<lparr>dev := D'\<rparr>)
     \<and> represents (vars st) D' (snd (spec_run ops M))"
  using assms
proof (induction ops arbitrary: st M)
  case Nil
  then show ?case by (intro exI [of _ "dev st"]) simp
next
  case (Cons op ops)
  have "finite (written x)" for x by (cases x) simp_all
  then have fin: "finite (\<Union>op \<in> set ops. written op)" by simp
  obtain r M1 where sp: "spec_do op M = (r, M1)" by (cases "spec_do op M")
  obtain rs M2 where sr: "spec_run ops M1 = (rs, M2)" by (cases "spec_run ops M1")
  obtain D1 where 1: "file_do ram_io op st = Some (r, st\<lparr>dev := D1\<rparr>)" "represents (vars st) D1 M1"
      "sum_list (map (needs (vars st)) ops) \<le> disk_room (vars st) D1"
      "card (dom M1 \<union> (\<Union>op \<in> set ops. written op)) \<le> slots (vars st)"
    using do_fits [OF Cons.prems(1) _ _ fin, of op "sum_list (map (needs (vars st)) ops)"] Cons.prems(2-4) sp by auto
  from Cons.IH [of "st\<lparr>dev := D1\<rparr>" M1] 1(2-4) Cons.prems(2) sr obtain D' where
    "file_history ram_io ops (st\<lparr>dev := D1\<rparr>) = Some (rs, st\<lparr>dev := D'\<rparr>)" "represents (vars st) D' M2" by auto
  with 1(1) sp sr show ?case by (intro exI [of _ D']) simp
qed

context sector_store
begin

lemma file_do_sim: "R s r \<Longrightarrow> sim R (file_do io op s) (file_do ram_io op r)"
  by (cases op) (simp_all add: read_file_sim, (rule sim_bind write_file_sim delete_file_sim | simp)+)

lemma file_history_sim: "R s r \<Longrightarrow> sim R (file_history io ops s) (file_history ram_io ops r)"
proof (induction ops arbitrary: s r)
  case (Cons op ops)
  show ?case
    unfolding file_history.simps
    by (rule sim_bind [OF file_do_sim [OF Cons.prems]], simp only: prod.case)
      (rule sim_bind [OF Cons.IH], assumption, simp)
qed simp

end

text \<open>On a drive.\<close>

lemma history_drive:
  assumes "ide_device P regs phase pending platter" "ide_device.settled phase platter (dev st)"
    and "represents (vars st) (platter (dev st)) M" "\<forall>op \<in> set ops. call_ok (vars st) op"
    and "on_disk (vars st) (platter (dev st)) 2047"
  shows "\<exists>rs st' M'. file_history (ata_io P) ops st = Some (rs, st') \<and> vars st' = vars st
     \<and> ide_device.settled phase platter (dev st') \<and> represents (vars st) (platter (dev st')) M'
     \<and> file_run (vars st) (M, free_count (vars st) (platter (dev st))) ops rs (M', free_count (vars st) (platter (dev st')))"
proof -
  let ?i = "ideal platter st"
  have R: "same_fs (ide_device.settled phase platter) platter st ?i" using assms(2) by (simp add: same_ideal)
  obtain rs D' w M' where h: "file_history ram_io ops ?i = Some (rs, ?i\<lparr>dev := D', scr := w\<rparr>)" "represents (vars st) D' M'"
      "file_run (vars st) (M, free_count (vars st) (platter (dev st))) ops rs (M', free_count (vars st) D')"
    using history_ram [of ?i M ops] assms(3-5) by auto
  obtain st' where "file_history (ata_io P) ops st = Some (rs, st')"
      "same_fs (ide_device.settled phase platter) platter st' (?i\<lparr>dev := D', scr := w\<rparr>)"
    by (rule simE [OF sector_store.file_history_sim [OF ide_device.ata_store [OF assms(1)] R] h(1)])
  with h(2,3) show ?thesis by (auto simp: same_fs_def)
qed

lemma fitting_history_drive:
  assumes "ide_device P regs phase pending platter" "ide_device.settled phase platter (dev st)"
    and "represents (vars st) (platter (dev st)) M" "\<forall>op \<in> set ops. call_ok (vars st) op"
    and "sum_list (map (needs (vars st)) ops) \<le> disk_room (vars st) (platter (dev st))"
    and "card (dom M \<union> (\<Union>op \<in> set ops. written op)) \<le> slots (vars st)"
  shows "\<exists>st'. file_history (ata_io P) ops st = Some (fst (spec_run ops M), st')
     \<and> vars st' = vars st \<and> scr st' = scr st \<and> ide_device.settled phase platter (dev st')
     \<and> represents (vars st) (platter (dev st')) (snd (spec_run ops M))"
proof -
  let ?i = "ideal platter st"
  have R: "same_fs (ide_device.settled phase platter) platter st ?i" using assms(2) by (simp add: same_ideal)
  obtain D' where h: "file_history ram_io ops ?i = Some (fst (spec_run ops M), ?i\<lparr>dev := D'\<rparr>)"
      "represents (vars st) D' (snd (spec_run ops M))"
    using history_fits [of ?i M ops] assms(3-6) by auto
  obtain st' where "file_history (ata_io P) ops st = Some (fst (spec_run ops M), st')"
      "same_fs (ide_device.settled phase platter) platter st' (?i\<lparr>dev := D'\<rparr>)"
    by (rule simE [OF sector_store.file_history_sim [OF ide_device.ata_store [OF assms(1)] R] h(1)])
  with h(2) show ?thesis by (auto simp: same_fs_def)
qed

section \<open>The properties\<close>



text \<open>On the freshly formatted drive: a file is written, read, deleted and missed.\<close>

definition some_calls :: "file_op list" where
  "some_calls = [Write_file (a_txt @ [0]) [1, 2, 3] 3, Read_file (a_txt @ [0]) [0, 0, 0, 9] 4,
     Delete_file (a_txt @ [0]), Read_file (a_txt @ [0]) [7] 1]"

lemma a_txt_key: "0 \<in> set (a_txt @ [0])" "file_key (a_txt @ [0]) ! 0 = 65"
proof -
  have "takeWhile (\<lambda>c. c \<noteq> 0) (a_txt @ [0]) = a_txt" by (simp add: a_txt_def ascii_def)
  then show "file_key (a_txt @ [0]) ! 0 = 65" by (simp add: file_key_def a_txt(3))
qed simp

lemma some_calls_ok: "\<forall>op \<in> set some_calls. call_ok small_vars op"
  using a_txt_key by (simp add: some_calls_def small_spc)

lemma small_all: "on_disk small_vars small_disk 2047"
  by (simp add: on_disk_def clba_def small_vars_def small_disk_def)

lemma small_count: "free_count small_vars small_disk = 2046"
  by (simp add: free_count_def small_free scan_from_def del: upt_rec_numeral)

lemma small_disk_room: "disk_room small_vars small_disk = 2046"
proof -
  have "{c \<in> set (free_clusters small_vars small_disk). on_disk small_vars small_disk c} = set (free_clusters small_vars small_disk)"
    using all_on_disk [OF small_all refl] by blast
  then show ?thesis using small_count by (simp add: disk_room_def free_count_card)
qed

lemma small_drive_sel: "vars small_drive_fs = small_vars" "dev small_drive_fs = small_drive"
  by (simp_all add: small_drive_fs_def)



end
