(* ===== verification/Bh_FatFrame.thy ===== *)
theory Bh_FatFrame
  imports Bh_FatSafe
begin

text \<open>
  What the file system leaves alone. Every sector in front of the first copy of the table (the reserved
  sectors, with the boot sector and its parameter block) survives every operation, whatever the
  rest of the disk holds: no sector number the driver computes for a write falls there or wraps around.
\<close>

section \<open>Results that keep a predicate\<close>

definition keeps :: "('s \<Rightarrow> bool) \<Rightarrow> ('x \<times> 's) option \<Rightarrow> bool" where
  "keeps J x \<longleftrightarrow> (\<forall>v s. x = Some (v, s) \<longrightarrow> J s)"

definition keeps0 :: "('s \<Rightarrow> bool) \<Rightarrow> 's option \<Rightarrow> bool" where
  "keeps0 J x \<longleftrightarrow> (\<forall>s. x = Some s \<longrightarrow> J s)"

lemma keeps_base [simp]: "keeps J None" "keeps0 J None" "keeps J (Some (v, s)) = J s" "keeps0 J (Some s) = J s"
  by (simp_all add: keeps_def keeps0_def)

lemma keeps_bind:
  "keeps J x \<Longrightarrow> (\<And>v s. x = Some (v, s) \<Longrightarrow> J s \<Longrightarrow> keeps J (f (v, s))) \<Longrightarrow> keeps J (x \<bind> f)"
  "keeps0 J x0 \<Longrightarrow> (\<And>s. x0 = Some s \<Longrightarrow> J s \<Longrightarrow> keeps J (f0 s)) \<Longrightarrow> keeps J (x0 \<bind> f0)"
  by (cases x; auto simp: keeps_def) (cases x0; auto simp: keeps0_def)

lemma keeps0_bind:
  "keeps J x \<Longrightarrow> (\<And>v s. x = Some (v, s) \<Longrightarrow> J s \<Longrightarrow> keeps0 J (f (v, s))) \<Longrightarrow> keeps0 J (x \<bind> f)"
  "keeps0 J x0 \<Longrightarrow> (\<And>s. x0 = Some s \<Longrightarrow> J s \<Longrightarrow> keeps0 J (f0 s)) \<Longrightarrow> keeps0 J (x0 \<bind> f0)"
  by (cases x; auto simp: keeps_def) (cases x0; auto simp: keeps0_def)

lemma keeps_pure:
  "(\<And>v. x = Some v \<Longrightarrow> keeps J (f v)) \<Longrightarrow> keeps J (x \<bind> f)"
  "(\<And>v. x = Some v \<Longrightarrow> keeps0 J (f0 v)) \<Longrightarrow> keeps0 J (x \<bind> f0)"
  by (cases x; simp)+

lemma keeps_if:
  "(c \<Longrightarrow> keeps J a) \<Longrightarrow> (\<not> c \<Longrightarrow> keeps J b) \<Longrightarrow> keeps J (if c then a else b)"
  "(c \<Longrightarrow> keeps0 J e) \<Longrightarrow> (\<not> c \<Longrightarrow> keeps0 J f) \<Longrightarrow> keeps0 J (if c then e else f)"
  by simp_all

lemma keeps_cases:
  "(\<And>a. z = Inl a \<Longrightarrow> keeps J (f1 a)) \<Longrightarrow> (\<And>b. z = Inr b \<Longrightarrow> keeps J (f2 b)) \<Longrightarrow>
   keeps J (case z of Inl a \<Rightarrow> f1 a | Inr b \<Rightarrow> f2 b)"
  "(y = None \<Longrightarrow> keeps J f3) \<Longrightarrow> (\<And>b. y = Some b \<Longrightarrow> keeps J (f4 b)) \<Longrightarrow>
   keeps J (case y of None \<Rightarrow> f3 | Some b \<Rightarrow> f4 b)"
  by (cases z; simp) (cases y; simp)

lemmas keeps_rules = keeps_bind keeps0_bind keeps_pure keeps_if keeps_cases

section \<open>Sector numbers that do not wrap around\<close>

lemma narrow: "unat (a :: u8) < 256" "unat (b :: u16) < 65536"
proof -
  show "unat a < 256" using unsigned_less [of a] by simp
  show "unat b < 65536" using unsigned_less [of b] by simp
qed

lemma widen: "unat (ucast (a :: u8) :: u32) = unat a" "unat (ucast (b :: u16) :: u32) = unat b"
  using narrow(1) [of a] narrow(2) [of b] by (simp_all add: unsigned_ucast_eq take_bit_nat_eq_self)

lemma unat_add32: "unat x + unat y < 2 ^ 32 \<Longrightarrow> unat (x + y :: u32) = unat x + unat y"
  by (simp add: unat_word_ariths)

lemma unat_mult32: "unat x * unat y < 2 ^ 32 \<Longrightarrow> unat (x * y :: u32) = unat x * unat y"
  by (simp add: unat_word_ariths)

locale geometry =
  fixes g :: fat_vars
  assumes fat_fits: "unat (fat_start_lba g) + unat (num_fats g) * unat (fat_size_sectors g) + 256 < 2 ^ 32"
    and root_above: "unat (fat_start_lba g) \<le> unat (root_dir_start_lba g)"
    and root_fits: "unat (root_dir_start_lba g) + unat (root_dir_sectors g) < 2 ^ 32"
    and data_above: "unat (fat_start_lba g) \<le> unat (data_start_lba g)"
    and data_fits: "unat (data_start_lba g) + 2 ^ 20 < 2 ^ 32"
begin

lemma fat_lba_above:
  assumes "f < unat (num_fats g)"
  shows "unat (fat_start_lba g) \<le> unat (fat_start_lba g + of_nat f * ucast (fat_size_sectors g) + ucast (c :: u16) * 2 div 512)"
proof -
  have f: "f * unat (fat_size_sectors g) \<le> unat (num_fats g) * unat (fat_size_sectors g)" using assms by (intro mult_right_mono) auto
  have fb: "f * unat (fat_size_sectors g) < 2 ^ 32" "unat (fat_start_lba g) + f * unat (fat_size_sectors g) + 256 < 2 ^ 32"
    using f fat_fits by linarith+
  have nf: "unat (num_fats g) < 256" by (rule narrow)
  have c: "unat c div 256 < 256" using narrow(2) [of c] by (simp add: less_mult_imp_div_less)
  then have o: "unat (ucast c * 2 div 512 :: u32) = unat c div 256"
    by (simp add: entry_address unat_of_nat take_bit_nat_eq_self)
  have "unat (of_nat f :: u32) = f" using assms nf by (simp add: unat_of_nat take_bit_nat_eq_self)
  then have p: "unat (of_nat f * ucast (fat_size_sectors g) :: u32) = f * unat (fat_size_sectors g)"
    using fb(1) by (subst unat_mult32) (simp_all add: widen)
  then have "unat (fat_start_lba g + of_nat f * ucast (fat_size_sectors g)) = unat (fat_start_lba g) + f * unat (fat_size_sectors g)"
    using fb(2) by (subst unat_add32) simp_all
  with fb(2) c show ?thesis by (subst unat_add32) (simp_all add: o)
qed

lemma root_lba_above: "s < root_dir_sectors g \<Longrightarrow> unat (fat_start_lba g) \<le> unat (root_dir_start_lba g + s)"
  using root_above root_fits by (simp add: unat_word_ariths word_less_nat_alt)

lemma cluster_lba_above:
  assumes "2 \<le> unat c" "unat c < 2048"
  shows "unat (fat_start_lba g) \<le> unat (cluster_to_lba g c) \<and> unat (cluster_to_lba g c) + 256 < 2 ^ 32"
proof -
  have s: "unat (sectors_per_cluster g) < 256" by (rule narrow)
  have "unat (ucast c - 2 :: u32) = unat c - 2" using assms by (subst unat_sub) (simp_all add: word_le_nat_alt widen)
  moreover have b: "(unat c - 2) * unat (sectors_per_cluster g) \<le> 2045 * 255" using assms s by (intro mult_mono) auto
  ultimately have "unat ((ucast c - 2) * ucast (sectors_per_cluster g) :: u32) = (unat c - 2) * unat (sectors_per_cluster g)"
    by (subst unat_mult32) (simp_all add: widen)
  with b data_above data_fits show ?thesis unfolding cluster_to_lba_def by (subst (1 2) unat_add32) simp_all
qed

end

text \<open>A cluster the allocator hands out is in the scanned range.\<close>

lemma alloc_range: "fat_alloc_loop io c s = Some (v, s') \<Longrightarrow> 2 \<le> c \<Longrightarrow> v \<noteq> 0 \<Longrightarrow> 2 \<le> unat v \<and> unat v < 2048"
proof (induction "2048 - c" arbitrary: c s rule: less_induct)
  case less
  show ?case
  proof (cases "c < 2048")
    case True
    then have u: "unat (of_nat c :: u16) = c" by (simp add: unat_of_nat take_bit_nat_eq_self)
    from less.prems(1) obtain e s1 where e: "fat_read_entry io (of_nat c) s = Some (e, s1)"
      "(if e = 0 then Some (of_nat c, s1) else fat_alloc_loop io (Suc c) s1) = Some (v, s')"
      using True by (subst (asm) fat_alloc_loop.simps) (auto split: option.splits)
    show ?thesis
    proof (cases "e = 0")
      case True
      with e(2) have "v = of_nat c" by simp
      with u less.prems(2) \<open>c < 2048\<close> show ?thesis by simp
    next
      case False
      with e(2) less.hyps [of "Suc c" s1] less.prems True show ?thesis by auto
    qed
  next
    case False
    with less.prems show ?thesis by (subst (asm) fat_alloc_loop.simps) simp
  qed
qed

section \<open>The reserved sectors\<close>

definition reserved_kept :: "fat_vars \<Rightarrow> bytes list \<Rightarrow> bytes list fs \<Rightarrow> bool" where
  "reserved_kept g Z st \<longleftrightarrow> vars st = g \<and> (\<forall>i < unat (fat_start_lba g). dev st ! i = Z ! i)"

context geometry
begin

abbreviation J where "J Z \<equiv> reserved_kept g Z"

lemma J_vars: "J Z st \<Longrightarrow> vars st = g"
  by (simp add: reserved_kept_def)

lemma read_sec_keeps: "J Z st \<Longrightarrow> keeps (J Z) (read_sec ram_io lba st)"
  by (auto simp: keeps_def read_sec_def ram_io_def reserved_kept_def)

lemma write_sec_keeps:
  "J Z st \<Longrightarrow> unat (fat_start_lba g) \<le> unat lba \<Longrightarrow> keeps0 (J Z) (write_sec ram_io lba b st)"
  by (auto simp: keeps0_def write_sec_def ram_io_def reserved_kept_def)

lemma say_keeps: "J Z st \<Longrightarrow> keeps0 (J Z) (say fmt args st)"
  by (auto simp: keeps0_def say_def reserved_kept_def split: Option.bind_splits)

lemmas rules = keeps_rules read_sec_keeps say_keeps

lemma fat_read_entry_keeps: "J Z st \<Longrightarrow> keeps (J Z) (fat_read_entry ram_io c st)"
  unfolding fat_read_entry_def Let_def by (assumption | rule rules | simp)+

lemma fat_write_loop_keeps:
  "J Z st \<Longrightarrow> f + n \<le> unat (num_fats g) \<Longrightarrow>
   keeps0 (J Z) (fat_write_loop ram_io n f (ucast (c :: u16) * 2 div 512) eo v st)"
proof (induction n arbitrary: f st)
  case (Suc n)
  have a: "unat (fat_start_lba g) \<le> unat (fat_start_lba g + of_nat f * ucast (fat_size_sectors g) + ucast c * 2 div 512)"
    using Suc.prems(2) by (intro fat_lba_above) simp
  have n: "Suc f + n \<le> unat (num_fats g)" using Suc.prems(2) by simp
  show ?case
    by (insert Suc.prems(1), frule J_vars, simp only: fat_write_loop.simps Let_def)
      (assumption | rule Suc.IH [OF _ n] | rule rules write_sec_keeps [OF _ a] | simp only: prod.case)+
qed simp

lemma fat_write_entry_keeps: "J Z st \<Longrightarrow> keeps0 (J Z) (fat_write_entry ram_io c v st)"
  unfolding fat_write_entry_def Let_def by (simp add: J_vars fat_write_loop_keeps)

lemma fat_alloc_loop_keeps: "J Z st \<Longrightarrow> keeps (J Z) (fat_alloc_loop ram_io c st)"
proof (induction "2048 - c" arbitrary: c st rule: less_induct)
  case less
  show ?case
  proof (cases "c < 2048")
    case True
    then have "2048 - Suc c < 2048 - c" by simp
    note IH = less.hyps [OF this]
    show ?thesis
      by (insert less.prems True, subst fat_alloc_loop.simps, simp only: case_bind if_True)
        (assumption | rule IH | rule rules fat_read_entry_keeps | simp only: prod.case keeps_base)+
  next
    case False
    with less.prems show ?thesis by (subst fat_alloc_loop.simps) simp
  qed
qed

lemma dir_entries_keeps:
  assumes "\<And>p acc st. J Z st \<Longrightarrow> keeps (J Z) (body sn sector p acc st)"
  shows "J Z st \<Longrightarrow> keeps (J Z) (dir_entries body sn sector i acc st)"
proof (induction "16 - i" arbitrary: i acc st rule: less_induct)
  case less
  show ?case
  proof (cases "i < 16")
    case True
    then have "16 - Suc i < 16 - i" by simp
    note IH = less.hyps [OF this]
    show ?thesis
      by (insert less.prems True, subst dir_entries.simps, simp only: case_bind if_True)
        (assumption | rule IH | rule rules assms | simp only: prod.case keeps_base)+
  next
    case False
    with less.prems show ?thesis by (subst dir_entries.simps) simp
  qed
qed

lemma dir_loop_keeps:
  assumes "\<And>sn sector p acc st. sn < n \<Longrightarrow> J Z st \<Longrightarrow> keeps (J Z) (body sn sector p acc st)"
  shows "J Z st \<Longrightarrow> keeps (J Z) (dir_loop ram_io body n sn acc st)"
proof (induction "unat n - unat sn" arbitrary: sn acc st rule: less_induct)
  case less
  show ?case
  proof (cases "sn < n")
    case True
    then have "unat n - unat (sn + 1) < unat n - unat sn" by (simp add: unat_inc word_less_nat_alt)
    note IH = less.hyps [OF this]
    show ?thesis
      by (insert less.prems True, subst dir_loop.simps, simp only: case_bind if_True)
        (assumption | rule IH | rule rules dir_entries_keeps assms | simp only: prod.case keeps_base)+
  next
    case False
    with less.prems show ?thesis by (subst dir_loop.simps) simp
  qed
qed

lemma dir_scan_keeps:
  assumes "\<And>sn sector p acc st. sn < root_dir_sectors g \<Longrightarrow> J Z st \<Longrightarrow> keeps (J Z) (body sn sector p acc st)"
  shows "J Z st \<Longrightarrow> keeps (J Z) (dir_scan ram_io body acc st)"
  unfolding dir_scan_def using dir_loop_keeps [OF assms] by (simp add: J_vars)

lemma write_cluster_keeps:
  assumes "unat (fat_start_lba g) \<le> unat lba" "unat lba + 256 < 2 ^ 32"
  shows "J Z st \<Longrightarrow> keeps0 (J Z) (write_cluster ram_io lba data sz off spc sec st)"
proof (induction "unat spc - unat sec" arbitrary: sec st rule: less_induct)
  case less
  have a: "unat (fat_start_lba g) \<le> unat (lba + ucast sec)"
    using assms narrow(1) [of sec] by (subst unat_add32) (simp_all add: widen)
  show ?case
  proof (cases "sec < spc")
    case True
    then have "unat spc - unat (sec + 1) < unat spc - unat sec" by (auto simp: unat_inc word_less_nat_alt)
    note IH = less.hyps [OF this]
    show ?thesis
      by (insert less.prems True, subst write_cluster.simps, simp only: case_bind Let_def if_True)
        (assumption | rule IH | rule rules write_sec_keeps [OF _ a] | simp only: prod.case)+
  next
    case False
    with less.prems show ?thesis by (subst write_cluster.simps) simp
  qed
qed

lemma write_clusters_keeps: "J Z st \<Longrightarrow> keeps (J Z) (write_clusters ram_io data sz cb nd c f p st)"
proof (induction "unat nd - unat c" arbitrary: c f p st rule: less_induct)
  case less
  show ?case
  proof (cases "c < nd")
    case True
    then have "unat nd - unat (c + 1) < unat nd - unat c" by (auto simp: unat_inc word_less_nat_alt)
    note IH = less.hyps [OF this]
    have opt: "keeps0 (J Z) (if b then fat_write_entry ram_io x y s else Some s)" if "J Z s" for b x y s
      using that by (simp add: fat_write_entry_keeps)
    have alloc: "keeps (J Z) (fat_alloc_cluster ram_io s)" if "J Z s" for s
      using that by (simp add: fat_alloc_cluster_def fat_alloc_loop_keeps)
    have wr: "keeps0 (J Z) (write_cluster ram_io (cluster_to_lba (vars s) cl) data sz off spc 0 s)"
      if "J Z s" "fat_alloc_cluster ram_io s0 = Some (cl, s1)" "cl \<noteq> 0" for s s0 s1 cl off spc
    proof -
      have "2 \<le> unat cl \<and> unat cl < 2048"
        using alloc_range [of ram_io 2 s0 cl s1] that(2,3) by (simp add: fat_alloc_cluster_def)
      then show ?thesis using cluster_lba_above write_cluster_keeps that(1) by (simp add: J_vars)
    qed
    show ?thesis
      by (insert less.prems True, subst write_clusters.simps, simp only: case_bind if_True)
        (assumption | rule IH opt alloc wr | rule rules fat_write_entry_keeps | simp only: prod.case keeps_base)+
  next
    case False
    with less.prems show ?thesis by (subst write_clusters.simps) simp
  qed
qed

lemma read_cluster_keeps: "J Z st \<Longrightarrow> keeps (J Z) (read_cluster ram_io lba fsz bsz spc sec br buf st)"
proof (induction "unat spc - unat sec" arbitrary: sec br buf st rule: less_induct)
  case less
  show ?case
  proof (cases "sec < spc \<and> br < fsz")
    case True
    then have "unat spc - unat (sec + 1) < unat spc - unat sec" by (auto simp: unat_inc word_less_nat_alt)
    note IH = less.hyps [OF this]
    show ?thesis
      by (insert less.prems True, subst read_cluster.simps, simp only: case_bind Let_def simp_thms if_True)
        (assumption | rule IH | rule rules | simp only: prod.case)+
  next
    case False
    with less.prems show ?thesis by (subst read_cluster.simps) (simp only: if_False keeps_base)
  qed
qed

text \<open>The two chain walks, by induction on the steps that lead to their result.\<close>

lemma read_chain_keeps: "J Z st \<Longrightarrow> keeps (J Z) (read_chain ram_io fsz bsz cl br buf st)"
proof -
  have "io = ram_io \<longrightarrow> J Z st \<longrightarrow> J Z (snd y)" if "read_chain io fsz bsz cl br buf st = Some y" for io y
    using _ that
  proof (rule read_chain.raw_induct [where P = "\<lambda>io fsz bsz cl br buf st y. io = ram_io \<longrightarrow> J Z st \<longrightarrow> J Z (snd y)"])
    fix f and io :: "bytes list sector_io" and fsz bsz cl br buf st y
    assume IH: "\<And>io fsz bsz cl br buf st y. f io fsz bsz cl br buf st = Some y \<Longrightarrow> io = ram_io \<longrightarrow> J Z st \<longrightarrow> J Z (snd y)"
      and eq: "(if 2 \<le> cl \<and> cl < 0xFFF8 \<and> br < fsz then do {
          ((br', buffer1), st1) \<leftarrow> read_cluster io (cluster_to_lba (vars st) cl) fsz bsz
              (sectors_per_cluster (vars st)) 0 br buf st;
          (next_cluster, st2) \<leftarrow> fat_read_entry io cl st1;
          f io fsz bsz next_cluster br' buffer1 st2 }
        else Some ((br, buf), st)) = Some y"
    have step: "keeps (J Z) (f ram_io fsz bsz cl br buf st)" if "J Z st" for cl br buf st
      using IH [of ram_io fsz bsz cl br buf st] that by (fastforce simp: keeps_def)
    have "keeps (J Z) (Some y)" if "io = ram_io" "J Z st"
      unfolding eq [symmetric] that(1)
      by (insert that(2)) (assumption | rule step rules read_cluster_keeps fat_read_entry_keeps
        | simp only: prod.case keeps_base case_prod_beta fst_conv snd_conv)+
    then show "io = ram_io \<longrightarrow> J Z st \<longrightarrow> J Z (snd y)" by (cases y) simp
  qed
  then show "J Z st \<Longrightarrow> ?thesis" by (auto simp: keeps_def)
qed

lemma delete_chain_keeps: "J Z st \<Longrightarrow> keeps0 (J Z) (delete_chain ram_io cl st)"
proof -
  have "io = ram_io \<longrightarrow> J Z st \<longrightarrow> J Z st'" if "delete_chain io cl st = Some st'" for io st'
    using _ that
  proof (rule delete_chain.raw_induct [where P = "\<lambda>io cl st st'. io = ram_io \<longrightarrow> J Z st \<longrightarrow> J Z st'"])
    fix f and io :: "bytes list sector_io" and cl st st'
    assume IH: "\<And>io cl st st'. f io cl st = Some st' \<Longrightarrow> io = ram_io \<longrightarrow> J Z st \<longrightarrow> J Z st'"
      and eq: "(if 2 \<le> cl \<and> cl < 0xFFF8 then do {
          (next_cluster, st1) \<leftarrow> fat_read_entry io cl st;
          st2 \<leftarrow> fat_write_entry io cl 0 st1;
          f io next_cluster st2 } else Some st) = Some st'"
    have step: "keeps0 (J Z) (f ram_io cl st)" if "J Z st" for cl st
      using IH [of ram_io cl st] that by (auto simp: keeps0_def)
    have "keeps0 (J Z) (Some st')" if "io = ram_io" "J Z st"
      unfolding eq [symmetric] that(1)
      by (insert that(2)) (assumption | rule step rules fat_read_entry_keeps fat_write_entry_keeps | simp only: prod.case keeps_base)+
    then show "io = ram_io \<longrightarrow> J Z st \<longrightarrow> J Z st'" by simp
  qed
  then show "J Z st \<Longrightarrow> ?thesis" by (auto simp: keeps0_def)
qed


text \<open>The public operations.\<close>

lemma read_file_keeps: "J Z st \<Longrightarrow> keeps (J Z) (fat16_read_file ram_io name buf bsz st)"
proof -
  have body: "keeps (J Z) (read_body ram_io name buf bsz sn sector p u st)" if "J Z st" for sn sector p u st
    by (insert that, unfold read_body_def)
      (assumption | rule rules read_chain_keeps | simp only: prod.case keeps_base case_prod_beta fst_conv snd_conv)+
  show "J Z st \<Longrightarrow> ?thesis"
    unfolding fat16_read_file_def by (assumption | rule rules dir_scan_keeps body | simp only: prod.case keeps_base)+
qed

lemma list_root_keeps: "J Z st \<Longrightarrow> keeps0 (J Z) (fat16_list_root ram_io a st)"
proof -
  have body: "keeps (J Z) (list_body a sn sector p n st)" if "J Z st" for sn sector p n st
    by (insert that, unfold list_body_def)
      (assumption | rule rules | simp only: prod.case keeps_base case_prod_beta fst_conv snd_conv)+
  show "J Z st \<Longrightarrow> ?thesis"
    unfolding fat16_list_root_def by (assumption | rule rules dir_scan_keeps body | simp only: prod.case keeps_base)+
qed

lemma delete_file_keeps: "J Z st \<Longrightarrow> keeps (J Z) (fat16_delete_file ram_io name st)"
proof -
  have body: "keeps (J Z) (delete_body ram_io name sn sector p u st)" if "sn < root_dir_sectors g" "J Z st" for sn sector p u st
  proof -
    have wr: "keeps0 (J Z) (write_sec ram_io (root_dir_start_lba (vars s) + sn) b s)" if "J Z s" for s b
      using that write_sec_keeps root_lba_above [OF \<open>sn < root_dir_sectors g\<close>] by (simp add: J_vars)
    show ?thesis
      by (insert that(2), unfold delete_body_def)
        (assumption | rule wr rules delete_chain_keeps | simp only: prod.case keeps_base)+
  qed
  show "J Z st \<Longrightarrow> ?thesis"
    unfolding fat16_delete_file_def by (assumption | rule rules dir_scan_keeps body | simp only: prod.case keeps_base)+
qed

lemma write_file_keeps: "J Z st \<Longrightarrow> keeps (J Z) (fat16_write_file ram_io name data sz st)"
proof -
  have body: "keeps (J Z) (write_body ram_io name fc sz sn sector p u st)"
    if "sn < root_dir_sectors g" "J Z st" for fc sn sector p u st
  proof -
    have wr: "keeps0 (J Z) (write_sec ram_io (root_dir_start_lba (vars s) + sn) b s)" if "J Z s" for s b
      using that write_sec_keeps root_lba_above [OF \<open>sn < root_dir_sectors g\<close>] by (simp add: J_vars)
    show ?thesis
      by (insert that(2), unfold write_body_def) (assumption | rule wr rules | simp only: prod.case keeps_base)+
  qed
  show "J Z st \<Longrightarrow> ?thesis"
    unfolding fat16_write_file_def Let_def
    by (assumption | rule rules dir_scan_keeps delete_file_keeps write_clusters_keeps body | simp only: prod.case keeps_base)+
qed

end

end
