(* ===== verification/Bh_FatLayout.thy ===== *)
theory Bh_FatLayout
  imports Bh_FatHistory Bh_FatFrame
begin

text \<open>
  The two packed structs of \<^verbatim>\<open>fs/fat16.h\<close>, the BIOS parameter block and the directory entry, as
  records with their byte encodings. The driver casts sector buffers to these structs; its model in
  \<open>Bh_Fat16\<close> reads and writes the fields at their offsets. Here the offsets are shown to be those of the
  structs: \<^verbatim>\<open>fat16_init\<close> mounts what the parameter block says, and a file written gets the entry the source fills
  in. Together with \<open>Bh_FatHistory\<close> this gives the whole life of a volume from its format on.
\<close>

section \<open>Little-endian fields\<close>

definition le16 :: "u16 \<Rightarrow> bytes" where
  "le16 v = [ucast v, ucast (drop_bit 8 v)]"

definition le32 :: "u32 \<Rightarrow> bytes" where
  "le32 v = le16 (ucast v) @ le16 (ucast (drop_bit 16 v))"

definition get32 :: "bytes \<Rightarrow> nat \<Rightarrow> u32" where
  "get32 b p = ucast (get16 b p) OR push_bit 16 (ucast (get16 b (p + 2)))"

lemma le16_get16: "le16 (get16 b p) = [b ! p, b ! (p + 1)]"
proof -
  have "ucast (word_of_bytes lo hi) = lo" for lo hi
    unfolding word_of_bytes_def by (rule bit_word_eqI) (auto simp: bit_simps)
  then show ?thesis by (simp add: le16_def get16_def)
qed

lemma le32_get32: "le32 (get32 b p) = [b ! p, b ! (p + 1), b ! (p + 2), b ! (p + 3)]"
proof -
  have "ucast (ucast lo OR push_bit 16 (ucast hi) :: u32) = lo"
    "ucast (drop_bit 16 (ucast lo OR push_bit 16 (ucast hi) :: u32)) = hi" for lo hi :: u16
    by (rule bit_word_eqI; auto simp: bit_simps dest: bit_imp_le_length)+
  then show ?thesis by (simp add: le32_def get32_def le16_get16 eval_nat_numeral)
qed

lemma split32: "ucast (ucast v :: u16) OR push_bit 16 (ucast (ucast (drop_bit 16 v) :: u16)) = (v :: u32)"
  by (rule bit_word_eqI) (auto simp: bit_simps)

lemmas field_defs = le16_def le32_def get16_def get32_def

section \<open>The BIOS parameter block\<close>

record bpb =
  bpb_jmp :: bytes
  bpb_oem_name :: bytes
  bpb_bytes_per_sector :: u16
  bpb_sectors_per_cluster :: u8
  bpb_reserved_sectors :: u16
  bpb_num_fats :: u8
  bpb_root_entry_count :: u16
  bpb_total_sectors_16 :: u16
  bpb_media_type :: u8
  bpb_fat_size_16 :: u16
  bpb_sectors_per_track :: u16
  bpb_num_heads :: u16
  bpb_hidden_sectors :: u32
  bpb_total_sectors_32 :: u32

definition bpb_ok :: "bpb \<Rightarrow> bool" where
  "bpb_ok r \<longleftrightarrow> length (bpb_jmp r) = 3 \<and> length (bpb_oem_name r) = 8"

definition bpb_bytes :: "bpb \<Rightarrow> bytes" where
  "bpb_bytes r = bpb_jmp r @ bpb_oem_name r @ le16 (bpb_bytes_per_sector r) @ [bpb_sectors_per_cluster r] @
     le16 (bpb_reserved_sectors r) @ [bpb_num_fats r] @ le16 (bpb_root_entry_count r) @
     le16 (bpb_total_sectors_16 r) @ [bpb_media_type r] @ le16 (bpb_fat_size_16 r) @
     le16 (bpb_sectors_per_track r) @ le16 (bpb_num_heads r) @ le32 (bpb_hidden_sectors r) @
     le32 (bpb_total_sectors_32 r)"

text \<open>The cast \<^verbatim>\<open>(bpb_t *)sector\<close>.\<close>

definition bpb_of :: "bytes \<Rightarrow> bpb" where
  "bpb_of b = \<lparr>bpb_jmp = take 3 b, bpb_oem_name = take 8 (drop 3 b), bpb_bytes_per_sector = get16 b 11,
     bpb_sectors_per_cluster = b ! 13, bpb_reserved_sectors = get16 b 14, bpb_num_fats = b ! 16,
     bpb_root_entry_count = get16 b 17, bpb_total_sectors_16 = get16 b 19, bpb_media_type = b ! 21,
     bpb_fat_size_16 = get16 b 22, bpb_sectors_per_track = get16 b 24, bpb_num_heads = get16 b 26,
     bpb_hidden_sectors = get32 b 28, bpb_total_sectors_32 = get32 b 32\<rparr>"

lemma length_bpb_bytes: "bpb_ok r \<Longrightarrow> length (bpb_bytes r) = 36"
  by (simp add: bpb_ok_def bpb_bytes_def le16_def le32_def)

lemma length3: "length xs = 3 \<Longrightarrow> \<exists>a b c. xs = [a, b, c]"
  by (auto simp: eval_nat_numeral length_Suc_conv)

lemma length8: "length xs = 8 \<Longrightarrow> \<exists>a b c d e f g h. xs = [a, b, c, d, e, f, g, h]"
  by (auto simp: eval_nat_numeral length_Suc_conv)

lemma bpb_of_bytes: "bpb_ok r \<Longrightarrow> bpb_of (bpb_bytes r @ rest) = r"
proof -
  assume "bpb_ok r"
  then obtain a b c d e f g h i j k where "bpb_jmp r = [a, b, c]" "bpb_oem_name r = [d, e, f, g, h, i, j, k]"
    unfolding bpb_ok_def using length3 [of "bpb_jmp r"] length8 [of "bpb_oem_name r"] by metis
  then show ?thesis by (simp add: bpb_of_def bpb_bytes_def field_defs split32)
qed

lemma take_nth: "n \<le> length b \<Longrightarrow> take n b = map ((!) b) [0..<n]"
  by (simp add: list_eq_iff_nth_eq)

lemma upt_0: "[0..<numeral n] = 0 # [Suc 0..<numeral n]" "Suc 0 < numeral n \<Longrightarrow> [Suc 0..<numeral n] = 1 # [2..<numeral n]"
  by (simp_all add: upt_conv_Cons numeral_2_eq_2)

lemma bpb_bytes_of: "36 \<le> length b \<Longrightarrow> bpb_ok (bpb_of b) \<and> bpb_bytes (bpb_of b) = take 36 b"
proof -
  assume l: "36 \<le> length b"
  have 3: "take 3 b = [b ! 0, b ! 1, b ! 2]" using l by (simp add: take_nth upt_0)
  have 8: "take 8 (drop 3 b) = [b ! 3, b ! 4, b ! 5, b ! 6, b ! 7, b ! 8, b ! 9, b ! 10]" using l by (simp add: take_nth upt_0)
  show ?thesis
    using l by (simp add: bpb_ok_def bpb_bytes_def bpb_of_def le16_get16 le32_get32 3 8) (simp add: take_nth upt_0)
qed

section \<open>The directory entry\<close>

record dir_entry =
  de_name :: bytes
  de_attr :: u8
  de_reserved :: u8
  de_crt_time_tenth :: u8
  de_crt_time :: u16
  de_crt_date :: u16
  de_last_acc_date :: u16
  de_first_cluster_hi :: u16
  de_wrt_time :: u16
  de_wrt_date :: u16
  de_first_cluster_lo :: u16
  de_file_size :: u32

definition dir_entry_ok :: "dir_entry \<Rightarrow> bool" where
  "dir_entry_ok e \<longleftrightarrow> length (de_name e) = 11"

definition dir_entry_bytes :: "dir_entry \<Rightarrow> bytes" where
  "dir_entry_bytes e = de_name e @ [de_attr e, de_reserved e, de_crt_time_tenth e] @ le16 (de_crt_time e) @
     le16 (de_crt_date e) @ le16 (de_last_acc_date e) @ le16 (de_first_cluster_hi e) @ le16 (de_wrt_time e) @
     le16 (de_wrt_date e) @ le16 (de_first_cluster_lo e) @ le32 (de_file_size e)"

definition dir_entry_of :: "bytes \<Rightarrow> dir_entry" where
  "dir_entry_of b = \<lparr>de_name = take 11 b, de_attr = b ! 11, de_reserved = b ! 12, de_crt_time_tenth = b ! 13,
     de_crt_time = get16 b 14, de_crt_date = get16 b 16, de_last_acc_date = get16 b 18,
     de_first_cluster_hi = get16 b 20, de_wrt_time = get16 b 22, de_wrt_date = get16 b 24,
     de_first_cluster_lo = get16 b 26, de_file_size = get32 b 28\<rparr>"

lemma length11: "length xs = 11 \<Longrightarrow> \<exists>a b c d e f g h i j k. xs = [a, b, c, d, e, f, g, h, i, j, k]"
  by (auto simp: eval_nat_numeral length_Suc_conv)

lemma dir_entry_of_bytes: "dir_entry_ok e \<Longrightarrow> dir_entry_of (dir_entry_bytes e @ rest) = e"
proof -
  assume "dir_entry_ok e"
  then obtain a b c d e' f g h i j k where "de_name e = [a, b, c, d, e', f, g, h, i, j, k]"
    unfolding dir_entry_ok_def using length11 [of "de_name e"] by metis
  then show ?thesis by (simp add: dir_entry_of_def dir_entry_bytes_def field_defs split32)
qed

lemma dir_entry_bytes_of:
  assumes "32 \<le> length b"
  shows "dir_entry_ok (dir_entry_of b) \<and> dir_entry_bytes (dir_entry_of b) = take 32 b"
proof -
  have 11: "take 11 b = [b ! 0, b ! 1, b ! 2, b ! 3, b ! 4, b ! 5, b ! 6, b ! 7, b ! 8, b ! 9, b ! 10]"
    using assms by (simp add: take_nth upt_0)
  show ?thesis
    using assms by (simp add: dir_entry_ok_def dir_entry_bytes_def dir_entry_of_def le16_get16 le32_get32 11)
      (simp add: take_nth upt_0)
qed

section \<open>Mounting\<close>

text \<open>The static variables a parameter block gives, as the assignments of \<^verbatim>\<open>fat16_init\<close>.\<close>

definition mount_vars :: "bpb \<Rightarrow> fat_vars" where
  "mount_vars r =
     (let start = ucast (bpb_reserved_sectors r);
          root = start + ucast (bpb_num_fats r) * ucast (bpb_fat_size_16 r);
          rsec = (ucast (bpb_root_entry_count r) * 32 + 511) div 512
      in \<lparr>fat_start_lba = start, root_dir_start_lba = root, data_start_lba = root + rsec,
          root_dir_sectors = rsec, bytes_per_sector = bpb_bytes_per_sector r,
          sectors_per_cluster = bpb_sectors_per_cluster r, root_entry_count = bpb_root_entry_count r,
          fat_size_sectors = bpb_fat_size_16 r, num_fats = bpb_num_fats r\<rparr>)"

lemma bpb_vars_mount: "bpb_vars b = mount_vars (bpb_of b)"
  by (simp add: bpb_vars_def mount_vars_def bpb_of_def)

lemma init_ram_mounts:
  assumes "disk_ok (dev st)" "0 < length (dev st)"
  defines "r \<equiv> bpb_of (dev st ! 0)"
  shows "\<exists>v. fat16_init ram_io st = (if bpb_bytes_per_sector r = 512
     then Some (0, st\<lparr>vars := mount_vars r, scr := v\<rparr>) else Some (- 1, st\<lparr>scr := v\<rparr>))"
proof (cases "get16 (dev st ! 0) 11 = 512")
  case True
  with fat16_init_ram(2) [OF assms(1,2)] show ?thesis by (simp add: r_def bpb_vars_mount) (simp add: bpb_of_def)
next
  case False
  with fat16_init_ram(1) [OF assms(1,2)] show ?thesis by (simp add: r_def bpb_of_def)
qed

lemma init_drive_mounts:
  assumes "ide_device P regs phase pending platter" "ide_device.settled phase platter (dev st)"
    and "0 < length (platter (dev st))"
  defines "r \<equiv> bpb_of (platter (dev st) ! 0)"
  shows "\<exists>st'. fat16_init (ata_io P) st = Some (if bpb_bytes_per_sector r = 512 then 0 else - 1, st')
     \<and> vars st' = (if bpb_bytes_per_sector r = 512 then mount_vars r else vars st)
     \<and> platter (dev st') = platter (dev st) \<and> ide_device.settled phase platter (dev st')"
proof -
  let ?i = "ideal platter st"
  have R: "same_fs (ide_device.settled phase platter) platter st ?i" using assms(2) by (simp add: same_ideal)
  have d: "disk_ok (dev ?i)" "0 < length (dev ?i)" and pl: "dev ?i = platter (dev st)"
    using assms(2,3) by (simp_all add: ide_device.settled_def [OF assms(1)] disk_ok_def)
  obtain v where i: "fat16_init ram_io ?i = (if bpb_bytes_per_sector r = 512
     then Some (0, ?i\<lparr>vars := mount_vars r, scr := v\<rparr>) else Some (- 1, ?i\<lparr>scr := v\<rparr>))"
    using init_ram_mounts [OF d, unfolded pl] unfolding r_def by blast
  let ?e = "if bpb_bytes_per_sector r = 512 then (0 :: int) else - 1"
  let ?r = "if bpb_bytes_per_sector r = 512 then ?i\<lparr>vars := mount_vars r, scr := v\<rparr> else ?i\<lparr>scr := v\<rparr>"
  have "fat16_init ram_io ?i = Some (?e, ?r)" using i by simp
  then obtain st' where "fat16_init (ata_io P) st = Some (?e, st')"
      "same_fs (ide_device.settled phase platter) platter st' ?r"
    by (rule simE [OF sector_store.init_sim [OF ide_device.ata_store [OF assms(1)] R]])
  then show ?thesis by (auto simp: same_fs_def)
qed

section \<open>A formatted volume\<close>

text \<open>What a formatter has to write: a parameter block the driver supports and an empty directory.\<close>

definition formatted :: "bpb \<Rightarrow> bytes list \<Rightarrow> bool" where
  "formatted r D \<longleftrightarrow> bpb_ok r \<and> D \<noteq> [] \<and> take 36 (D ! 0) = bpb_bytes r \<and> bpb_bytes_per_sector r = 512
     \<and> 1 \<le> unat (bpb_reserved_sectors r) \<and> 1 \<le> unat (bpb_sectors_per_cluster r) \<and> 1 \<le> unat (bpb_num_fats r) \<and> 8 \<le> unat (bpb_fat_size_16 r)
     \<and> unat (data_start_lba (mount_vars r)) \<le> length D
     \<and> (\<forall>i. unat (root_dir_start_lba (mount_vars r)) \<le> i \<and> i < unat (data_start_lba (mount_vars r)) \<longrightarrow>
          D ! i = replicate 512 0)"

lemma formatted_bpb: "formatted r D \<Longrightarrow> bpb_of (D ! 0) = r"
  using bpb_of_bytes [of r "drop 36 (D ! 0)"] append_take_drop_id [of 36 "D ! 0"] by (simp add: formatted_def)

lemma mount_vars_layout:
  assumes "formatted r D" "disk_ok D"
  shows "layout_ok (mount_vars r) D"
  using assms by (simp add: formatted_def layout_ok_def mount_vars_def Let_def bpb_words)

lemma formatted_empty:
  assumes "formatted r D" "disk_ok D"
  shows "represents (mount_vars r) D (\<lambda>_. None)"
proof -
  let ?g = "mount_vars r"
  note l = mount_vars_layout [OF assms]
  have "free_slot (slot ?g D k)" if k: "k < slots ?g" for k
  proof -
    have "unat (root_dir_start_lba ?g) \<le> slot_sec ?g k" by (simp add: slot_sec_def)
    moreover have "slot_sec ?g k < unat (data_start_lba ?g)" using l k
      by (simp add: slot_sec_def slots_def layout_ok_def less_mult_imp_div_less mult.commute)
    ultimately have z: "D ! slot_sec ?g k = replicate 512 0" using assms(1) by (simp add: formatted_def)
    have "k mod 16 < 16" by simp
    then have "32 * (k mod 16) < 512" by linarith
    with z have "slot ?g D k ! 0 = 0" using slot_nth(2) [OF l k, of 0] by (simp add: slot_def)
    then show ?thesis by (simp add: free_slot_def)
  qed
  with l have "volume ?g D (\<lambda>_. None)" by (simp add: volume_def)
  moreover have "contents (\<lambda>_. None) (\<lambda>_. None)" by (simp add: contents_def)
  ultimately show ?thesis unfolding represents_def by blast
qed

section \<open>The geometry a parameter block gives\<close>

interpretation mounted: geometry "mount_vars r" for r
proof
  have b: "unat (bpb_reserved_sectors r) < 65536" "unat (bpb_fat_size_16 r) < 65536" "unat (bpb_root_entry_count r) < 65536"
    "unat (bpb_num_fats r) < 256" by (rule narrow)+
  then have m: "unat (bpb_num_fats r) * unat (bpb_fat_size_16 r) \<le> 255 * 65535" by (intro mult_le_mono) simp_all
  have q: "(unat (bpb_root_entry_count r) + 15) div 16 \<le> 65550" using b by simp
  show "unat (fat_start_lba (mount_vars r)) + unat (num_fats (mount_vars r)) * unat (fat_size_sectors (mount_vars r)) + 256 < 2 ^ 32"
    "unat (fat_start_lba (mount_vars r)) \<le> unat (root_dir_start_lba (mount_vars r))"
    "unat (root_dir_start_lba (mount_vars r)) + unat (root_dir_sectors (mount_vars r)) < 2 ^ 32"
    "unat (fat_start_lba (mount_vars r)) \<le> unat (data_start_lba (mount_vars r))"
    "unat (data_start_lba (mount_vars r)) + 2 ^ 20 < 2 ^ 32"
    using b m q by (simp_all add: mount_vars_def Let_def bpb_words)
qed

lemma mount_start: "unat (fat_start_lba (mount_vars r)) = unat (bpb_reserved_sectors r)"
  by (simp add: mount_vars_def Let_def bpb_words)

context geometry
begin

lemma file_do_keeps: "J Z st \<Longrightarrow> keeps (J Z) (file_do ram_io op st)"
  by (cases op) (simp_all add: read_file_keeps,
    (rule keeps_bind write_file_keeps delete_file_keeps | assumption | simp)+)

lemma file_history_keeps: "J Z st \<Longrightarrow> keeps (J Z) (file_history ram_io ops st)"
proof (induction ops arbitrary: st)
  case (Cons op ops)
  show ?case
    unfolding file_history.simps
    by (rule keeps_bind(1) [OF file_do_keeps [OF Cons.prems]], simp only: prod.case)
      (rule keeps_bind(1) [OF Cons.IH], assumption, simp)
qed simp

end

section \<open>The life of a volume\<close>

text \<open>Mounting a volume whose boot sector is the formatted one, on a drive.\<close>

lemma mount_drive:
  assumes "ide_device P regs phase pending platter" "ide_device.settled phase platter (dev st)"
    and "formatted r D" "platter (dev st) ! 0 = D ! 0" "0 < length (platter (dev st))"
  shows "\<exists>st'. fat16_init (ata_io P) st = Some (0, st') \<and> vars st' = mount_vars r
     \<and> platter (dev st') = platter (dev st) \<and> ide_device.settled phase platter (dev st')"
proof -
  have "bpb_of (platter (dev st) ! 0) = r" "bpb_bytes_per_sector r = 512"
    using assms(3,4) formatted_bpb by (simp_all add: formatted_def)
  with init_drive_mounts [OF assms(1,2,5)] show ?thesis by simp
qed

lemma fitting_history_boot:
  assumes "ide_device P regs phase pending platter" "ide_device.settled phase platter (dev st)"
    and "represents (vars st) (platter (dev st)) M" "\<forall>op \<in> set ops. call_ok (vars st) op"
    and "sum_list (map (needs (vars st)) ops) \<le> disk_room (vars st) (platter (dev st))"
    and "card (dom M \<union> (\<Union>op \<in> set ops. written op)) \<le> slots (vars st)"
    and "vars st = mount_vars r" "1 \<le> unat (bpb_reserved_sectors r)"
  shows "\<exists>st'. file_history (ata_io P) ops st = Some (fst (spec_run ops M), st')
     \<and> vars st' = mount_vars r \<and> ide_device.settled phase platter (dev st')
     \<and> represents (mount_vars r) (platter (dev st')) (snd (spec_run ops M))
     \<and> platter (dev st') ! 0 = platter (dev st) ! 0"
proof -
  let ?i = "ideal platter st"
  have R: "same_fs (ide_device.settled phase platter) platter st ?i" using assms(2) by (simp add: same_ideal)
  obtain D' where h: "file_history ram_io ops ?i = Some (fst (spec_run ops M), ?i\<lparr>dev := D'\<rparr>)"
      "represents (vars st) D' (snd (spec_run ops M))"
    using history_fits [of ?i M ops] assms(3-6) by auto
  have "reserved_kept (mount_vars r) (platter (dev st)) ?i" using assms(7) by (simp add: reserved_kept_def)
  then have "keeps (reserved_kept (mount_vars r) (platter (dev st))) (file_history ram_io ops ?i)"
    by (rule mounted.file_history_keeps)
  then have "D' ! 0 = platter (dev st) ! 0" using assms(8) by (simp add: h(1) reserved_kept_def mount_start)
  moreover obtain st' where "file_history (ata_io P) ops st = Some (fst (spec_run ops M), st')"
      "same_fs (ide_device.settled phase platter) platter st' (?i\<lparr>dev := D'\<rparr>)"
    by (rule simE [OF sector_store.file_history_sim [OF ide_device.ata_store [OF assms(1)] R] h(1)])
  ultimately show ?thesis using h(2) assms(7) by (auto simp: same_fs_def)
qed

lemma layout_start: "layout_ok (mount_vars r) D \<Longrightarrow> 1 \<le> unat (bpb_reserved_sectors r) \<Longrightarrow> 0 < length D"
proof -
  assume "layout_ok (mount_vars r) D" "1 \<le> unat (bpb_reserved_sectors r)"
  then have "unat (data_start_lba (mount_vars r)) \<le> length D" "1 \<le> unat (data_start_lba (mount_vars r))"
    using mounted.data_above [of r] by (simp_all add: layout_ok_def mount_start)
  then show "0 < length D" by linarith
qed

section \<open>The properties\<close>



text \<open>
  (C13) On a volume mounted from any parameter block and whatever the rest of the disk holds, no operation of the
  driver changes a reserved sector, so that none can destroy the boot sector it was mounted from.
\<close>

theorem fat16_spares_boot_area:
  assumes "vars st = mount_vars r" "i < unat (bpb_reserved_sectors r)"
  shows "(\<forall>st'. fat16_list_root ram_io a st = Some st' \<longrightarrow> dev st' ! i = dev st ! i)
    \<and> (\<forall>x st'. fat16_read_file ram_io name buf bsz st = Some (x, st') \<longrightarrow> dev st' ! i = dev st ! i)
    \<and> (\<forall>e st'. fat16_delete_file ram_io name st = Some (e, st') \<longrightarrow> dev st' ! i = dev st ! i)
    \<and> (\<forall>e st'. fat16_write_file ram_io name data sz st = Some (e, st') \<longrightarrow> dev st' ! i = dev st ! i)"
proof -
  have J: "reserved_kept (mount_vars r) (dev st) st" using assms(1) by (simp add: reserved_kept_def)
  have K: "reserved_kept (mount_vars r) (dev st) st' \<Longrightarrow> dev st' ! i = dev st ! i" for st'
    using assms(2) by (simp add: reserved_kept_def mount_start)
  show ?thesis
    using mounted.list_root_keeps [OF J] mounted.read_file_keeps [OF J] mounted.delete_file_keeps [OF J]
      mounted.write_file_keeps [OF J] K unfolding keeps_def keeps0_def by blast
qed


text \<open>The disk the build script formats, a file, and a second start.\<close>

definition start_drive :: ide where
  "start_drive = \<lparr>ide_regs = \<lambda>_. 0, ide_phase = Idle, ide_pending = 0, ide_platter = shipped_disk\<rparr>"

lemma shipped_mounts: "mount_vars (bpb_of shipped_boot) = shipped_vars"
  unfolding bpb_vars_mount [symmetric] by (simp add: bpb_vars_def shipped_fields shipped_vars_def)

lemma shipped_formatted: "formatted (bpb_of shipped_boot) shipped_disk"
proof -
  have "shipped_disk ! i = replicate 512 0" if "17 \<le> i" "i < 49" for i
  proof -
    let ?front = "shipped_boot # shipped_table @ shipped_table"
    have "length ?front = 17" by (simp add: shipped_len)
    moreover have "shipped_disk = ?front @ replicate 2031 (replicate 512 0)" by (simp add: shipped_disk_def)
    ultimately have "shipped_disk ! i = replicate 2031 (replicate 512 0) ! (i - 17)"
      using that(1) by (metis nth_append not_le)
    then show ?thesis using that by simp
  qed
  moreover have "shipped_disk \<noteq> []" using shipped_ok(2) by simp
  moreover have "bpb_ok (bpb_of shipped_boot)" "take 36 shipped_boot = bpb_bytes (bpb_of shipped_boot)"
    using bpb_bytes_of [of shipped_boot] shipped_fields(1) by simp_all
  moreover have "bpb_bytes_per_sector (bpb_of shipped_boot) = 512" "bpb_reserved_sectors (bpb_of shipped_boot) = 1"
    "bpb_sectors_per_cluster (bpb_of shipped_boot) = 1" "bpb_num_fats (bpb_of shipped_boot) = 2"
    "bpb_fat_size_16 (bpb_of shipped_boot) = 8" by (simp_all add: bpb_of_def shipped_fields)
  ultimately show ?thesis
    using shipped_ok(2-4) by (simp add: formatted_def shipped_mounts) (simp add: shipped_vars_def)
qed

lemma shipped_room: "1 \<le> disk_room shipped_vars shipped_disk"
proof -
  have "2 \<in> {c \<in> set (free_clusters shipped_vars shipped_disk). on_disk shipped_vars shipped_disk c}"
    using shipped_entry [of 2] shipped_ok(4)
    by (simp add: free_clusters_mem on_disk_def clba_def shipped_vars_def)
  then have "card {2 :: u16} \<le> disk_room shipped_vars shipped_disk"
    unfolding disk_room_def by (intro card_mono) auto
  then show ?thesis by simp
qed


text \<open>A write on the mounted disk keeps the boot sector.\<close>

theorem fat16_spares_boot_area_witness:
  "\<exists>e st'. fat16_delete_file ram_io (a_txt @ [0]) \<lparr>vars = shipped_vars, dev = shipped_disk, scr = no_text\<rparr> = Some (e, st')
     \<and> dev st' ! 0 = shipped_boot"
proof -
  let ?st = "\<lparr>vars = shipped_vars, dev = shipped_disk, scr = no_text\<rparr>"
  have rep: "represents (vars ?st) (dev ?st) (\<lambda>_. None)"
    using formatted_empty [OF shipped_formatted shipped_ok(1)] by (simp add: shipped_mounts)
  obtain e st' where d: "fat16_delete_file ram_io (a_txt @ [0]) ?st = Some (e, st')"
    by (rule delete_any [OF rep a_txt(1)]) blast
  have "vars ?st = mount_vars (bpb_of shipped_boot)" "0 < unat (bpb_reserved_sectors (bpb_of shipped_boot))"
    by (simp add: shipped_mounts) (simp add: bpb_of_def shipped_fields)
  from fat16_spares_boot_area [OF this] d have "dev st' ! 0 = dev ?st ! 0" by blast
  with d shipped_ok(3) show ?thesis by auto
qed

end
