(* ===== verification/Bh_KeyRace.thy ===== *)
theory Bh_KeyRace
  imports Bh_Keyboard
begin

text \<open>
  \<^verbatim>\<open>keyboard_read\<close> and the keyboard interrupt at the grain of single memory accesses. The reader
  is not protected against interrupts: IRQ1 may run between any two of its accesses to the ring
  buffer, and it changes the buffer under the reader's hands. \<open>reader\<close> is the program point of the
  reader with the values it holds in registers, \<open>own_step\<close> executes its next access, and a history is a
  list of events in which interrupts come anywhere. It is shown that every interleaving has
  the effect of one atomic \<^const>\<open>buf_pop\<close> at some moment of the history, so that no key is lost or
  read twice; and that a key that arrives between the test for an empty buffer and the \<^verbatim>\<open>hlt\<close> leaves
  the reader asleep until the next interrupt. Handlers run with interrupts disabled and are single steps;
  the accesses of the reader are taken in the order of the source.
\<close>

section \<open>The reader, access by access\<close>

datatype reader =
    Test_tail                 \<comment> \<open>\<^verbatim>\<open>while (buf_empty())\<close>: load \<^verbatim>\<open>buf_tail\<close>\<close>
  | Test_head nat             \<comment> \<open>load \<^verbatim>\<open>buf_head\<close> and compare\<close>
  | Before_hlt                \<comment> \<open>the buffer was empty\<close>
  | Halted                    \<comment> \<open>in \<^verbatim>\<open>hlt\<close>, until an interrupt\<close>
  | Pop_tail                  \<comment> \<open>\<^verbatim>\<open>buf_pop\<close>: load \<^verbatim>\<open>buf_tail\<close>\<close>
  | Pop_head nat              \<comment> \<open>load \<^verbatim>\<open>buf_head\<close> and compare\<close>
  | Pop_load                  \<comment> \<open>\<^verbatim>\<open>c = key_buffer[buf_tail]\<close>\<close>
  | Pop_next u8               \<comment> \<open>load \<^verbatim>\<open>buf_tail\<close> and add one\<close>
  | Pop_store u8 nat          \<comment> \<open>store \<^verbatim>\<open>buf_tail\<close>\<close>
  | Done u8                   \<comment> \<open>returned\<close>

fun own_step :: "reader \<times> kbd \<Rightarrow> reader \<times> kbd" where
  "own_step (Test_tail, k) = (Test_head (buf_tail k), k)"
| "own_step (Test_head t, k) = (if t = buf_head k then Before_hlt else Pop_tail, k)"
| "own_step (Before_hlt, k) = (Halted, k)"
| "own_step (Halted, k) = (Halted, k)"
| "own_step (Pop_tail, k) = (Pop_head (buf_tail k), k)"
| "own_step (Pop_head t, k) = (if t = buf_head k then Done 0 else Pop_load, k)"
| "own_step (Pop_load, k) = (Pop_next (key_buffer k ! buf_tail k), k)"
| "own_step (Pop_next c, k) = (Pop_store c ((buf_tail k + 1) mod KEY_BUF_SIZE), k)"
| "own_step (Pop_store c n, k) = (Done c, k\<lparr>buf_tail := n\<rparr>)"
| "own_step (Done c, k) = (Done c, k)"

text \<open>An interrupt wakes a halted processor, which goes back to the test of the loop.\<close>

fun wake :: "reader \<Rightarrow> reader" where
  "wake Halted = Test_tail"
| "wake r = r"

datatype event = Own | Key_irq u8 | Tick_irq

fun exec_event :: "event \<Rightarrow> reader \<times> kbd \<Rightarrow> reader \<times> kbd" where
  "exec_event Own s = own_step s"
| "exec_event (Key_irq code) (r, k) = (wake r, keyboard_handle_scancode code k)"
| "exec_event Tick_irq (r, k) = (wake r, k)"

definition exec_events :: "event list \<Rightarrow> reader \<times> kbd \<Rightarrow> reader \<times> kbd" where
  "exec_events = fold exec_event"

lemma exec_events_simps [simp]:
  "exec_events [] s = s" "exec_events (e # es) s = exec_events es (exec_event e s)"
  "exec_events (es @ es') s = exec_events es' (exec_events es s)"
  by (simp_all add: exec_events_def)

text \<open>The keys of a history, handled without a reader.\<close>

fun key_codes :: "event list \<Rightarrow> u8 list" where
  "key_codes [] = []"
| "key_codes (Key_irq code # es) = code # key_codes es"
| "key_codes (_ # es) = key_codes es"

definition handle_all :: "u8 list \<Rightarrow> kbd \<Rightarrow> kbd" where
  "handle_all = fold keyboard_handle_scancode"

lemma handle_all_simps [simp]:
  "handle_all [] k = k" "handle_all (c # cs) k = handle_all cs (keyboard_handle_scancode c k)"
  "handle_all (cs @ cs') k = handle_all cs' (handle_all cs k)"
  by (simp_all add: handle_all_def)

lemma key_codes_append [simp]: "key_codes (es @ es') = key_codes es @ key_codes es'"
  by (induction es rule: key_codes.induct) simp_all

section \<open>What the interrupt handler leaves alone\<close>

lemma buf_push_reader:
  assumes "buf_head k \<noteq> buf_tail k"
  shows "buf_tail (buf_push c k) = buf_tail k" "buf_head (buf_push c k) \<noteq> buf_tail k"
    "key_buffer (buf_push c k) ! buf_tail k = key_buffer k ! buf_tail k"
  using assms by (auto simp: buf_push_def Let_def)

lemma handler_tail [simp]: "buf_tail (keyboard_handle_scancode c k) = buf_tail k"
  by (auto simp: keyboard_handle_scancode_def buf_push_def Let_def)

lemma handler_reader:
  assumes "buf_head k \<noteq> buf_tail k"
  shows "buf_head (keyboard_handle_scancode c k) \<noteq> buf_tail k"
    "key_buffer (keyboard_handle_scancode c k) ! buf_tail k = key_buffer k ! buf_tail k"
  using buf_push_reader [OF assms] assms by (auto simp: keyboard_handle_scancode_def Let_def)

text \<open>What the reader knows at each point, whatever interrupts have come.\<close>

fun reader_inv :: "reader \<times> kbd \<Rightarrow> bool" where
  "reader_inv (Test_head t, k) \<longleftrightarrow> t = buf_tail k"
| "reader_inv (Pop_tail, k) \<longleftrightarrow> buf_head k \<noteq> buf_tail k"
| "reader_inv (Pop_head t, k) \<longleftrightarrow> t = buf_tail k \<and> buf_head k \<noteq> buf_tail k"
| "reader_inv (Pop_load, k) \<longleftrightarrow> buf_head k \<noteq> buf_tail k"
| "reader_inv (Pop_next c, k) \<longleftrightarrow> buf_head k \<noteq> buf_tail k \<and> c = key_buffer k ! buf_tail k"
| "reader_inv (Pop_store c n, k) \<longleftrightarrow> buf_head k \<noteq> buf_tail k \<and> c = key_buffer k ! buf_tail k
     \<and> n = (buf_tail k + 1) mod KEY_BUF_SIZE"
| "reader_inv (r, k) \<longleftrightarrow> True"

lemma reader_inv_step: "reader_inv s \<Longrightarrow> reader_inv (exec_event e s)"
proof -
  assume inv: "reader_inv s"
  obtain r k where s: "s = (r, k)" by (cases s)
  show "reader_inv (exec_event e s)"
    using inv handler_reader [of k] unfolding s by (cases e; cases r) auto
qed

lemma reader_ok_run:
  "reader_inv s \<Longrightarrow> kbd_ok (snd s) \<Longrightarrow> reader_inv (exec_events es s) \<and> kbd_ok (snd (exec_events es s))"
proof (induction es arbitrary: s)
  case (Cons e es)
  obtain r k where s: "s = (r, k)" by (cases s)
  have "kbd_ok (snd (exec_event e s))"
    using Cons.prems handle_scancode_ok [of k] unfolding s by (cases e; cases r) (auto simp: kbd_ok_def)
  with Cons.IH reader_inv_step [OF Cons.prems(1)] show ?case by simp
qed simp

section \<open>One atomic pop\<close>

lemma done_stays: "exec_events es (Done c, k) = (Done c, handle_all (key_codes es) k)"
proof (induction es arbitrary: k)
  case (Cons e es)
  then show ?case by (cases e) simp_all
qed simp

fun returned :: "reader \<Rightarrow> bool" where
  "returned (Done _) = True"
| "returned _ = False"

text \<open>The only own step that returns is the store of the tail, and it is the whole pop.\<close>

lemma returning_step:
  assumes "reader_inv (r, k)" "\<not> returned r" "exec_event e (r, k) = (r', k')"
  shows "if returned r' then e = Own \<and> \<not> buf_empty k \<and> (\<exists>c. r' = Done c \<and> buf_pop k = (c, k'))
    else k' = handle_all (key_codes [e]) k"
  using assms by (cases e; cases r) (auto simp: buf_pop_def buf_empty_def)

lemma one_pop:
  assumes "reader_inv (r, k)" "\<not> returned r" "exec_events es (r, k) = (Done c, k')"
  shows "\<exists>es1 es2 k2. es = es1 @ Own # es2 \<and> \<not> buf_empty (handle_all (key_codes es1) k)
     \<and> buf_pop (handle_all (key_codes es1) k) = (c, k2) \<and> k' = handle_all (key_codes es2) k2"
  using assms
proof (induction es arbitrary: r k)
  case (Cons e es)
  obtain r1 k1 where e: "exec_event e (r, k) = (r1, k1)" by (cases "exec_event e (r, k)")
  note st = returning_step [OF Cons.prems(1,2) e]
  have inv: "reader_inv (r1, k1)" using reader_inv_step [OF Cons.prems(1), of e] e by simp
  show ?case
  proof (cases "returned r1")
    case True
    with st obtain c1 where c1: "e = Own" "\<not> buf_empty k" "r1 = Done c1" "buf_pop k = (c1, k1)" by auto
    with Cons.prems(3) e done_stays [of es c1 k1] show ?thesis
      by (intro exI [of _ "[]"] exI [of _ es] exI [of _ k1]) simp
  next
    case False
    with st have k1: "k1 = handle_all (key_codes [e]) k" by simp
    from Cons.IH [OF inv False] Cons.prems(3) e obtain es1 es2 k2 where
      "es = es1 @ Own # es2" "\<not> buf_empty (handle_all (key_codes es1) k1)"
      "buf_pop (handle_all (key_codes es1) k1) = (c, k2)" "k' = handle_all (key_codes es2) k2" by auto
    moreover have "handle_all (key_codes (e # es1)) k = handle_all (key_codes es1) k1"
      unfolding k1 by (cases e) simp_all
    ultimately show ?thesis by (intro exI [of _ "e # es1"] exI [of _ es2] exI [of _ k2]) simp
  qed
qed simp

lemma handle_all_ok: "kbd_ok k \<Longrightarrow> kbd_ok (handle_all codes k)"
  by (induction codes arbitrary: k) (simp_all add: handle_scancode_ok)

lemma pop_queue:
  assumes "kbd_ok k" "\<not> buf_empty k" "buf_pop k = (c, k')"
  shows "kbd_queue k = c # kbd_queue k'" "kbd_ok k'"
proof -
  obtain x xs where q: "kbd_queue k = x # xs" using kq.empty_contents [OF assms(1)] assms(2) by (cases "kbd_queue k") auto
  from kbd_queue_pop(2) [OF assms(1) q] kbd_queue_pop(1) [OF assms(1)] q assms(3)
  show "kbd_queue k = c # kbd_queue k'" "kbd_ok k'" by simp_all
qed

lemma seven_steps:
  "exec_events (replicate 7 Own) s = own_step (own_step (own_step (own_step (own_step (own_step (own_step s))))))"
  by (simp add: eval_nat_numeral)

text \<open>Undisturbed, a reader of a buffer with a key in it returns after at most seven accesses.\<close>

lemma pop_undisturbed:
  assumes "kbd_ok k" "kbd_queue k = c # cs"
  shows "\<exists>k'. exec_events (replicate 7 Own) (Test_tail, k) = (Done c, k') \<and> kbd_queue k' = cs"
proof -
  have ne: "\<not> buf_empty k" using kq.empty_contents [OF assms(1)] assms(2) by simp
  obtain c' k' where p: "buf_pop k = (c', k')" by (cases "buf_pop k")
  note q = pop_queue(1) [OF assms(1) ne p]
  have "exec_events (replicate 7 Own) (Test_tail, k) = (Done c', k')"
    using ne p by (simp add: seven_steps buf_empty_def buf_pop_def)
  with q assms(2) show ?thesis by simp
qed

section \<open>The properties\<close>

text \<open>
  (C8) Whatever interrupts come between the accesses of \<^verbatim>\<open>keyboard_read\<close>, it returns the key that was at the
  head of the buffer at one moment of its run and takes exactly this key out: the state afterwards is
  the one in which the interrupts before that moment, one undivided \<^verbatim>\<open>buf_pop\<close>, and
  the interrupts after it ran one after the other.
\<close>

theorem keyboard_read_atomic:
  assumes "kbd_ok k" "exec_events es (Test_tail, k) = (Done c, k')"
  shows "\<exists>es1 es2 k2. es = es1 @ Own # es2 \<and> buf_pop (handle_all (key_codes es1) k) = (c, k2)
     \<and> kbd_queue (handle_all (key_codes es1) k) = c # kbd_queue k2
     \<and> k' = handle_all (key_codes es2) k2 \<and> kbd_ok k'"
proof -
  obtain es1 es2 k2 where o: "es = es1 @ Own # es2" "\<not> buf_empty (handle_all (key_codes es1) k)"
      "buf_pop (handle_all (key_codes es1) k) = (c, k2)" "k' = handle_all (key_codes es2) k2"
    using one_pop [OF _ _ assms(2)] by auto
  note q = pop_queue [OF handle_all_ok [OF assms(1)] o(2,3)]
  with o handle_all_ok [OF q(2)] show ?thesis by blast
qed

text \<open>The key \<^verbatim>\<open>b\<close> arrives while \<^verbatim>\<open>a\<close> is being taken out.\<close>

definition empty_kbd :: kbd where
  "empty_kbd = \<lparr>key_buffer = replicate 256 0, buf_head = 0, buf_tail = 0, shift_held = False\<rparr>"

lemma empty_kbd_ok: "kbd_ok empty_kbd" "kbd_queue empty_kbd = []"
  by (simp_all add: empty_kbd_def kbd_ok_def kbd_queue_def kbd_len_def)

theorem keyboard_read_atomic_witness:
  "\<exists>es1 es2 k2 k'. [Key_irq 0x1E, Own, Own, Own, Own, Own, Key_irq 0x30, Own, Own] = es1 @ Own # es2
     \<and> buf_pop (handle_all (key_codes es1) empty_kbd) = (97, k2) \<and> kbd_ok k'"
proof -
  let ?es = "[Key_irq 0x1E, Own, Own, Own, Own, Own, Key_irq 0x30, Own, Own]"
  have "fst (exec_events ?es (Test_tail, empty_kbd)) = Done 97" by code_simp
  then obtain k' where "exec_events ?es (Test_tail, empty_kbd) = (Done 97, k')" by (metis prod.collapse)
  from keyboard_read_atomic [OF empty_kbd_ok(1) this] show ?thesis by metis
qed

text \<open>
  From every point a reader can reach, with a key in the buffer, one more interrupt of any kind is enough:
  it returns the first key with at most fourteen accesses of its own around a timer tick.
\<close>

theorem keyboard_read_progress:
  assumes "kbd_ok k" "exec_events es (Test_tail, k) = (r, k1)" "kbd_queue k1 = c # cs" "\<not> returned r"
  shows "\<exists>k'. exec_events (replicate 7 Own @ Tick_irq # replicate 7 Own) (r, k1) = (Done c, k')
     \<and> kbd_queue k' = cs"
proof -
  have inv: "reader_inv (r, k1)" "kbd_ok k1"
    using reader_ok_run [of "(Test_tail, k)" es] assms(1,2) by simp_all
  have ne: "\<not> buf_empty k1" using kq.empty_contents [OF inv(2)] assms(3) by simp
  obtain c' k' where p: "buf_pop k1 = (c', k')" by (cases "buf_pop k1")
  have "exec_events (replicate 7 Own @ Tick_irq # replicate 7 Own) (r, k1) = (Done c', k')"
    using inv(1) ne p assms(4) by (cases r) (auto simp: seven_steps buf_empty_def buf_pop_def)
  with pop_queue(1) [OF inv(2) ne p] assms(3) show ?thesis by simp
qed

text \<open>
  (C34) The key comes between the test and the \<^verbatim>\<open>hlt\<close>, which is executed all the same: the reader sleeps with
  the key in the buffer until the next interrupt, at the latest the next timer tick, and for ever if none comes.
\<close>

theorem keyboard_read_lost_wakeup:
  assumes "kbd_ok k" "kbd_queue k = []" "typed (shift_held k) [code] = [c]"
  shows "\<exists>k1 k2. exec_events [Own, Own, Key_irq code, Own] (Test_tail, k) = (Halted, k1) \<and> kbd_queue k1 = [c]
     \<and> (\<forall>n. exec_events (replicate n Own) (Halted, k1) = (Halted, k1))
     \<and> exec_events (Tick_irq # replicate 7 Own) (Halted, k1) = (Done c, k2) \<and> kbd_queue k2 = []"
proof -
  let ?k1 = "keyboard_handle_scancode code k"
  have q: "kbd_queue ?k1 = [c]" "kbd_ok ?k1"
    using handle_scancode_stream [OF assms(1), of code "[]"] handle_scancode_ok [OF assms(1)] assms(2,3)
    by (simp_all add: kbd_stream_def)
  have "exec_events [Own, Own, Key_irq code, Own] (Test_tail, k) = (Halted, ?k1)"
    using kq.empty_contents [OF assms(1)] assms(2) by (simp add: buf_empty_def)
  moreover have "exec_events (replicate n Own) (Halted, ?k1) = (Halted, ?k1)" for n by (induction n) simp_all
  moreover obtain k2 where "exec_events (replicate 7 Own) (Test_tail, ?k1) = (Done c, k2)" "kbd_queue k2 = []"
    using pop_undisturbed [OF q(2,1)] by blast
  ultimately show ?thesis using q(1) by auto
qed

theorem keyboard_read_progress_witness:
  "\<exists>k'. exec_events (replicate 7 Own @ Tick_irq # replicate 7 Own)
     (exec_events [Own, Own, Key_irq 0x1E, Own] (Test_tail, empty_kbd)) = (Done 97, k')"
proof -
  let ?s = "exec_events [Own, Own, Key_irq 0x1E, Own] (Test_tail, empty_kbd)"
  have t: "kbd_queue (snd ?s) = [97]" "fst ?s = Halted" by code_simp+
  obtain r k1 where s: "?s = (r, k1)" by (cases ?s)
  with t keyboard_read_progress [OF empty_kbd_ok(1) s, of 97 "[]"] show ?thesis by auto
qed

theorem keyboard_read_lost_wakeup_witness:
  "\<exists>k1. exec_events [Own, Own, Key_irq 0x1E, Own] (Test_tail, empty_kbd) = (Halted, k1) \<and> kbd_queue k1 = [97]"
proof -
  have "typed (shift_held empty_kbd) [0x1E] = [97]" by code_simp
  with keyboard_read_lost_wakeup [OF empty_kbd_ok] show ?thesis by blast
qed

end
