(* ===== verification/Bh_ShellSession.thy ===== *)
theory Bh_ShellSession
  imports Bh_ShellInv Bh_FatHistory
begin

text \<open>
  Sessions at the prompt: what a user types is edited into lines, each line is a command, and the
  commands act on a map from names to contents and on the screen. \<open>session\<close> is this reading without any of
  the kernel's data structures; the prompt loop, from the scancodes over the line editor, the
  interpreter, the file system and the driver down to the sectors, is shown to be it.
\<close>

section \<open>What a command does\<close>

text \<open>\<^verbatim>\<open>write\<close> takes the name up to a space, at most 31 characters, and the text behind one space.\<close>

definition write_name :: "bytes \<Rightarrow> bytes" where
  "write_name a = takeWhile (\<lambda>c. c \<noteq> 32) (take 31 a)"

definition write_text :: "bytes \<Rightarrow> bytes" where
  "write_text a = (let r = drop (length (write_name a)) a in if r \<noteq> [] \<and> hd r = 32 then tl r else r)"

text \<open>The commands of a session, and the names the directory can hold.\<close>

fun session_command :: "command \<Rightarrow> bool" where
  "session_command (Write a) \<longleftrightarrow> fat83 (write_name a) ! 0 \<noteq> 0xE5"
| "session_command c \<longleftrightarrow> c = Nop \<or> c = Clear \<or> (\<exists>t. c = Echo t \<or> c = Cat t \<or> c = Rm t \<or> c = Unknown t)"

fun new_files :: "command \<Rightarrow> (bytes \<Rightarrow> bytes option) \<Rightarrow> bytes \<Rightarrow> bytes option" where
  "new_files (Write a) M = M(fat83 (write_name a) \<mapsto> write_text a)"
| "new_files (Rm n) M = M(fat83 n := None)"
| "new_files _ M = M"

definition in_color :: "u8 \<Rightarrow> bytes \<Rightarrow> vga \<Rightarrow> vga" where
  "in_color c s v = vga_set_color VGA_WHITE VGA_BLACK (fold vga_putchar s (vga_set_color c VGA_BLACK v))"

definition not_found :: "bytes \<Rightarrow> vga \<Rightarrow> vga" where
  "not_found n = in_color VGA_LIGHT_RED (ascii ''File not found: '' @ n @ [10])"

fun new_screen :: "command \<Rightarrow> (bytes \<Rightarrow> bytes option) \<Rightarrow> vga \<Rightarrow> vga" where
  "new_screen Clear M v = vga_clear v"
| "new_screen (Echo t) M v = fold vga_putchar (t @ [10]) v"
| "new_screen (Cat n) M v = (case M (fat83 n) of None \<Rightarrow> not_found n v
     | Some t \<Rightarrow> fold vga_putchar (takeWhile (\<lambda>c. c \<noteq> 0) (take 2047 t) @ [10]) v)"
| "new_screen (Write a) M v = in_color VGA_LIGHT_GREEN (ascii ''Wrote '' @ numeral_str 10 (length (write_text a)) @
     ascii '' bytes to '' @ [39] @ write_name a @ [39] @ ascii ''.'' @ [10]) v"
| "new_screen (Rm n) M v = (if M (fat83 n) = None then not_found n v
     else fold vga_putchar (ascii ''Deleted '' @ [39] @ n @ [39] @ ascii ''.'' @ [10]) v)"
| "new_screen (Unknown t) M v = in_color VGA_LIGHT_RED (ascii ''Unknown command: '' @ t @ [10]) v"
| "new_screen _ M v = v"

text \<open>The space a command asks for.\<close>

fun new_clusters :: "fat_vars \<Rightarrow> command \<Rightarrow> nat" where
  "new_clusters g (Write a) = clusters_for g (length (write_text a))"
| "new_clusters g _ = 0"

fun new_names :: "command \<Rightarrow> bytes set" where
  "new_names (Write a) = {fat83 (write_name a)}"
| "new_names _ = {}"

section \<open>Strings the commands build\<close>

lemma key_str: "str_at name 0 s \<Longrightarrow> file_key name = fat83 s \<and> 0 \<in> set name"
proof -
  assume s: "str_at name 0 s"
  then have z: "0 \<in> set name" by (metis add_0 nth_mem str_at_def)
  with str_at_unique [OF str_at_key s] show ?thesis by (simp add: file_key_def)
qed

lemma str_at_cut:
  assumes "take n b = s" "n < length b"
  shows "str_at (b[n := 0]) 0 (takeWhile (\<lambda>c. c \<noteq> 0) s)"
proof -
  let ?w = "takeWhile (\<lambda>c. c \<noteq> 0) s"
  have s: "length s = n" using assms by auto
  then have l: "length ?w \<le> n" using length_takeWhile_le [of "\<lambda>c. c \<noteq> 0" s] by simp
  have "take (length ?w) (b[n := 0]) = take (length ?w) s" using l assms(1) by (auto simp: min_def)
  then have t: "take (length ?w) (b[n := 0]) = ?w" by (metis append_eq_conv_conj takeWhile_dropWhile_id)
  have "b[n := 0] ! length ?w = 0"
  proof (cases "length ?w = n")
    case True
    then show ?thesis using assms(2) by simp
  next
    case False
    then have "length ?w < length s" using l s by simp
    from nth_length_takeWhile [OF this] have "s ! length ?w = 0" by simp
    moreover have "b ! length ?w = s ! length ?w" using False l assms(1) by auto
    ultimately show ?thesis using False by simp
  qed
  moreover have "0 \<notin> set ?w" using set_takeWhileD by fastforce
  ultimately show ?thesis using t l assms(2) by (simp add: str_at_def)
qed

lemma write_name_length: "length (write_name a) \<le> 31" "length (write_name a) \<le> length a"
  using length_takeWhile_le [of "\<lambda>c. c \<noteq> 32" "take 31 a"] by (simp_all add: write_name_def)

lemma write_name_take: "take (length (write_name a)) a = write_name a"
proof -
  have "take (length (write_name a)) (take 31 a) = write_name a"
    unfolding write_name_def by (metis append_eq_conv_conj takeWhile_dropWhile_id)
  then show ?thesis using write_name_length(1) [of a] by (simp add: min_def split: if_splits)
qed

lemma write_name_nth: "i < length (write_name a) \<Longrightarrow> write_name a ! i = a ! i \<and> a ! i \<noteq> 32"
proof -
  assume i: "i < length (write_name a)"
  then have "write_name a ! i = a ! i" by (metis nth_take write_name_take)
  moreover have "write_name a ! i \<noteq> 32" using set_takeWhileD nth_mem [OF i] unfolding write_name_def by fastforce
  ultimately show ?thesis by simp
qed

lemma write_name_stop: "length (write_name a) < 31 \<Longrightarrow> length (write_name a) < length a \<Longrightarrow> a ! length (write_name a) = 32"
  using nth_length_takeWhile [of "\<lambda>c. c \<noteq> 32" "take 31 a"] by (simp add: write_name_def)

lemma write_text_drop:
  "write_text a = drop (if length (write_name a) < length a \<and> a ! length (write_name a) = 32
     then Suc (length (write_name a)) else length (write_name a)) a"
proof (cases "length (write_name a) < length a")
  case True
  then have "drop (length (write_name a)) a = a ! length (write_name a) # drop (Suc (length (write_name a))) a"
    by (simp add: Cons_nth_drop_Suc)
  with True show ?thesis by (simp add: write_text_def Let_def)
qed (simp add: write_text_def)

lemma name_loop_name:
  assumes "str_at args 0 a"
  shows "i \<le> length (write_name a) \<Longrightarrow> length fn = 32 \<Longrightarrow> take i fn = take i (write_name a) \<Longrightarrow>
    \<exists>fn'. name_loop args i fn = Some (fn', length (write_name a)) \<and> length fn' = 32 \<and> take (length (write_name a)) fn' = write_name a"
proof (induction "length (write_name a) - i" arbitrary: i fn)
  case 0
  let ?n = "length (write_name a)"
  have i: "i = ?n" using 0 by simp
  have "\<exists>c. aget args ?n = Some c \<and> \<not> (c \<noteq> 0 \<and> c \<noteq> 32 \<and> ?n < 31)"
  proof (cases "?n < length a")
    case True
    then show ?thesis using str_at_nth [OF assms True] write_name_stop [of a] by auto
  next
    case False
    then have "?n = length a" using write_name_length(2) [of a] by simp
    then show ?thesis using assms by (auto simp: str_at_def aget_def)
  qed
  with i 0 show ?case by (auto simp: name_loop.simps [of args ?n])
next
  case (Suc k)
  then have i: "i < length (write_name a)" by simp
  then have ia: "i < length a" "i < 31" using write_name_length [of a] by simp_all
  have c: "aget args i = Some (write_name a ! i)" "write_name a ! i \<noteq> 0" "write_name a ! i \<noteq> 32"
    using str_at_nth [OF assms ia(1)] write_name_nth [OF i] by simp_all
  have "take (Suc i) (fn[i := write_name a ! i]) = take (Suc i) (write_name a)"
    using Suc.prems i ia by (simp add: take_Suc_conv_app_nth)
  with Suc.hyps(1) [of "Suc i" "fn[i := write_name a ! i]"] Suc.hyps(2) Suc.prems c i ia show ?case
    by (simp add: name_loop.simps [of args i])
qed

section \<open>The commands on the ideal disk\<close>

lemma msay_not_found:
  assumes "str_at file 0 n" "fp \<noteq> 0"
  shows "msay (''File not found: %s'' @ nl) [Arg_ptr fp file] m = Some (mputs (ascii ''File not found: '' @ n @ [10]) m)"
  using msay_str [of "''File not found: ''" nl, OF _ _ _ _ assms] by simp

lemma msay_deleted:
  assumes "str_at file 0 n" "fp \<noteq> 0"
  shows "msay (''Deleted '' @ [CHR 0x27] @ ''%s'' @ [CHR 0x27] @ ''.'' @ nl) [Arg_ptr fp file] m
     = Some (mputs (ascii ''Deleted '' @ [39] @ n @ [39] @ ascii ''.'' @ [10]) m)"
proof -
  have "ascii (''Deleted '' @ [CHR 0x27]) = ascii ''Deleted '' @ [39]" "ascii ([CHR 0x27] @ ''.'' @ nl) = [39] @ ascii ''.'' @ [10]"
    by (simp_all add: ascii_def)
  with msay_str [of "''Deleted '' @ [CHR 0x27]" "[CHR 0x27] @ ''.'' @ nl", OF _ _ _ _ assms] show ?thesis by simp
qed

lemma cmd_cat_any:
  assumes rep: "represents (vars (fsys m)) (dev (fsys m)) M" and name: "str_at file 0 n" and fp: "fp \<noteq> 0"
  shows "\<exists>m'. cmd_cat ram_io fp file m = Some m' \<and> screen m' = new_screen (Cat n) M (screen m)
     \<and> vars (fsys m') = vars (fsys m) \<and> dev (fsys m') = dev (fsys m)
     \<and> keys m' = keys m \<and> pending m' = pending m \<and> ram m' = ram m"
proof -
  have r: "fat16_read_file ram_io file (replicate 2048 0) 2047 (fsys m)
      = Some (case M (fat83 n) of None \<Rightarrow> (- 1, replicate 2048 0) | Some t \<Rightarrow> fetched t 2047 (replicate 2048 0), fsys m)"
    by (rule read_is_prefix [OF rep name]) (simp add: min.coboundedI2)
  have u: "unat (2047 :: u32) = 2047" by simp
  show ?thesis
  proof (cases "M (fat83 n)")
    case None
    with r msay_not_found [OF name fp, of "color VGA_LIGHT_RED m"] show ?thesis
      by (simp add: cmd_cat_def c_obj not_found_def in_color_def)
  next
    case (Some t)
    let ?k = "min (length t) 2047"
    let ?b = "take 2047 t @ replicate (2048 - ?k) 0"
    have "str_at (?b[?k := 0]) 0 (takeWhile (\<lambda>c. c \<noteq> 0) (take 2047 t))" by (rule str_at_cut) (simp_all add: min_def)
    from msay_str [of "[]" nl, OF _ _ _ _ this fp]
    have "msay (''%s'' @ nl) [Arg_ptr fp (?b[?k := 0])] m
        = Some (mputs (takeWhile (\<lambda>c. c \<noteq> 0) (take 2047 t) @ [10]) m)" by (simp add: ascii_def)
    moreover have "?k < length ?b" by simp
    moreover have "nat (int ?k) = ?k" "\<not> int ?k < 0" by simp_all
    ultimately show ?thesis
      using r Some by (simp add: cmd_cat_def c_obj fetched_def u del: nat_int of_nat_min)
  qed
qed

lemma cmd_write_any:
  assumes rep: "represents (vars (fsys m)) (dev (fsys m)) M" and args: "str_at args 0 a" "length a < 128" and fp: "fp \<noteq> 0"
    and ok: "session_command (Write a)"
    and fits: "new_clusters (vars (fsys m)) (Write a) + k \<le> disk_room (vars (fsys m)) (dev (fsys m))" "finite N"
      "card (dom M \<union> (new_names (Write a) \<union> N)) \<le> slots (vars (fsys m))"
  shows "\<exists>m'. cmd_write ram_io fp args m = Some m' \<and> screen m' = new_screen (Write a) M (screen m)
     \<and> vars (fsys m') = vars (fsys m) \<and> represents (vars (fsys m)) (dev (fsys m')) (new_files (Write a) M)
     \<and> k \<le> disk_room (vars (fsys m)) (dev (fsys m')) \<and> card (dom (new_files (Write a) M) \<union> N) \<le> slots (vars (fsys m))
     \<and> keys m' = keys m \<and> pending m' = pending m \<and> ram m' = ram m"
proof -
  let ?n = "write_name a" and ?t = "write_text a"
  let ?i = "if length ?n < length a \<and> a ! length ?n = 32 then Suc (length ?n) else length ?n"
  let ?data = "drop ?i args"
  obtain fn where fn: "name_loop args 0 (replicate 32 0) = Some (fn, length ?n)" "length fn = 32" "take (length ?n) fn = ?n"
    using name_loop_name [OF args(1), of 0 "replicate 32 0"] by auto
  have nz: "0 \<notin> set ?n" using args(1) set_takeWhileD in_set_takeD unfolding write_name_def str_at_def by metis
  have name: "str_at (fn[length ?n := 0]) 0 ?n" using fn write_name_length(1) [of a] nz by (intro str_at_put) auto
  have il: "?i \<le> length a" using write_name_length(2) [of a] by auto
  have data: "str_at ?data 0 ?t" using str_at_suffix [OF args(1) il] write_text_drop [of a] by simp
  have tl: "length ?t < 128" using args(2) by (simp add: write_text_drop)
  have u: "unat (of_nat (length ?t) :: u32) = length ?t" using tl by (intro unat_of_nat32) simp
  have tk: "length ?t \<le> length ?data" "take (length ?t) ?data = ?t" using data by (simp_all add: str_at_def)
  have c: "\<exists>c. aget args (length ?n) = Some c \<and> (if c = 32 then Suc (length ?n) else length ?n) = ?i"
  proof (cases "length ?n < length a")
    case True
    then show ?thesis using str_at_nth [OF args(1) True] by auto
  next
    case False
    then have "length ?n = length a" using write_name_length(2) [of a] by simp
    then show ?thesis using args(1) by (auto simp: str_at_def aget_def)
  qed
  have spc: "unat (sectors_per_cluster (vars (fsys m))) < 256"
    using unsigned_less [of "sectors_per_cluster (vars (fsys m))"] by simp
  let ?op = "Write_file (fn[length ?n := 0]) ?data (of_nat (length ?t))"
  note ks = key_str [OF name]
  have cok: "call_ok (vars (fsys m)) ?op" using ks ok tk(1) tl spc by (simp add: u)
  have nd: "needs (vars (fsys m)) ?op + k \<le> disk_room (vars (fsys m)) (dev (fsys m))"
    "card (dom M \<union> (written ?op \<union> N)) \<le> slots (vars (fsys m))" using fits ks by (simp_all add: u)
  obtain D' where D': "fat16_write_file ram_io (fn[length ?n := 0]) ?data (of_nat (length ?t)) (fsys m) = Some (0, (fsys m)\<lparr>dev := D'\<rparr>)"
    "represents (vars (fsys m)) D' (M(fat83 ?n \<mapsto> ?t))" "k \<le> disk_room (vars (fsys m)) D'"
    "card (dom (M(fat83 ?n \<mapsto> ?t)) \<union> N) \<le> slots (vars (fsys m))"
    using do_fits [OF rep cok nd(1) fits(2) nd(2)] ks
    by (auto simp: u tk(2) Option.bind_eq_Some_conv simp del: domIff)
  have l: "length ?n < length fn" using fn(2) write_name_length(1) [of a] by simp
  obtain ch where ch: "aget args (length ?n) = Some ch" "(if ch = 32 then Suc (length ?n) else length ?n) = ?i" using c by blast
  have "cmd_write ram_io fp args m = Some (color VGA_WHITE (mputs
      (ascii ''Wrote '' @ numeral_str 10 (length ?t) @ ascii '' bytes to '' @ [39] @ ?n @ [39] @ ascii ''.'' @ [10])
      (color VGA_LIGHT_GREEN (m\<lparr>fsys := (fsys m)\<lparr>dev := D'\<rparr>\<rparr>))))"
    unfolding cmd_write_def
    using fn(1) l D'(1) strlen_str_at [OF data]
      msay_wrote [OF name fp, of "of_nat (length ?t)" "color VGA_LIGHT_GREEN (m\<lparr>fsys := (fsys m)\<lparr>dev := D'\<rparr>\<rparr>)"]
    by (simp add: ch(1) ch(2) u Let_def del: if_split_asm)
  then show ?thesis using D'(2-4) by (simp add: in_color_def)
qed

lemma cmd_rm_any:
  assumes rep: "represents (vars (fsys m)) (dev (fsys m)) M" and name: "str_at file 0 n" and fp: "fp \<noteq> 0"
    and fits: "k \<le> disk_room (vars (fsys m)) (dev (fsys m))" "finite N" "card (dom M \<union> N) \<le> slots (vars (fsys m))"
  shows "\<exists>m'. cmd_rm ram_io fp file m = Some m' \<and> screen m' = new_screen (Rm n) M (screen m)
     \<and> vars (fsys m') = vars (fsys m) \<and> represents (vars (fsys m)) (dev (fsys m')) (new_files (Rm n) M)
     \<and> k \<le> disk_room (vars (fsys m)) (dev (fsys m')) \<and> card (dom (new_files (Rm n) M) \<union> N) \<le> slots (vars (fsys m))
     \<and> keys m' = keys m \<and> pending m' = pending m \<and> ram m' = ram m"
proof -
  note ks = key_str [OF name]
  have cok: "call_ok (vars (fsys m)) (Delete_file file)" using ks by simp
  have nd: "needs (vars (fsys m)) (Delete_file file) + k \<le> disk_room (vars (fsys m)) (dev (fsys m))"
    "card (dom M \<union> (written (Delete_file file) \<union> N)) \<le> slots (vars (fsys m))" using fits by simp_all
  obtain D' where D': "fat16_delete_file ram_io file (fsys m) = Some (if M (fat83 n) = None then - 1 else 0, (fsys m)\<lparr>dev := D'\<rparr>)"
    "represents (vars (fsys m)) D' (M(fat83 n := None))" "k \<le> disk_room (vars (fsys m)) D'"
    "card (dom (M(fat83 n := None)) \<union> N) \<le> slots (vars (fsys m))"
    using do_fits [OF rep cok nd(1) fits(2) nd(2)] ks by (auto simp: Option.bind_eq_Some_conv simp del: domIff)
  show ?thesis
    using D' msay_not_found [OF name fp, of "color VGA_LIGHT_RED (m\<lparr>fsys := (fsys m)\<lparr>dev := D'\<rparr>\<rparr>)"]
      msay_deleted [OF name fp, of "m\<lparr>fsys := (fsys m)\<lparr>dev := D'\<rparr>\<rparr>"]
    by (cases "M (fat83 n)") (simp_all add: cmd_rm_def not_found_def in_color_def)
qed

section \<open>One line\<close>

text \<open>What a run of a session command leaves: everything the next round needs.\<close>

definition session_ok :: "fat_vars \<Rightarrow> nat \<Rightarrow> bytes set \<Rightarrow> (bytes \<Rightarrow> bytes option) \<Rightarrow> bytes list machine \<Rightarrow> bool" where
  "session_ok g k N M m \<longleftrightarrow> vars (fsys m) = g \<and> represents g (dev (fsys m)) M \<and> k \<le> disk_room g (dev (fsys m))
     \<and> finite N \<and> card (dom M \<union> N) \<le> slots g"

lemma session_ok_screen: "session_ok g k N M m \<Longrightarrow> vars (fsys m') = vars (fsys m) \<Longrightarrow> dev (fsys m') = dev (fsys m) \<Longrightarrow> session_ok g k N M m'"
  by (simp add: session_ok_def)

lemma run_session_command:
  assumes ok: "session_ok g (new_clusters g (parse l) + k) (new_names (parse l) \<union> N) M m" and fin: "finite N"
    and line: "str_at cmd 0 l" "length l < 128" "session_command (parse l)" and fp: "fp \<noteq> 0" "fp + 5 \<noteq> 0"
  shows "\<exists>m'. execute_command ram_io fp cmd m = Some (Inr m') \<and> screen m' = new_screen (parse l) M (screen m)
     \<and> session_ok g k N (new_files (parse l) M) m' \<and> keys m' = keys m \<and> pending m' = pending m \<and> ram m' = ram m"
proof -
  note ok' = ok [unfolded session_ok_def]
  have c2: "card (dom M \<union> N) \<le> slots g"
    using ok' card_mono [of "dom M \<union> (new_names (parse l) \<union> N)" "dom M \<union> N"] represents_finite by fastforce
  note ex = execute_parse [OF line(1) fp] and args = parse_args [OF line(1)]
  show ?thesis
  proof (cases "parse l")
    case (Cat n)
    with cmd_cat_any [of m M "drop 4 cmd" n fp] args(1) ok' fp(1) c2 fin show ?thesis
      by (fastforce simp: ex run_command_def session_ok_def)
  next
    case (Write a)
    then have "length a < 128" using parse_Write [OF Write] line(2) by simp
    with cmd_write_any [of m M "drop 6 cmd" a fp k N] args(2) Write ok' fp(1) fin line(3) show ?thesis
      by (fastforce simp: ex run_command_def session_ok_def)
  next
    case (Rm n)
    with cmd_rm_any [of m M "drop 3 cmd" n fp k N] args(3) ok' fp(1) c2 fin show ?thesis
      by (fastforce simp: ex run_command_def session_ok_def)
  qed (use line(3) ok' c2 fin in \<open>auto simp: ex run_command_def session_ok_def in_color_def\<close>)
qed

section \<open>Sessions\<close>

text \<open>The first \<open>n\<close> lines of what is typed, each with its echo.\<close>

fun typed_lines :: "nat \<Rightarrow> bytes \<Rightarrow> (bytes \<times> bytes) list option" where
  "typed_lines 0 cs = Some []"
| "typed_lines (Suc n) cs = (case line_edit 128 [] cs of None \<Rightarrow> None
     | Some (l, e, r) \<Rightarrow> map_option ((#) (l, e)) (typed_lines n r))"

definition prompted :: "bytes \<Rightarrow> vga \<Rightarrow> vga" where
  "prompted e v = fold vga_putchar e (vga_set_color VGA_WHITE VGA_BLACK
     (fold vga_putchar (ascii ''BH-OS> '') (vga_set_color VGA_YELLOW VGA_BLACK v)))"

fun session :: "(bytes \<times> bytes) list \<Rightarrow> (bytes \<Rightarrow> bytes option) \<Rightarrow> vga \<Rightarrow> (bytes \<Rightarrow> bytes option) \<times> vga" where
  "session [] M v = (M, v)"
| "session ((l, e) # ls) M v = session ls (new_files (parse l) M) (new_screen (parse l) M (prompted e v))"

lemma loop_session:
  assumes "kbd_ok (keys m)" "length buf = 128" "0 \<notin> set (kbd_stream (keys m) (scancodes (pending m)))"
    and "typed_lines n (kbd_stream (keys m) (scancodes (pending m))) = Some ls" "\<forall>(l, e) \<in> set ls. session_command (parse l)"
    and "session_ok g (\<Sum>(l, e) \<leftarrow> ls. new_clusters g (parse l)) (\<Union>(l, e) \<in> set ls. new_names (parse l)) M m"
    and fp: "fp \<noteq> 0" "fp + 5 \<noteq> 0"
  shows "\<exists>cmd m'. shell_loop ram_io fp n buf m = Some (cmd, Inr m') \<and> session_ok g 0 {} (fst (session ls M (screen m))) m'
     \<and> screen m' = snd (session ls M (screen m)) \<and> ram m' = ram m"
  using assms(1-6)
proof (induction n arbitrary: buf m ls M)
  case 0
  then show ?case by simp
next
  case (Suc n)
  let ?cs = "kbd_stream (keys m) (scancodes (pending m))"
  obtain l e r where ed: "line_edit 128 [] ?cs = Some (l, e, r)"
    using Suc.prems(4) by (cases "line_edit 128 [] ?cs") auto
  then obtain ls' where ls: "ls = (l, e) # ls'" "typed_lines n r = Some ls'" using Suc.prems(4) by auto
  have q: "0 \<notin> set (kbd_queue (keys m))" using Suc.prems(3) by (simp add: kbd_stream_def)
  from shell_step_reads [OF Suc.prems(1,2) q ed, of ram_io fp] obtain cmd m2 where
    s: "shell_step ram_io fp buf m = map_option (Pair cmd) (execute_command ram_io fp cmd m2)"
      "str_at cmd 0 l" "length l < 128" "length cmd = 128" "screen m2 = prompted e (screen m)"
      "kbd_ok (keys m2)" "kbd_stream (keys m2) (scancodes (pending m2)) = r" "ram m2 = ram m"
      "dev (fsys m2) = dev (fsys m)" "vars (fsys m2) = vars (fsys m)" unfolding prompted_def by blast
  let ?k = "\<Sum>(l, e) \<leftarrow> ls'. new_clusters g (parse l)" and ?N = "\<Union>(l, e) \<in> set ls'. new_names (parse l)"
  have "finite (new_names c)" for c by (cases c) simp_all
  then have fin: "finite ?N" by auto
  have "session_ok g (new_clusters g (parse l) + ?k) (new_names (parse l) \<union> ?N) M m"
    using Suc.prems(6) by (simp add: ls(1))
  then have "session_ok g (new_clusters g (parse l) + ?k) (new_names (parse l) \<union> ?N) M m2"
    by (rule session_ok_screen) (simp_all add: s)
  from run_session_command [OF this fin s(2,3) _ fp] Suc.prems(5) ls(1) obtain m3 where
    3: "execute_command ram_io fp cmd m2 = Some (Inr m3)" "screen m3 = new_screen (parse l) M (prompted e (screen m))"
      "session_ok g ?k ?N (new_files (parse l) M) m3" "keys m3 = keys m2" "pending m3 = pending m2" "ram m3 = ram m2"
    using s(5) by auto
  have "0 \<notin> set r" using line_edit_rest [OF ed] Suc.prems(3) by blast
  then obtain cmd' m' where "shell_loop ram_io fp n cmd m3 = Some (cmd', Inr m')"
      "session_ok g 0 {} (fst (session ls' (new_files (parse l) M) (screen m3))) m'"
      "screen m' = snd (session ls' (new_files (parse l) M) (screen m3))" "ram m' = ram m3"
    using Suc.IH [of m3 cmd ls' "new_files (parse l) M"] 3(3-5) s(4,6,7) ls Suc.prems(5) by auto
  then show ?case using s(1,8) 3(1,2,6) by (simp add: ls(1))
qed

lemma session_drive:
  assumes "ide_device P rgs phase busy platter" "ide_device.settled phase platter (dev (fsys m))"
    and "represents (vars (fsys m)) (platter (dev (fsys m))) M"
    and keys: "kbd_ok (keys m)" "length buf = 128" "0 \<notin> set (kbd_queue (keys m))"
    and ls: "typed_lines n (kbd_stream (keys m) (scancodes (pending m))) = Some ls" "\<forall>(l, e) \<in> set ls. session_command (parse l)"
    and fits: "(\<Sum>(l, e) \<leftarrow> ls. new_clusters (vars (fsys m)) (parse l)) \<le> disk_room (vars (fsys m)) (platter (dev (fsys m)))"
      "card (dom M \<union> (\<Union>(l, e) \<in> set ls. new_names (parse l))) \<le> slots (vars (fsys m))"
    and fp: "fp \<noteq> 0" "fp + 5 \<noteq> 0"
  shows "\<exists>cmd m'. shell_loop (ata_io P) fp n buf m = Some (cmd, Inr m')
     \<and> screen m' = snd (session ls M (screen m)) \<and> ram m' = ram m \<and> vars (fsys m') = vars (fsys m)
     \<and> ide_device.settled phase platter (dev (fsys m'))
     \<and> represents (vars (fsys m)) (platter (dev (fsys m'))) (fst (session ls M (screen m)))"
proof -
  let ?i = "ideal_machine platter m" and ?g = "vars (fsys m)"
  have "same_machine (ide_device.settled phase platter) platter m ?i" using assms(2) by (simp add: same_ideal_machine)
  note sim = sector_store.shell_loop_sim [OF ide_device.ata_store [OF assms(1)] this, of fp n buf]
  have i: "fsys ?i = ideal platter (fsys m)" "keys ?i = keys m" "pending ?i = pending m" "ram ?i = ram m"
    by (simp_all add: ideal_machine_def)
  have "finite (new_names c)" for c by (cases c) simp_all
  then have fin: "finite (\<Union>(l, e) \<in> set ls. new_names (parse l))" by auto
  have nz: "0 \<notin> set (kbd_stream (keys m) (scancodes (pending m)))" using keys(3) typed_nonzero by (simp add: kbd_stream_def)
  have "session_ok ?g (\<Sum>(l, e) \<leftarrow> ls. new_clusters ?g (parse l)) (\<Union>(l, e) \<in> set ls. new_names (parse l)) M ?i"
    using assms(3) fits fin by (simp add: session_ok_def i)
  from loop_session [of ?i buf n ls ?g M fp] this keys nz ls fp obtain cmd r where
    r: "shell_loop ram_io fp n buf ?i = Some (cmd, Inr r)" "session_ok ?g 0 {} (fst (session ls M (screen m))) r"
      "screen r = snd (session ls M (screen m))" "ram r = ram m" by (auto simp: i)
  from simE [OF sim r(1)] obtain x where x: "shell_loop (ata_io P) fp n buf m = Some (cmd, x)"
    "rel_sum (same_machine (ide_device.settled phase platter) platter) (same_machine (ide_device.settled phase platter) platter) x (Inr r)"
    by blast
  then obtain m' where m': "x = Inr m'" "same_machine (ide_device.settled phase platter) platter m' r" by (cases x) auto
  then show ?thesis using x(1) r(2-4) by (auto simp: same_machine_def same_fs_def session_ok_def)
qed

section \<open>The property\<close>


text \<open>On the freshly formatted drive: \<^verbatim>\<open>write a hi\<close>, \<^verbatim>\<open>cat a\<close>, with a timer interrupt in between.\<close>

definition typing_machine :: "ide machine" where
  "typing_machine = \<lparr>fsys = small_drive_fs, ram = (\<lambda>_. 0), pg = \<lparr>page_directory = 0, first_page_table = 0, cr3 = 0, cr0 = 0\<rparr>,
     tmr = \<lparr>tick = 5, current_freq = 100\<rparr>,
     keys = \<lparr>key_buffer = replicate 256 0, buf_head = 0, buf_tail = 0, shift_held = False\<rparr>,
     pending = map Irq_key [0x11, 0x13, 0x17, 0x14, 0x12, 0x39, 0x1E, 0x39, 0x23, 0x17, 0x1C] @ Irq_timer #
       map Irq_key [0x2E, 0x1E, 0x14, 0x39, 0x1E, 0x1C]\<rparr>"

lemma typing_stream:
  "kbd_stream (keys typing_machine) (scancodes (pending typing_machine)) = ascii ''write a hi'' @ 10 # ascii ''cat a'' @ [10]"
proof -
  have "typed False [0x11, 0x13, 0x17, 0x14, 0x12, 0x39, 0x1E, 0x39, 0x23, 0x17, 0x1C, 0x2E, 0x1E, 0x14, 0x39, 0x1E, 0x1C]
      = ascii ''write a hi'' @ 10 # ascii ''cat a'' @ [10]" by code_simp
  then show ?thesis by (simp add: typing_machine_def kbd_stream_def kbd_queue_def kbd_len_def)
qed

lemma typing_lines:
  "typed_lines 2 (ascii ''write a hi'' @ 10 # ascii ''cat a'' @ [10])
     = Some [(ascii ''write a hi'', ascii ''write a hi'' @ [10]), (ascii ''cat a'', ascii ''cat a'' @ [10])]"
  by code_simp

lemma typing_commands: "parse (ascii ''write a hi'') = Write (ascii ''a hi'')" "parse (ascii ''cat a'') = Cat (ascii ''a'')"
  "write_name (ascii ''a hi'') = ascii ''a''" "write_text (ascii ''a hi'') = ascii ''hi''" "fat83 (ascii ''a'') ! 0 \<noteq> 0xE5"
  by (simp_all add: parse_def ascii_def write_name_def write_text_def) code_simp


end
