(* ===== verification/Spec2Isabelle.thy ===== *)
theory Spec2Isabelle
  imports Bh_Kernel Bh_FatLayout Bh_KeyRace Bh_ShellSession
begin

text \<open>
  \<^bold>\<open>BlackHole OS, a verification library.\<close>

  The program is a 32-bit kernel in C: a screen, keyboard, timer and ATA driver, a heap, a FAT16
  file system, paging, a round-robin scheduler, interrupt handlers and a shell. The library
  translates every C function into an Isabelle definition and proves what the parts promise, up to
  the boot of the whole and to files written at the prompt.

  \<^bold>\<open>Conventions.\<close> A C function is one definition of the same name, a loop one recursive function
  (named after its function). Integers keep their width as words and wrap; \<^verbatim>\<open>int\<close> values that
  only index arrays are \<^typ>\<open>nat\<close> or \<^typ>\<open>int\<close>. \<^const>\<open>None\<close> is everything the C code does not come
  back from: a fault, undefined behaviour such as an access outside an array, or a loop that
  never ends. Loops that may not end are defined by \<^theory_text>\<open>partial_function\<close>; counted ones have
  a termination proof, so there is no fuel, except that \<^verbatim>\<open>shell_loop\<close>, which never ends,
  is taken for a given number of rounds. State is passed explicitly as records.

  \<^bold>\<open>Theories and sources.\<close>
  \<^item> \<open>Bh_Prelude\<close>: word types, checked array access, C strings in arrays (\<open>str_at\<close>), counted loops.
  \<^item> \<open>Bh_String\<close> (\<^verbatim>\<open>libc/string.c\<close>): memory and string functions, number printing; numbers read back.
  \<^item> \<open>Bh_Vga\<close> (\<^verbatim>\<open>drivers/vga.c\<close>): frame buffer, cursor, colour; refines a terminal of 25 lines of 80 cells.
  \<^item> \<open>Bh_Stdio\<close> (\<^verbatim>\<open>libc/stdio.c\<close>): \<^verbatim>\<open>printf\<close> against the denotation \<open>render\<close> of a format.
  \<^item> \<open>Bh_Keyboard\<close> (\<^verbatim>\<open>drivers/keyboard.c\<close>): ring buffer as a queue (locale and interpretation), scancodes, line editor.
    \<open>Bh_KeyRace\<close>: \<^verbatim>\<open>keyboard_read\<close> access by access, with interrupts between any two accesses.
  \<^item> \<open>Bh_Timer\<close> (\<^verbatim>\<open>drivers/timer.c\<close>): tick counter, divisor, sleeping on a sequence of interrupts.
  \<^item> \<open>Bh_Mem\<close>: flat byte memory with 32-bit loads and stores. \<open>Bh_Heap\<close> (\<^verbatim>\<open>kernel/memory.c\<close>): the
    allocator in that memory against first fit on a list of blocks; isolation over all sequences of operations.
  \<^item> \<open>Bh_Ata\<close> (\<^verbatim>\<open>drivers/ata.c\<close>, ports of \<^verbatim>\<open>kernel/idt.h\<close>): polling driver on a device that is
    a parameter; the locale \<open>ide_device\<close> states the PIO protocol, the locale \<open>sector_store\<close> what the
    file system relies on, and a \<^theory_text>\<open>sublocale\<close> gives the second from the first.
  \<^item> \<open>Bh_Fat16\<close> (\<^verbatim>\<open>fs/fat16.c\<close>): all operations over any sector store. \<open>Bh_FatSim\<close>: what holds on
    an ideal disk holds on every store. \<open>Bh_FatTable\<close>, \<open>Bh_FatFile\<close>, \<open>Bh_FatDir\<close>, \<open>Bh_FatOps\<close>: the
    table, file data, the directory and the operations on them. \<open>Bh_FatVolume\<close>: when a volume represents
    a map from names to contents. \<open>Bh_FatProps\<close>, \<open>Bh_FatLimits\<close>, \<open>Bh_FatSafe\<close>: the properties.
    \<open>Bh_FatHistory\<close>: whole histories of file calls against a transition system and against the map.
    \<open>Bh_FatFrame\<close>: the sectors no operation writes. \<open>Bh_FatLayout\<close> (\<^verbatim>\<open>fs/fat16.h\<close>): the packed structs, mounting,
    and a volume from its format over a history of calls to the next start of the machine.
  \<^item> \<open>Bh_Gdt\<close>, \<open>Bh_Idt\<close>, \<open>Bh_Paging\<close> (\<^verbatim>\<open>kernel/gdt.c\<close>, \<^verbatim>\<open>kernel/idt.c\<close>, \<^verbatim>\<open>kernel/paging.c\<close>):
    the tables, each with what the processor reads from them.
  \<^item> \<open>Bh_Task\<close> (\<^verbatim>\<open>kernel/task.c\<close>, \<^verbatim>\<open>kernel/switch.S\<close>): control blocks and stacks in memory against a list of threads.
  \<^item> \<open>Bh_Isr\<close> (\<^verbatim>\<open>kernel/isr.c\<close>): page fault, timer, keyboard and system call handlers.
  \<^item> \<open>Bh_Shell\<close> (\<^verbatim>\<open>shell/shell.c\<close>): commands, prompt loop, ring 3 program, background thread, on the record \<open>machine\<close>.
    \<open>Bh_ShellSim\<close>: the shell on any sector store does what it does on the ideal disk. \<open>Bh_ShellInv\<close>: what the prompt loop keeps.
    \<open>Bh_ShellSession\<close>: typed sessions of file commands as operations on a map and the screen.
  \<^item> \<open>Bh_Kernel\<close> (\<^verbatim>\<open>kernel/kernel.c\<close>, \<^verbatim>\<open>kernel/user_mode.S\<close>): the boot, on the record \<open>kernel\<close> that joins everything.

  \<^bold>\<open>What the theorems show.\<close> The heap never hands out overlapping blocks and keeps the contents of
  live ones; files behave as a map from names to contents over every
  history of calls, on an ideal disk and through the driver on every drive that follows the protocol,
  from a fresh format to the files found after a restart; no file operation writes a reserved sector; a reader of the keyboard
  buffer takes out exactly one key whatever interrupts come between its accesses; a context switch resumes each thread with
  exactly its registers and every thread gets its turn; the shell runs the command the line asks
  for, what \<^verbatim>\<open>write\<close> stores \<^verbatim>\<open>cat\<close> prints, and a whole typed session of file commands, through every layer down to the
  ports, is one on a map; no input makes the prompt loop damage the heap, the page
  tables or the shape of the disk; the boot brings all of this up. The code also falls
  short of its intent in places, and those have theorems of their own: the entry to ring 3 resets the
  machine, a boot without a drive hangs, a key can arrive unnoticed just before the \<^verbatim>\<open>hlt\<close>, a write that does not fit destroys the old file, a fresh
  thread leaves the timer interrupt unacknowledged, and others.

  \<^bold>\<open>Assumptions.\<close> Locales name what is relied on: of a drive in \<open>ide_device\<close>, of the hardware at boot
  in \<open>boot_device\<close>. The kernel's C objects and buffers do not overlap, except where flat memory is
  modelled, where it is stated; the addresses the linker chooses are parameters. Values read by
  inline assembly are parameters of the definitions that read them. Local arrays the C code leaves
  uninitialised start as zeros; the code writes them before it reads them.

  \<^bold>\<open>Interrupts.\<close> They are an input: \<^verbatim>\<open>sleep\<close> and the keyboard consume a sequence of interrupts, the
  handlers are definitions of their own, and the scheduler is proved for a timer interrupt between
  any two steps of a thread. \<^verbatim>\<open>keyboard_read\<close>, which shares the ring buffer with the keyboard handler, is interleaved
  with interrupts at every memory access. Interrupts during the boot and preemption inside other kernel
  functions are not interleaved.

  \<^bold>\<open>Not modelled.\<close> The boot loader and the stubs that save registers and load tables (assembly without
  decisions of their own), the build scripts and the type aliases of the headers.
\<close>

end
